(* ===== verification/Pega_Prelude.thy ===== *)
theory Pega_Prelude
  imports Main "HOL-Library.Word" "HOL-Library.AList"
begin

text \<open>
  Shared ground of the development: the machine integers of the Rust sources as
  fixed-width words, the integer operations of the Rust standard library that the
  sources call (\<open>checked_*\<close>, \<open>saturating_*\<close>, \<open>abs_diff\<close>, \<open>div_ceil\<close>,
  \<open>next_multiple_of\<close>), results with errors as values, and lemmas on lists, maps and
  association lists that several components use.
\<close>

unbundle bit_operations_syntax

type_synonym u8 = "8 word"
type_synonym u32 = "32 word"
type_synonym u64 = "64 word"
type_synonym usize = "64 word" \<comment> \<open>the crate only builds on 64-bit Linux\<close>

named_theorems word_arith \<open>reading word operations through \<open>unat\<close>\<close>
named_theorems res_simps \<open>results as values\<close>

section \<open>Integer operations of the standard library\<close>

definition checked_add :: "'a::len word \<Rightarrow> 'a word \<Rightarrow> 'a word option" where
  "checked_add a b = (if unat a + unat b < 2 ^ LENGTH('a) then Some (a + b) else None)"

definition checked_mul :: "'a::len word \<Rightarrow> 'a word \<Rightarrow> 'a word option" where
  "checked_mul a b = (if unat a * unat b < 2 ^ LENGTH('a) then Some (a * b) else None)"

definition checked_sub :: "'a::len word \<Rightarrow> 'a word \<Rightarrow> 'a word option" where
  "checked_sub a b = (if b \<le> a then Some (a - b) else None)"

definition saturating_add :: "'a::len word \<Rightarrow> 'a word \<Rightarrow> 'a word" where
  "saturating_add a b = (case checked_add a b of Some c \<Rightarrow> c | None \<Rightarrow> - 1)"

definition saturating_mul :: "'a::len word \<Rightarrow> 'a word \<Rightarrow> 'a word" where
  "saturating_mul a b = (case checked_mul a b of Some c \<Rightarrow> c | None \<Rightarrow> - 1)"

definition saturating_sub :: "'a::len word \<Rightarrow> 'a word \<Rightarrow> 'a word" where
  "saturating_sub a b = (case checked_sub a b of Some c \<Rightarrow> c | None \<Rightarrow> 0)"

definition abs_diff :: "'a::len word \<Rightarrow> 'a word \<Rightarrow> 'a word" where
  "abs_diff a b = (if a \<le> b then b - a else a - b)"

text \<open>\<open>next_multiple_of\<close> of an unsigned integer; the divisor is positive.\<close>

definition next_multiple_of :: "'a::len word \<Rightarrow> 'a word \<Rightarrow> 'a word" where
  "next_multiple_of a b = (let r = a mod b in if r = 0 then a else a + (b - r))"

subsection \<open>Their values as natural numbers\<close>

lemma unat_lt_pow: "unat (a :: 'a::len word) < 2 ^ LENGTH('a)"
  by (rule unsigned_less)

lemma unat_add_fits [word_arith]:
  "unat a + unat b < 2 ^ LENGTH('a) \<Longrightarrow> unat (a + b :: 'a::len word) = unat a + unat b"
  by (simp add: unat_word_ariths)

lemma unat_mult_fits [word_arith]:
  "unat a * unat b < 2 ^ LENGTH('a) \<Longrightarrow> unat (a * b :: 'a::len word) = unat a * unat b"
  by (simp add: unat_word_ariths)

lemma unat_sub_fits [word_arith]:
  "b \<le> a \<Longrightarrow> unat (a - b :: 'a::len word) = unat a - unat b"
  by (simp add: unat_sub)

lemma unat_minus_one [word_arith]:
  "a \<noteq> 0 \<Longrightarrow> unat (a - 1 :: 'a::len word) = unat a - 1"
  by (simp add: unat_minus_one)

lemma unat_div_word [word_arith]: "unat (a div b :: 'a::len word) = unat a div unat b"
  by (simp add: unat_div)

lemma unat_mod_word [word_arith]: "unat (a mod b :: 'a::len word) = unat a mod unat b"
  by (simp add: unat_mod)

lemma checked_add_SomeD:
  "checked_add a b = Some (c :: 'a::len word) \<Longrightarrow>
     unat c = unat a + unat b \<and> unat a + unat b < 2 ^ LENGTH('a)"
  by (auto simp: checked_add_def word_arith split: if_splits)

lemma checked_mul_SomeD:
  "checked_mul a b = Some (c :: 'a::len word) \<Longrightarrow>
     unat c = unat a * unat b \<and> unat a * unat b < 2 ^ LENGTH('a) \<and> c = a * b"
  by (auto simp: checked_mul_def word_arith split: if_splits)

lemma checked_add_None:
  "checked_add a (b :: 'a::len word) = None \<longleftrightarrow> 2 ^ LENGTH('a) \<le> unat a + unat b"
  by (auto simp: checked_add_def)

lemma checked_mul_None:
  "checked_mul a (b :: 'a::len word) = None \<longleftrightarrow> 2 ^ LENGTH('a) \<le> unat a * unat b"
  by (auto simp: checked_mul_def)

lemma unat_max_word: "unat (- 1 :: 'a::len word) = 2 ^ LENGTH('a) - 1"
  by (simp add: unsigned_minus_1_eq_mask mask_eq_exp_minus_1)

lemma unat_saturating_add [word_arith]:
  "unat (saturating_add a b :: 'a::len word) = min (unat a + unat b) (2 ^ LENGTH('a) - 1)"
  using unat_lt_pow[of a]
  by (auto simp: saturating_add_def checked_add_def unat_max_word word_arith min_def
      split: option.splits)

lemma unat_saturating_mul [word_arith]:
  "unat (saturating_mul a b :: 'a::len word) = min (unat a * unat b) (2 ^ LENGTH('a) - 1)"
proof (cases "unat a * unat b < 2 ^ LENGTH('a)")
  case True
  then show ?thesis by (simp add: saturating_mul_def checked_mul_def word_arith)
next
  case False
  then show ?thesis by (simp add: saturating_mul_def checked_mul_def unat_max_word)
qed

lemma unat_saturating_sub [word_arith]:
  "unat (saturating_sub a b :: 'a::len word) = unat a - unat b"
  by (auto simp: saturating_sub_def checked_sub_def word_arith word_le_nat_alt)

lemma unat_abs_diff [word_arith]:
  "unat (abs_diff a b :: 'a::len word) = (if unat a \<le> unat b then unat b - unat a else unat a - unat b)"
  by (auto simp: abs_diff_def word_arith word_le_nat_alt)

lemma unat_next_multiple_of:
  fixes a b :: "'a::len word"
  assumes "b \<noteq> 0" and "unat a + unat b < 2 ^ LENGTH('a)"
  shows "unat (next_multiple_of a b) = (unat a + (unat b - 1)) div unat b * unat b"
proof -
  let ?a = "unat a" and ?b = "unat b"
  have b: "0 < ?b" using assms(1) by (simp add: unat_gt_0)
  show ?thesis
  proof (cases "a mod b = 0")
    case True
    then have m: "?a mod ?b = 0" by (metis unat_mod_word unat_0)
    then obtain k where k: "?a = ?b * k" by auto
    have "(?b * k + (?b - 1)) div ?b = k + (?b - 1) div ?b"
      using b by (simp only: div_mult_self4 [OF less_imp_neq [OF b, symmetric]])
    then have "(?b * k + (?b - 1)) div ?b = k" using b by simp
    then show ?thesis using True k by (simp add: next_multiple_of_def)
  next
    case False
    have r: "unat (a mod b) = ?a mod ?b" by (rule unat_mod_word)
    have r0: "?a mod ?b \<noteq> 0" using False by (metis r unat_eq_zero)
    have rb: "?a mod ?b < ?b" using b by simp
    have le: "a mod b \<le> b" using r rb by (simp add: word_le_nat_alt)
    have sub: "unat (b - a mod b) = ?b - ?a mod ?b" using le r by (simp add: unat_sub_fits)
    have val: "unat (a + (b - a mod b)) = ?a + (?b - ?a mod ?b)"
      using sub assms(2) by (subst unat_add_fits) auto
    define q where "q = ?a div ?b"
    have a: "?a = q * ?b + ?a mod ?b" unfolding q_def by simp
    have "?a + (?b - 1) = (?a mod ?b - 1) + (q + 1) * ?b"
      using a r0 b by (simp add: algebra_simps)
    moreover have "?a mod ?b - 1 < ?b" using rb by simp
    ultimately have "(?a + (?b - 1)) div ?b = q + 1"
      using b div_mult_self1 [of ?b "?a mod ?b - 1" "q + 1"] by simp
    then show ?thesis using False val a rb by (simp add: next_multiple_of_def Let_def)
  qed
qed

subsection \<open>Division rounding up\<close>

definition div_ceil :: "nat \<Rightarrow> nat \<Rightarrow> nat" where
  "div_ceil a b = (if a mod b = 0 then a div b else a div b + 1)"

lemma div_ceil_ge: "0 < b \<Longrightarrow> a \<le> div_ceil a b * b"
proof -
  assume b: "0 < b"
  have e: "a = a div b * b + a mod b" by simp
  show ?thesis
  proof (cases "a mod b = 0")
    case False
    have "a mod b \<le> b" using b by simp
    then have "a \<le> a div b * b + b" using e by linarith
    then show ?thesis using False by (simp add: div_ceil_def)
  qed (use e in \<open>simp add: div_ceil_def\<close>)
qed

lemma div_ceil_least: "0 < b \<Longrightarrow> a \<le> k * b \<Longrightarrow> div_ceil a b \<le> k"
proof -
  assume b: "0 < b" and le: "a \<le> k * b"
  have q: "a div b \<le> k" using le b by (metis div_le_mono div_mult_self_is_m)
  show "div_ceil a b \<le> k"
  proof (cases "a mod b = 0")
    case False
    have "a div b \<noteq> k"
    proof
      assume "a div b = k"
      then have "k * b + a mod b = a" by (metis div_mult_mod_eq)
      then show False using le False by simp
    qed
    then show ?thesis using q False by (simp add: div_ceil_def)
  qed (simp add: div_ceil_def q)
qed

lemma div_ceil_pos: "0 < b \<Longrightarrow> 0 < a \<Longrightarrow> 0 < div_ceil a b"
  using div_ceil_ge[of b a] by (metis gr_zeroI leD mult_zero_left)

text \<open>\<open>Iterator::max_by_key\<close>, which returns the last of several maximal elements.\<close>

fun max_by_key :: "('a \<Rightarrow> 'k::linorder) \<Rightarrow> 'a list \<Rightarrow> 'a option" where
  "max_by_key f [] = None"
| "max_by_key f (x # xs) =
     (case max_by_key f xs of None \<Rightarrow> Some x | Some y \<Rightarrow> if f x \<le> f y then Some y else Some x)"

lemma max_by_key_Some:
  "max_by_key f xs = Some x \<Longrightarrow> x \<in> set xs \<and> (\<forall>y \<in> set xs. f y \<le> f x)"
proof (induction xs arbitrary: x)
  case (Cons a xs)
  show ?case
  proof (cases "max_by_key f xs")
    case None
    then have "xs = []" by (cases xs) (auto split: option.splits if_splits)
    then show ?thesis using Cons.prems by simp
  next
    case (Some y)
    then show ?thesis using Cons.prems Cons.IH[OF Some] by (auto split: if_splits)
  qed
qed simp

lemma max_by_key_None [simp]: "max_by_key f xs = None \<longleftrightarrow> xs = []"
  by (cases xs) (auto split: option.splits)

section \<open>Results\<close>

text \<open>A fallible call is \<open>Inl e\<close> for \<open>Err(e)\<close> and \<open>Inr v\<close> for \<open>Ok(v)\<close>.\<close>

definition ok_or :: "'a option \<Rightarrow> 'e \<Rightarrow> 'e + 'a" where
  "ok_or x e = (case x of Some v \<Rightarrow> Inr v | None \<Rightarrow> Inl e)"

definition bind_res :: "('e + 'a) \<Rightarrow> ('a \<Rightarrow> 'e + 'b) \<Rightarrow> 'e + 'b" where
  "bind_res r f = (case r of Inl e \<Rightarrow> Inl e | Inr v \<Rightarrow> f v)"

lemma bind_res_simps [simp]:
  "bind_res (Inl e) f = Inl e" "bind_res (Inr v) f = f v"
  by (simp_all add: bind_res_def)

lemma ok_or_simps [simp]:
  "ok_or None e = Inl e" "ok_or (Some v) e = Inr v"
  by (simp_all add: ok_or_def)

lemma bind_res_Inr [res_simps]:
  "bind_res r f = Inr y \<longleftrightarrow> (\<exists>v. r = Inr v \<and> f v = Inr y)"
  by (cases r) auto

lemma bind_res_Inl [res_simps]:
  "bind_res r f = Inl e \<longleftrightarrow> r = Inl e \<or> (\<exists>v. r = Inr v \<and> f v = Inl e)"
  by (cases r) auto

lemma ok_or_Inr [res_simps]: "ok_or x e = Inr v \<longleftrightarrow> x = Some v"
  by (cases x) auto

lemma ok_or_Inl [res_simps]: "ok_or x e = Inl e' \<longleftrightarrow> x = None \<and> e' = e"
  by (cases x) auto

section \<open>Spans and prefixes\<close>

text \<open>Two spans, each a start and a length, that share no element.\<close>

definition spans_apart :: "nat \<times> nat \<Rightarrow> nat \<times> nat \<Rightarrow> bool" where
  "spans_apart x y \<longleftrightarrow> fst x + snd x \<le> fst y \<or> fst y + snd y \<le> fst x"

lemma spans_apart_sym: "spans_apart x y = spans_apart y x"
  by (auto simp: spans_apart_def)

text \<open>The iterator adaptor \<open>map_while\<close>: map until the first miss.\<close>

fun map_while :: "('a \<Rightarrow> 'b option) \<Rightarrow> 'a list \<Rightarrow> 'b list" where
  "map_while f [] = []"
| "map_while f (x # xs) = (case f x of None \<Rightarrow> [] | Some y \<Rightarrow> y # map_while f xs)"

lemma map_while_takeWhile: "map_while f xs = map (the \<circ> f) (takeWhile (\<lambda>x. f x \<noteq> None) xs)"
  by (induction xs) (auto split: option.split)

lemma length_map_while_le [simp]: "length (map_while f xs) \<le> length xs"
  by (simp add: map_while_takeWhile length_takeWhile_le)

lemma map_while_nth: "i < length (map_while f xs) \<Longrightarrow> f (xs ! i) = Some (map_while f xs ! i)"
proof (induction xs arbitrary: i)
  case (Cons x xs)
  then show ?case by (cases i) (auto split: option.splits)
qed simp

lemma map_while_stops:
  "length (map_while f xs) < length xs \<Longrightarrow> f (xs ! length (map_while f xs)) = None"
  by (induction xs) (auto split: option.splits)

text \<open>\<open>entry(k).or_default().push(v)\<close> on a map of lists.\<close>

definition entry_push :: "('k \<rightharpoonup> 'v list) \<Rightarrow> 'k \<times> 'v \<Rightarrow> ('k \<rightharpoonup> 'v list)" where
  "entry_push g x = g(fst x \<mapsto> (case g (fst x) of None \<Rightarrow> [] | Some ys \<Rightarrow> ys) @ [snd x])"

lemma entry_push_fold:
  "foldl entry_push Map.empty xs k =
     (if filter (\<lambda>x. fst x = k) xs = [] then None else Some (map snd (filter (\<lambda>x. fst x = k) xs)))"
  by (induction xs rule: rev_induct) (auto simp: entry_push_def)

text \<open>
  The interface of an index that is searched by prefix: a lookup whose hits satisfy a
  guarantee as long as the index is in a good state. The SSD ring, the read cache and the
  block-hash store provide it.
\<close>

locale prefix_index =
  fixes look :: "'s \<Rightarrow> 'k \<Rightarrow> 'v option"
    and good :: "'s \<Rightarrow> bool"
    and guarantee :: "'s \<Rightarrow> 'k \<Rightarrow> 'v \<Rightarrow> bool"
  assumes look_sound: "good s \<Longrightarrow> look s k = Some v \<Longrightarrow> guarantee s k v"
begin

lemma prefix_hits_guaranteed:
  assumes "good s" and "i < length (map_while (look s) ks)"
  shows "guarantee s (ks ! i) (map_while (look s) ks ! i)"
  using look_sound[OF assms(1) map_while_nth[OF assms(2)]] .

lemma prefix_longest:
  assumes "\<And>j. j < n \<Longrightarrow> look s (ks ! j) \<noteq> None" and "n \<le> length ks"
  shows "n \<le> length (map_while (look s) ks)"
proof (rule ccontr)
  assume "\<not> ?thesis"
  then have "look s (ks ! length (map_while (look s) ks)) = None"
    using assms(2) by (intro map_while_stops) simp
  with assms(1) \<open>\<not> ?thesis\<close> show False by (metis not_le)
qed

end

section \<open>Concurrent hash maps\<close>

text \<open>
  The maps of the \<open>dashmap\<close> crate as the sources use them. The crate is not part of the
  sources, so its operations are an argument of the definitions, and \<open>map_laws\<close> states what
  its documentation promises: the entry API reads, replaces and removes the value of one
  key, iteration visits every entry once in an unspecified order, and \<open>retain\<close> lets a
  closure change or drop each entry.
\<close>

record ('d, 'k, 'v) map_ops =
  m_empty :: 'd
  m_get :: "'d \<Rightarrow> 'k \<Rightarrow> 'v option"
  m_put :: "'d \<Rightarrow> 'k \<Rightarrow> 'v \<Rightarrow> 'd"
  m_del :: "'d \<Rightarrow> 'k \<Rightarrow> 'd"
  m_items :: "'d \<Rightarrow> ('k \<times> 'v) list"
  m_retain :: "'d \<Rightarrow> ('k \<Rightarrow> 'v \<Rightarrow> 'v option) \<Rightarrow> 'd"

definition map_laws :: "('d, 'k, 'v) map_ops \<Rightarrow> bool" where
  "map_laws D \<longleftrightarrow>
     m_get D (m_empty D) = Map.empty \<and>
     (\<forall>d k v. m_get D (m_put D d k v) = (m_get D d)(k \<mapsto> v)) \<and>
     (\<forall>d k. m_get D (m_del D d k) = (m_get D d)(k := None)) \<and>
     (\<forall>d. map_of (m_items D d) = m_get D d) \<and>
     (\<forall>d. distinct (map fst (m_items D d))) \<and>
     (\<forall>d f k. m_get D (m_retain D d f) k = Option.bind (m_get D d k) (f k))"

lemma map_lawsD:
  assumes "map_laws D"
  shows "m_get D (m_empty D) = Map.empty"
    and "m_get D (m_put D d k v) = (m_get D d)(k \<mapsto> v)"
    and "m_get D (m_del D d k) = (m_get D d)(k := None)"
    and "map_of (m_items D d) = m_get D d"
    and "distinct (map fst (m_items D d))"
    and "m_get D (m_retain D d f) k = Option.bind (m_get D d k) (f k)"
  using assms by (simp_all add: map_laws_def)

lemma map_laws_items_set: "map_laws D \<Longrightarrow> (k, v) \<in> set (m_items D d) \<longleftrightarrow> m_get D d k = Some v"
  by (metis map_lawsD(4,5) map_of_eq_Some_iff)

lemma map_laws_finite: "map_laws D \<Longrightarrow> finite (dom (m_get D d))"
  by (metis finite_dom_map_of map_lawsD(4))

text \<open>An association list satisfies the laws.\<close>

definition alist_map :: "(('k \<times> 'v) list, 'k, 'v) map_ops" where
  "alist_map = \<lparr>m_empty = [], m_get = map_of, m_put = (\<lambda>d k v. AList.update k v d),
     m_del = (\<lambda>d k. AList.delete k d), m_items = AList.clearjunk,
     m_retain = (\<lambda>d f. List.map_filter (\<lambda>(k, v). map_option (Pair k) (f k v)) (AList.clearjunk d))\<rparr>"

lemma alist_map_simps [simp]:
  "m_empty alist_map = []" "m_get alist_map = map_of" "m_put alist_map d k v = AList.update k v d"
  "m_del alist_map d k = AList.delete k d" "m_items alist_map = AList.clearjunk"
  "m_retain alist_map d f = List.map_filter (\<lambda>(k, v). map_option (Pair k) (f k v)) (AList.clearjunk d)"
  by (simp_all add: alist_map_def)

lemma map_of_map_filter_values:
  "distinct (map fst d) \<Longrightarrow>
     map_of (List.map_filter (\<lambda>(k, v). map_option (Pair k) (f k v)) d) k = Option.bind (map_of d k) (f k)"
proof (induction d)
  case (Cons x d)
  obtain a b where x: "x = (a, b)" by fastforce
  have "map_of d k = None" if "k = a" using Cons.prems that by (auto simp: x map_of_eq_None_iff)
  then show ?case using Cons
    by (cases "k = a"; cases "f a b") (auto simp: x List.map_filter_def split: option.splits)
qed (simp add: List.map_filter_def)

lemma alist_map_laws: "map_laws alist_map"
  by (simp add: map_laws_def update_conv' delete_conv' map_of_clearjunk
      distinct_clearjunk map_of_map_filter_values)

text \<open>Sums over the values of a finite map, and how a change of one key changes them.\<close>

definition map_total :: "('v \<Rightarrow> 'n::ab_group_add) \<Rightarrow> ('k \<rightharpoonup> 'v) \<Rightarrow> 'n" where
  "map_total w m = (\<Sum>k \<in> dom m. w (the (m k)))"

definition at_key :: "('v \<Rightarrow> 'n::ab_group_add) \<Rightarrow> 'v option \<Rightarrow> 'n" where
  "at_key w x = (case x of None \<Rightarrow> 0 | Some v \<Rightarrow> w v)"

lemma at_key_simps [simp]: "at_key w None = 0" "at_key w (Some v) = w v"
  by (simp_all add: at_key_def)

lemma map_total_del:
  assumes "finite (dom m)"
  shows "map_total w (m(k := None)) = map_total w m - at_key w (m k)"
proof (cases "m k")
  case None
  then show ?thesis by (simp add: fun_upd_idem)
next
  case (Some v)
  have "map_total w (m(k := None)) = (\<Sum>j \<in> dom m - {k}. w (the (m j)))"
    by (auto simp: map_total_def intro!: sum.cong)
  then show ?thesis using assms Some by (simp add: map_total_def sum_diff1 domI)
qed

lemma map_total_put:
  assumes "finite (dom m)"
  shows "map_total w (m(k \<mapsto> v)) = map_total w m - at_key w (m k) + w v"
proof -
  let ?D = "dom (m(k := None))"
  have "map_total w (m(k \<mapsto> v)) = (\<Sum>j \<in> insert k ?D. if j = k then w v else w (the (m j)))"
    unfolding map_total_def by (rule sum.cong) auto
  also have "\<dots> = w v + (\<Sum>j \<in> ?D. if j = k then w v else w (the (m j)))"
    using assms by (subst sum.insert) auto
  also have "(\<Sum>j \<in> ?D. if j = k then w v else w (the (m j))) = map_total w (m(k := None))"
    unfolding map_total_def by (rule sum.cong) auto
  also have "\<dots> = map_total w m - at_key w (m k)" by (rule map_total_del[OF assms])
  finally show ?thesis by (simp only: add.commute)
qed

lemma map_total_items:
  "distinct (map fst xs) \<Longrightarrow> map_total w (map_of xs) = sum_list (map (w \<circ> snd) xs)"
proof (induction xs)
  case (Cons x xs)
  have "map_of xs (fst x) = None" using Cons.prems by (auto simp: map_of_eq_None_iff)
  moreover have "map_of (x # xs) = (map_of xs)(fst x \<mapsto> snd x)" by (cases x) auto
  ultimately have "map_total w (map_of (x # xs)) = map_total w (map_of xs) + w (snd x)"
    using map_total_put[OF finite_dom_map_of, of w xs "fst x" "snd x"] by simp
  then show ?case using Cons by (simp add: add.commute del: map_of.simps)
qed (simp add: map_total_def)

lemma map_total_bind:
  assumes "finite (dom m)"
  shows "map_total w (\<lambda>k. Option.bind (m k) f) = map_total (\<lambda>v. at_key w (f v)) m"
proof -
  have "dom (\<lambda>k. Option.bind (m k) f) \<subseteq> dom m" by (auto simp: bind_eq_Some_conv)
  then have "map_total w (\<lambda>k. Option.bind (m k) f) = (\<Sum>k \<in> dom m. at_key w (Option.bind (m k) f))"
    unfolding map_total_def using assms
    by (intro sum.mono_neutral_cong_left) (auto simp: domIff at_key_def split: option.splits)
  also have "\<dots> = map_total (\<lambda>v. at_key w (f v)) m"
    unfolding map_total_def by (rule sum.cong) auto
  finally show ?thesis .
qed

end
