(* ===== verification/Kv_Layout.thy ===== *)
theory Kv_Layout
  imports Pega_Prelude
begin

text \<open>
  The layout of one layer's KV cache on the GPU (\<open>pegaflow-core/src/layout.rs\<close>): the
  affine address formula, its validation at construction, and the two builders that
  change a validated layout. Sizes and addresses are 64-bit words; an unchecked Rust
  addition or multiplication is the wrapping word operation, so that "the arithmetic
  cannot overflow" is a theorem about the model and not an assumption.
\<close>

section \<open>Data\<close>

datatype segment_layout =
    Contiguous
  | Split usize \<comment> \<open>\<open>kv_stride_bytes\<close>\<close>

record block_copy =
  addr :: u64
  bytes :: usize

datatype block_copies =
    CopyContiguous block_copy
  | CopySplit block_copy block_copy \<comment> \<open>K, then V\<close>

record kv_layout =
  data_ptr :: u64
  size_bytes :: usize
  num_blocks :: usize
  block_stride_bytes :: usize
  segment_bytes :: usize
  segments :: usize
  padded_segment_bytes :: usize
  seg :: segment_layout

text \<open>One constructor per message, with the numbers the message carries.\<close>

datatype layout_error =
    NullDataPtr
  | ZeroSizeBytes
  | ZeroShape
  | AddressSpaceOverflow
  | BlockSizeOverflow
  | ZeroKvStride
  | SegmentsOverlap usize usize
  | SplitNeedsTwoSegments usize usize usize
  | BlockStrideTooSmall usize usize
  | MemoryLayoutOverflow
  | KvStrideOverlapsBlocks usize usize
  | RegisteredMemoryTooSmall usize usize
  | BlockOutOfRange usize usize

section \<open>Operations\<close>

definition block_bytes :: "kv_layout \<Rightarrow> usize" where
  "block_bytes l = segment_bytes l * segments l"

text \<open>The loop of \<open>check_split_segments_disjoint\<close> over the two candidate distances.\<close>

fun check_split_distances ::
  "usize \<Rightarrow> usize \<Rightarrow> usize \<Rightarrow> usize \<Rightarrow> usize list \<Rightarrow> layout_error + unit" where
  "check_split_distances kv stride sb max_distance [] = Inr ()"
| "check_split_distances kv stride sb max_distance (d # ds) =
     (if d = 0 \<or> max_distance < d
      then check_split_distances kv stride sb max_distance ds
      else bind_res (ok_or (checked_mul d stride) MemoryLayoutOverflow) (\<lambda>bd.
        if abs_diff kv bd < sb then Inl (KvStrideOverlapsBlocks kv d)
        else check_split_distances kv stride sb max_distance ds))"

definition check_split_segments_disjoint :: "kv_layout \<Rightarrow> usize \<Rightarrow> layout_error + unit" where
  "check_split_segments_disjoint l kv =
     (let max_block_distance = num_blocks l - 1;
          nearest = kv div block_stride_bytes l
      in check_split_distances kv (block_stride_bytes l) (segment_bytes l)
           max_block_distance [nearest, saturating_add nearest 1])"

definition last_segment_end :: "kv_layout \<Rightarrow> usize \<Rightarrow> layout_error + usize" where
  "last_segment_end l n =
     ok_or (Option.bind (checked_mul (num_blocks l - 1) (block_stride_bytes l))
              (\<lambda>off. checked_add off n)) MemoryLayoutOverflow"

definition addressed_end :: "kv_layout \<Rightarrow> layout_error + usize" where
  "addressed_end l =
     (case seg l of
        Contiguous \<Rightarrow>
          if block_stride_bytes l < block_bytes l
          then Inl (BlockStrideTooSmall (block_stride_bytes l) (block_bytes l))
          else last_segment_end l (block_bytes l)
      | Split kv \<Rightarrow>
          if block_stride_bytes l < segment_bytes l
          then Inl (BlockStrideTooSmall (block_stride_bytes l) (segment_bytes l))
          else bind_res (check_split_segments_disjoint l kv) (\<lambda>_.
            bind_res (last_segment_end l (segment_bytes l)) (\<lambda>e.
              ok_or (checked_add kv e) MemoryLayoutOverflow)))"

definition check_bounds :: "kv_layout \<Rightarrow> layout_error + unit" where
  "check_bounds l =
     bind_res (addressed_end l) (\<lambda>e.
       if size_bytes l < e then Inl (RegisteredMemoryTooSmall e (size_bytes l)) else Inr ())"

definition choose_segment_layout :: "usize \<Rightarrow> usize \<Rightarrow> usize \<Rightarrow> layout_error + segment_layout" where
  "choose_segment_layout sb kv n =
     (if n = 1 then Inr Contiguous
      else if kv = 0 then Inl ZeroKvStride
      else if kv < sb then Inl (SegmentsOverlap kv sb)
      else if kv = sb then Inr Contiguous
      else if n = 2 then Inr (Split kv)
      else Inl (SplitNeedsTwoSegments kv sb n))"

definition layout_new ::
  "u64 \<Rightarrow> usize \<Rightarrow> usize \<Rightarrow> usize \<Rightarrow> usize \<Rightarrow> usize \<Rightarrow> layout_error + kv_layout" where
  "layout_new ptr sz nb sb kv n =
     (if ptr = 0 then Inl NullDataPtr
      else if sz = 0 then Inl ZeroSizeBytes
      else if sb = 0 \<or> nb = 0 \<or> n = 0 then Inl ZeroShape
      else bind_res (ok_or (checked_add ptr sz) AddressSpaceOverflow) (\<lambda>_.
        bind_res (ok_or (checked_mul sb n) BlockSizeOverflow) (\<lambda>block_bytes'.
          bind_res (choose_segment_layout sb kv n) (\<lambda>s.
            let l = \<lparr>data_ptr = ptr, size_bytes = sz, num_blocks = nb,
                     block_stride_bytes = (case s of Contiguous \<Rightarrow> block_bytes' | Split _ \<Rightarrow> sb),
                     segment_bytes = sb, segments = n, padded_segment_bytes = sb, seg = s\<rparr>
            in bind_res (check_bounds l) (\<lambda>_. Inr l)))))"

definition with_block_stride :: "kv_layout \<Rightarrow> usize \<Rightarrow> layout_error + kv_layout" where
  "with_block_stride l stride =
     (let min_stride = (case seg l of Contiguous \<Rightarrow> block_bytes l | Split _ \<Rightarrow> segment_bytes l)
      in if stride < min_stride then Inl (BlockStrideTooSmall stride min_stride)
         else let l' = l\<lparr>block_stride_bytes := stride\<rparr>
              in bind_res (check_bounds l') (\<lambda>_. Inr l'))"

definition with_ssd_padding :: "kv_layout \<Rightarrow> usize \<Rightarrow> kv_layout" where
  "with_ssd_padding l alignment =
     l\<lparr>padded_segment_bytes := next_multiple_of (segment_bytes l) alignment\<rparr>"

definition block_copies_of :: "kv_layout \<Rightarrow> usize \<Rightarrow> layout_error + block_copies" where
  "block_copies_of l i =
     (if num_blocks l \<le> i then Inl (BlockOutOfRange i (num_blocks l))
      else let base = data_ptr l + i * block_stride_bytes l
           in Inr (case seg l of
                Contiguous \<Rightarrow> CopyContiguous \<lparr>addr = base, bytes = block_bytes l\<rparr>
              | Split kv \<Rightarrow>
                  CopySplit \<lparr>addr = base, bytes = segment_bytes l\<rparr>
                            \<lparr>addr = base + kv, bytes = segment_bytes l\<rparr>))"

definition is_split :: "kv_layout \<Rightarrow> bool" where
  "is_split l = (case seg l of Contiguous \<Rightarrow> False | Split _ \<Rightarrow> True)"

definition padded_block_bytes :: "kv_layout \<Rightarrow> usize" where
  "padded_block_bytes l = padded_segment_bytes l * segments l"

section \<open>Well-formed layouts\<close>

text \<open>
  What construction establishes, in natural numbers: nothing wraps, every addressed byte
  lies in the registered region, and no K range of one block meets a V range of another.
\<close>

definition nat_gap :: "nat \<Rightarrow> nat \<Rightarrow> nat" where
  "nat_gap a b = (if a \<le> b then b - a else a - b)"

definition split_disjoint :: "kv_layout \<Rightarrow> usize \<Rightarrow> bool" where
  "split_disjoint l kv \<longleftrightarrow>
     (\<forall>d \<in> {1..unat (num_blocks l) - 1}.
        unat (segment_bytes l) \<le> nat_gap (unat kv) (d * unat (block_stride_bytes l)))"

definition layout_shape_ok :: "kv_layout \<Rightarrow> bool" where
  "layout_shape_ok l \<longleftrightarrow>
     data_ptr l \<noteq> 0 \<and> segment_bytes l \<noteq> 0 \<and> num_blocks l \<noteq> 0 \<and> segments l \<noteq> 0 \<and>
     unat (data_ptr l) + unat (size_bytes l) < 2 ^ 64 \<and>
     unat (segment_bytes l) * unat (segments l) < 2 ^ 64 \<and>
     (case seg l of Contiguous \<Rightarrow> True
        | Split kv \<Rightarrow> segments l = 2 \<and> segment_bytes l < kv)"

definition layout_region_ok :: "kv_layout \<Rightarrow> bool" where
  "layout_region_ok l \<longleftrightarrow>
     (let nb = unat (num_blocks l); st = unat (block_stride_bytes l); sb = unat (segment_bytes l)
      in case seg l of
           Contiguous \<Rightarrow>
             sb * unat (segments l) \<le> st \<and>
             (nb - 1) * st + sb * unat (segments l) \<le> unat (size_bytes l)
         | Split kv \<Rightarrow>
             sb \<le> st \<and> split_disjoint l kv \<and>
             unat kv + ((nb - 1) * st + sb) \<le> unat (size_bytes l))"

definition layout_wf :: "kv_layout \<Rightarrow> bool" where
  "layout_wf l \<longleftrightarrow> layout_shape_ok l \<and> layout_region_ok l"

lemma unat_block_bytes:
  "layout_shape_ok l \<Longrightarrow> unat (block_bytes l) = unat (segment_bytes l) * unat (segments l)"
  by (simp add: layout_shape_ok_def block_bytes_def word_arith)

subsection \<open>The disjointness check is exact\<close>

lemma nearest_multiples_suffice:
  fixes kv st sb m :: nat
  assumes st: "0 < st" and sb: "sb \<le> st"
    and near: "\<And>d. d \<in> {kv div st, kv div st + 1} \<Longrightarrow> 1 \<le> d \<Longrightarrow> d \<le> m \<Longrightarrow> sb \<le> nat_gap kv (d * st)"
    and d: "1 \<le> d" "d \<le> m"
  shows "sb \<le> nat_gap kv (d * st)"
proof -
  define n where "n = kv div st"
  have lo: "n * st \<le> kv" by (simp add: n_def)
  have hi: "kv < (n + 1) * st" using st by (simp add: n_def dividend_less_div_times)
  consider "d < n" | "d = n" | "d = n + 1" | "n + 2 \<le> d" by linarith
  then show ?thesis
  proof cases
    case 1
    then have "(d + 1) * st \<le> n * st" by (intro mult_le_mono1) simp
    then have "d * st + st \<le> kv" using lo by simp
    then show ?thesis using sb st by (simp add: nat_gap_def)
  next
    case 2
    then show ?thesis using near d by (simp add: n_def)
  next
    case 3
    then have "d \<in> {kv div st, kv div st + 1}" by (simp add: n_def)
    then show ?thesis using d by (rule near)
  next
    case 4
    then have "(n + 2) * st \<le> d * st" by (intro mult_le_mono1)
    then have "kv + st \<le> d * st" using hi by (simp add: algebra_simps)
    then show ?thesis using sb by (simp add: nat_gap_def)
  qed
qed

lemma abs_diff_gap:
  fixes kv d st sb :: usize
  assumes "unat d * unat st < 2 ^ 64"
  shows "abs_diff kv (d * st) < sb \<longleftrightarrow> nat_gap (unat kv) (unat d * unat st) < unat sb"
proof -
  have "unat (d * st) = unat d * unat st" using assms by (simp add: unat_mult_fits)
  then show ?thesis by (simp add: word_less_nat_alt unat_abs_diff nat_gap_def)
qed

lemma check_split_distances_Inr:
  "check_split_distances kv st sb m ds = Inr () \<longleftrightarrow>
     (\<forall>d \<in> set ds. d \<noteq> 0 \<longrightarrow> d \<le> m \<longrightarrow>
        unat d * unat st < 2 ^ 64 \<and> unat sb \<le> nat_gap (unat kv) (unat d * unat st))"
proof (induction ds)
  case Nil
  then show ?case by simp
next
  case (Cons d ds)
  then show ?case
    by (auto simp: res_simps checked_mul_def not_less abs_diff_gap split: if_splits)
qed

lemma check_split_distances_Inl:
  "check_split_distances kv st sb m ds = Inl (KvStrideOverlapsBlocks kv' d) \<Longrightarrow>
     kv' = kv \<and> d \<in> set ds \<and> d \<noteq> 0 \<and> d \<le> m \<and>
     nat_gap (unat kv) (unat d * unat st) < unat sb"
proof (induction ds)
  case Nil
  then show ?case by simp
next
  case (Cons e ds)
  then show ?case
    by (auto simp: res_simps checked_mul_def abs_diff_gap split: if_splits)
qed

lemma check_split_segments_disjoint_sound:
  assumes ok: "check_split_segments_disjoint l kv = Inr ()"
    and sb: "segment_bytes l \<le> block_stride_bytes l" "segment_bytes l \<noteq> 0" and nb: "num_blocks l \<noteq> 0"
  shows "split_disjoint l kv"
proof -
  let ?st = "unat (block_stride_bytes l)" and ?sb = "unat (segment_bytes l)"
    and ?near = "kv div block_stride_bytes l" and ?m = "unat (num_blocks l) - 1"
  have st: "0 < ?st" and sb_st: "?sb \<le> ?st"
    using sb by (auto simp: word_le_nat_alt unat_gt_0[symmetric] intro: less_le_trans)
  have m: "unat (num_blocks l - 1) = ?m" using nb by (rule unat_minus_one)
  have chk: "?sb \<le> nat_gap (unat kv) (unat d * ?st)"
    if "d \<in> {?near, saturating_add ?near 1}" "unat d \<noteq> 0" "unat d \<le> ?m" for d
  proof -
    have "d \<noteq> 0" "d \<le> num_blocks l - 1"
      using that(2,3) m by (auto simp: word_le_nat_alt)
    then show ?thesis
      using ok that(1)
      by (auto simp: check_split_segments_disjoint_def Let_def check_split_distances_Inr
          simp del: check_split_distances.simps)
  qed
  have near: "?sb \<le> nat_gap (unat kv) (d * ?st)"
    if d: "d \<in> {unat kv div ?st, unat kv div ?st + 1}" "1 \<le> d" "d \<le> ?m" for d
  proof (cases "d = unat kv div ?st")
    case True
    then show ?thesis using chk[of ?near] d by (simp add: unat_div_word)
  next
    case False
    have "unat (num_blocks l) < 2 ^ 64" using unat_lt_pow[of "num_blocks l"] by simp
    then have "unat (saturating_add ?near 1) = d"
      using d False by (simp add: unat_saturating_add unat_div_word)
    then show ?thesis using chk[of "saturating_add ?near 1"] d by simp
  qed
  show ?thesis
    unfolding split_disjoint_def
    using nearest_multiples_suffice[OF st sb_st near] by auto
qed

subsection \<open>Construction establishes it\<close>

lemma last_segment_end_Inr:
  assumes "last_segment_end l n = Inr e" and "num_blocks l \<noteq> 0"
  shows "unat e = (unat (num_blocks l) - 1) * unat (block_stride_bytes l) + unat n"
  using assms
  by (auto simp: last_segment_end_def res_simps unat_minus_one bind_eq_Some_conv
      dest!: checked_add_SomeD checked_mul_SomeD)

lemma addressed_end_Inr:
  assumes "addressed_end l = Inr e" and shape: "layout_shape_ok l" and fits: "e \<le> size_bytes l"
  shows "layout_region_ok l"
proof -
  have nb: "num_blocks l \<noteq> 0" and sb: "segment_bytes l \<noteq> 0"
    using shape by (auto simp: layout_shape_ok_def)
  show ?thesis
  proof (cases "seg l")
    case Contiguous
    with assms(1) have "\<not> block_stride_bytes l < block_bytes l"
      and "last_segment_end l (block_bytes l) = Inr e"
      by (auto simp: addressed_end_def split: if_splits)
    then show ?thesis
      using Contiguous fits shape last_segment_end_Inr[OF _ nb]
      by (simp add: layout_region_ok_def not_less word_le_nat_alt unat_block_bytes)
  next
    case (Split kv)
    with assms(1) obtain m where
      st: "segment_bytes l \<le> block_stride_bytes l"
      and chk: "check_split_segments_disjoint l kv = Inr ()"
      and m: "last_segment_end l (segment_bytes l) = Inr m" "checked_add kv m = Some e"
      by (auto simp: addressed_end_def res_simps not_less split: if_splits)
    show ?thesis
      using Split fits st check_split_segments_disjoint_sound[OF chk st sb nb]
        last_segment_end_Inr[OF m(1) nb] checked_add_SomeD[OF m(2)]
      by (simp add: layout_region_ok_def word_le_nat_alt)
  qed
qed

lemma check_bounds_sound:
  assumes "check_bounds l = Inr ()" and "layout_shape_ok l"
  shows "layout_wf l"
proof -
  obtain e where "addressed_end l = Inr e" and "e \<le> size_bytes l"
    using assms(1) by (auto simp: check_bounds_def res_simps not_less split: if_splits)
  then show ?thesis using addressed_end_Inr assms(2) by (simp add: layout_wf_def)
qed

lemma layout_new_shape:
  assumes "layout_new ptr sz nb sb kv n = Inr l"
  shows "layout_shape_ok l \<and> check_bounds l = Inr ()"
  using assms
  by (auto simp: layout_new_def res_simps Let_def choose_segment_layout_def layout_shape_ok_def
      split: if_splits dest!: checked_add_SomeD checked_mul_SomeD)

lemma layout_shape_ok_stride [simp]:
  "layout_shape_ok (l\<lparr>block_stride_bytes := s\<rparr>) = layout_shape_ok l"
  by (simp add: layout_shape_ok_def split: segment_layout.split)

text \<open>
  C27. Construction is sound: a layout that \<open>KVCacheLayout::new\<close> accepts is well formed,
  and so is every layout that \<open>with_block_stride\<close> makes of a well-formed one. Nothing
  wraps, all addressed bytes are in the registered region, and no K and V ranges alias.
\<close>

theorem layout_construction_wf:
  "(layout_new ptr sz nb sb kv n = Inr l \<longrightarrow> layout_wf l) \<and>
   (layout_wf l0 \<and> with_block_stride l0 stride = Inr l1 \<longrightarrow> layout_wf l1)"
proof (intro conjI impI)
  assume "layout_new ptr sz nb sb kv n = Inr l"
  then show "layout_wf l" using layout_new_shape check_bounds_sound by blast
next
  assume "layout_wf l0 \<and> with_block_stride l0 stride = Inr l1"
  then show "layout_wf l1"
    by (auto simp: with_block_stride_def Let_def res_simps layout_wf_def split: if_splits
        dest: check_bounds_sound[unfolded layout_wf_def])
qed

section \<open>Addresses\<close>

definition copy_range :: "block_copy \<Rightarrow> nat set" where
  "copy_range c = {unat (addr c)..<unat (addr c) + unat (bytes c)}"

fun copies_list :: "block_copies \<Rightarrow> block_copy list" where
  "copies_list (CopyContiguous c) = [c]"
| "copies_list (CopySplit k v) = [k, v]"

text \<open>Byte offset and length of each copy of block \<open>i\<close>, relative to the region's base.\<close>

definition copy_spans :: "kv_layout \<Rightarrow> nat \<Rightarrow> (nat \<times> nat) list" where
  "copy_spans l i =
     (let off = i * unat (block_stride_bytes l)
      in case seg l of
           Contiguous \<Rightarrow> [(off, unat (segment_bytes l) * unat (segments l))]
         | Split kv \<Rightarrow> [(off, unat (segment_bytes l)), (off + unat kv, unat (segment_bytes l))])"

lemma region_sizeD:
  assumes "layout_wf l"
  shows "(unat (num_blocks l) - 1) * unat (block_stride_bytes l) \<le> unat (size_bytes l)"
  using assms by (auto simp: layout_wf_def layout_region_ok_def Let_def split: segment_layout.splits)

lemma block_offset_le:
  assumes "layout_wf l" and "i < num_blocks l"
  shows "unat i * unat (block_stride_bytes l) \<le> (unat (num_blocks l) - 1) * unat (block_stride_bytes l)"
  using assms(2) by (intro mult_le_mono1) (auto simp: word_less_nat_alt)

lemma copy_span_in_region:
  assumes wf: "layout_wf l" and i: "i < num_blocks l" and mem: "(off, len) \<in> set (copy_spans l (unat i))"
  shows "off + len \<le> unat (size_bytes l)" and "0 < len"
proof -
  have pos: "0 < unat (segment_bytes l)" "0 < unat (segments l)"
    using wf by (auto simp: layout_wf_def layout_shape_ok_def unat_gt_0)
  have region: "layout_region_ok l" using wf by (simp add: layout_wf_def)
  note le = block_offset_le[OF wf i]
  show "off + len \<le> unat (size_bytes l)"
  proof (cases "seg l")
    case Contiguous
    with mem region have
      "off = unat i * unat (block_stride_bytes l)"
      "(unat (num_blocks l) - 1) * unat (block_stride_bytes l) + len \<le> unat (size_bytes l)"
      by (simp_all add: copy_spans_def layout_region_ok_def Let_def)
    with le show ?thesis by linarith
  next
    case (Split kv)
    with mem region have
      "off \<le> unat i * unat (block_stride_bytes l) + unat kv"
      "unat kv + ((unat (num_blocks l) - 1) * unat (block_stride_bytes l) + len) \<le> unat (size_bytes l)"
      by (auto simp: copy_spans_def layout_region_ok_def Let_def)
    with le show ?thesis by linarith
  qed
  show "0 < len"
    using mem pos by (auto simp: copy_spans_def Let_def split: segment_layout.splits)
qed

lemma block_copies_valid:
  assumes "i < num_blocks l"
  shows "block_copies_of l i = Inr (case seg l of
       Contiguous \<Rightarrow> CopyContiguous \<lparr>addr = data_ptr l + i * block_stride_bytes l, bytes = block_bytes l\<rparr>
     | Split kv \<Rightarrow>
         CopySplit \<lparr>addr = data_ptr l + i * block_stride_bytes l, bytes = segment_bytes l\<rparr>
                   \<lparr>addr = data_ptr l + i * block_stride_bytes l + kv, bytes = segment_bytes l\<rparr>)"
  using assms unfolding not_le[symmetric] by (simp add: block_copies_of_def Let_def)

text \<open>The wrapping address computation never wraps for a valid block index.\<close>

lemma copies_spans:
  assumes wf: "layout_wf l" and i: "i < num_blocks l" and cs: "block_copies_of l i = Inr cs"
  shows "map (\<lambda>c. (unat (addr c), unat (bytes c))) (copies_list cs) =
         map (\<lambda>(off, len). (unat (data_ptr l) + off, len)) (copy_spans l (unat i))"
proof -
  have sum: "unat (data_ptr l) + unat (size_bytes l) < 2 ^ 64" and shape: "layout_shape_ok l"
    using wf by (auto simp: layout_wf_def layout_shape_ok_def)
  have le: "unat i * unat (block_stride_bytes l) \<le> unat (size_bytes l)"
    using block_offset_le[OF wf i] region_sizeD[OF wf] by (rule le_trans)
  then have base: "unat (data_ptr l + i * block_stride_bytes l) =
      unat (data_ptr l) + unat i * unat (block_stride_bytes l)"
    using sum unat_lt_pow[of "size_bytes l"] by (simp add: word_arith)
  show ?thesis
  proof (cases "seg l")
    case Contiguous
    then show ?thesis
      using cs i shape base
      by (auto simp: block_copies_valid copy_spans_def unat_block_bytes)
  next
    case (Split kv)
    have "unat i * unat (block_stride_bytes l) + unat kv + unat (segment_bytes l) \<le> unat (size_bytes l)"
      using copy_span_in_region(1)[OF wf i] Split by (auto simp: copy_spans_def Let_def)
    then have "unat (data_ptr l + i * block_stride_bytes l + kv) =
      unat (data_ptr l) + unat i * unat (block_stride_bytes l) + unat kv"
      using sum base by (subst unat_add_fits) (auto simp: base)
    then show ?thesis
      using cs i base Split by (auto simp: block_copies_valid copy_spans_def Let_def)
  qed
qed

lemma copies_nth:
  assumes "layout_wf l" "i < num_blocks l" "block_copies_of l i = Inr cs" "p < length (copies_list cs)"
  shows "p < length (copy_spans l (unat i)) \<and>
         copy_range (copies_list cs ! p) =
           (case copy_spans l (unat i) ! p of (off, len) \<Rightarrow>
              {unat (data_ptr l) + off..<unat (data_ptr l) + off + len})"
proof -
  note eq = copies_spans[OF assms(1-3)]
  have len: "length (copies_list cs) = length (copy_spans l (unat i))"
    using arg_cong[OF eq, of length] by simp
  moreover have "(unat (addr (copies_list cs ! p)), unat (bytes (copies_list cs ! p))) =
      (case copy_spans l (unat i) ! p of (off, len) \<Rightarrow> (unat (data_ptr l) + off, len))"
    using arg_cong[OF eq, of "\<lambda>xs. xs ! p"] assms(4) len by simp
  ultimately show ?thesis
    using assms(4) by (auto simp: copy_range_def split: prod.splits)
qed

text \<open>
  C28. On a well-formed layout every valid block index has copies, an index out of range
  is an error, and every copy is non-empty and lies inside the registered region
  \<open>[data_ptr, data_ptr + size_bytes)\<close>: the wrapping address arithmetic does not wrap.
\<close>

theorem block_copies_in_bounds:
  assumes "layout_wf l"
  shows "(num_blocks l \<le> i \<longrightarrow> block_copies_of l i = Inl (BlockOutOfRange i (num_blocks l))) \<and>
    (i < num_blocks l \<longrightarrow>
      (\<exists>cs. block_copies_of l i = Inr cs \<and>
        (\<forall>c \<in> set (copies_list cs).
           copy_range c \<noteq> {} \<and>
           copy_range c \<subseteq> {unat (data_ptr l)..<unat (data_ptr l) + unat (size_bytes l)})))"
proof (intro conjI impI)
  assume "num_blocks l \<le> i"
  then show "block_copies_of l i = Inl (BlockOutOfRange i (num_blocks l))"
    by (simp add: block_copies_of_def)
next
  assume i: "i < num_blocks l"
  then obtain cs where cs: "block_copies_of l i = Inr cs"
    by (simp add: block_copies_valid)
  have "copy_range c \<noteq> {} \<and>
      copy_range c \<subseteq> {unat (data_ptr l)..<unat (data_ptr l) + unat (size_bytes l)}"
    if mem: "c \<in> set (copies_list cs)" for c
  proof -
    obtain p where p: "p < length (copies_list cs)" "c = copies_list cs ! p"
      using mem by (metis in_set_conv_nth)
    obtain off len where ol: "copy_spans l (unat i) ! p = (off, len)" by fastforce
    note nth = copies_nth[OF assms i cs p(1)]
    then have "(off, len) \<in> set (copy_spans l (unat i))" using ol by (metis nth_mem)
    then show ?thesis
      using copy_span_in_region[OF assms i] nth ol p(2) by (auto simp: ivl_subset)
  qed
  with cs show "\<exists>cs. block_copies_of l i = Inr cs \<and>
        (\<forall>c \<in> set (copies_list cs).
           copy_range c \<noteq> {} \<and>
           copy_range c \<subseteq> {unat (data_ptr l)..<unat (data_ptr l) + unat (size_bytes l)})"
    by blast
qed

subsection \<open>Copies of different blocks never alias\<close>

lemma stride_apart:
  fixes i j st len :: nat
  assumes "i \<noteq> j" and "len \<le> st"
  shows "spans_apart (i * st + c, len) (j * st + c, len)"
proof -
  have step: "a * st + st \<le> b * st" if "a < b" for a b :: nat
    using mult_le_mono1[of "Suc a" b st] that by simp
  consider "i < j" | "j < i" using assms(1) by linarith
  then show ?thesis
  proof cases
    case 1
    with step[of i j] assms(2) have "i * st + len \<le> j * st" by linarith
    then show ?thesis by (simp add: spans_apart_def)
  next
    case 2
    with step[of j i] assms(2) have "j * st + len \<le> i * st" by linarith
    then show ?thesis by (simp add: spans_apart_def)
  qed
qed

lemma kv_apart:
  fixes i j st sb kv nb :: nat
  assumes kv: "sb \<le> kv" and st: "sb \<le> st" and nb: "i < nb"
    and gap: "\<And>d. d \<in> {1..nb - 1} \<Longrightarrow> sb \<le> nat_gap kv (d * st)"
  shows "spans_apart (i * st, sb) (j * st + kv, sb)"
proof (cases "i \<le> j")
  case True
  then have "i * st \<le> j * st" by (rule mult_le_mono1)
  with kv have "i * st + sb \<le> j * st + kv" by linarith
  then show ?thesis by (simp add: spans_apart_def)
next
  case False
  then obtain d where d: "i = j + d" "1 \<le> d" by (metis less_imp_add_positive not_le less_eq_Suc_le One_nat_def)
  then have "sb \<le> nat_gap kv (d * st)" using nb by (intro gap) auto
  with d show ?thesis by (auto simp: spans_apart_def nat_gap_def add_mult_distrib split: if_splits)
qed

lemma copy_spans_apart:
  assumes wf: "layout_wf l" and i: "i < unat (num_blocks l)" and j: "j < unat (num_blocks l)"
    and p: "p < length (copy_spans l i)" and q: "q < length (copy_spans l j)" and ne: "(i, p) \<noteq> (j, q)"
  shows "spans_apart (copy_spans l i ! p) (copy_spans l j ! q)"
proof (cases "seg l")
  case Contiguous
  then have "unat (segment_bytes l) * unat (segments l) \<le> unat (block_stride_bytes l)"
    using wf by (simp add: layout_wf_def layout_region_ok_def Let_def)
  with Contiguous p q ne show ?thesis
    using stride_apart[of i j _ "unat (block_stride_bytes l)" 0] by (simp add: copy_spans_def Let_def)
next
  case (Split kv)
  let ?sb = "unat (segment_bytes l)" and ?st = "unat (block_stride_bytes l)"
  have st: "?sb \<le> ?st" and kv: "?sb \<le> unat kv"
    and gap: "\<And>d. d \<in> {1..unat (num_blocks l) - 1} \<Longrightarrow> ?sb \<le> nat_gap (unat kv) (d * ?st)"
    using wf Split
    by (auto simp: layout_wf_def layout_region_ok_def layout_shape_ok_def split_disjoint_def Let_def
        word_less_nat_alt)
  have pq: "p < 2" "q < 2" using p q Split by (simp_all add: copy_spans_def Let_def)
  have kv_ij: "spans_apart (i * ?st, ?sb) (j * ?st + unat kv, ?sb)" by (rule kv_apart[OF kv st i gap])
  have kv_ji: "spans_apart (j * ?st, ?sb) (i * ?st + unat kv, ?sb)" by (rule kv_apart[OF kv st j gap])
  show ?thesis
    using pq ne Split kv_ij kv_ji st
      stride_apart[of i j ?sb ?st 0] stride_apart[of i j ?sb ?st "unat kv"]
    by (auto simp: copy_spans_def Let_def less_2_cases_iff spans_apart_sym)
qed

lemma apart_disjoint:
  "spans_apart (a, m) (b, n) \<Longrightarrow> {c + a..<c + a + m} \<inter> {c + b..<c + b + n} = {}" for c :: nat
  by (auto simp: spans_apart_def)

text \<open>
  C29. No two copies of a well-formed layout share a byte: not the copies of two
  different blocks, and not the K and V copies of one block.
\<close>

theorem block_copies_disjoint:
  assumes "layout_wf l" and "i < num_blocks l" and "j < num_blocks l"
    and "block_copies_of l i = Inr cs" and "block_copies_of l j = Inr ds"
    and "p < length (copies_list cs)" and "q < length (copies_list ds)" and "(i, p) \<noteq> (j, q)"
  shows "copy_range (copies_list cs ! p) \<inter> copy_range (copies_list ds ! q) = {}"
proof -
  note np = copies_nth[OF assms(1,2,4,6)] and nq = copies_nth[OF assms(1,3,5,7)]
  have "spans_apart (copy_spans l (unat i) ! p) (copy_spans l (unat j) ! q)"
    using assms np nq by (intro copy_spans_apart) (auto simp: word_less_nat_alt word_unat_eq_iff)
  then show ?thesis using np nq
    by (cases "copy_spans l (unat i) ! p"; cases "copy_spans l (unat j) ! q") (simp only: apart_disjoint prod.case)
qed

text \<open>
  The disjointness check rejects nothing it should accept: when validation fails with
  "kv stride overlaps blocks \<open>d\<close> apart", the V range of block 0 and the K range of block
  \<open>d\<close> really share a byte, and \<open>d\<close> is a block of the layout.
\<close>

theorem kv_overlap_rejection_exact:
  assumes "check_bounds l = Inl (KvStrideOverlapsBlocks kv d)" and "num_blocks l \<noteq> 0"
  shows "seg l = Split kv \<and> d \<noteq> 0 \<and> d < num_blocks l \<and>
    {unat kv..<unat kv + unat (segment_bytes l)} \<inter>
    {unat d * unat (block_stride_bytes l)..<
     unat d * unat (block_stride_bytes l) + unat (segment_bytes l)} \<noteq> {}"
proof -
  have "addressed_end l = Inl (KvStrideOverlapsBlocks kv d)"
    using assms(1) by (auto simp: check_bounds_def res_simps split: if_splits)
  then obtain kv' where seg: "seg l = Split kv'"
    and chk: "check_split_segments_disjoint l kv' = Inl (KvStrideOverlapsBlocks kv d)"
    by (auto simp: addressed_end_def last_segment_end_def res_simps split: segment_layout.splits if_splits)
  let ?st = "unat (block_stride_bytes l)" and ?sb = "unat (segment_bytes l)"
  have d: "kv = kv'" "d \<noteq> 0" "d \<le> num_blocks l - 1" "nat_gap (unat kv) (unat d * ?st) < ?sb"
    using check_split_distances_Inl[OF chk[unfolded check_split_segments_disjoint_def Let_def]] by auto
  have "unat d < unat (num_blocks l)"
    using d(3) assms(2) by (simp add: word_le_nat_alt unat_minus_one unat_gt_0[symmetric])
  moreover have "max (unat kv) (unat d * ?st) \<in>
      {unat kv..<unat kv + ?sb} \<inter> {unat d * ?st..<unat d * ?st + ?sb}"
    using d(4) by (auto simp: nat_gap_def split: if_splits)
  ultimately show ?thesis using seg d(1,2) by (auto simp: word_less_nat_alt)
qed

text \<open>
  SSD padding rounds the host-side segment size up to the alignment by less than one
  alignment unit, and leaves every device address of the layout as it was.
\<close>

theorem ssd_padding_rounds_up:
  assumes "alignment \<noteq> 0" and "unat (segment_bytes l) + unat alignment < 2 ^ 64"
  shows "let l' = with_ssd_padding l alignment; n = unat (padded_segment_bytes l')
    in unat alignment dvd n \<and> unat (segment_bytes l) \<le> n \<and>
       n < unat (segment_bytes l) + unat alignment \<and>
       (\<forall>i. block_copies_of l' i = block_copies_of l i)"
proof -
  let ?a = "unat alignment" and ?s = "unat (segment_bytes l)"
  have a: "0 < ?a" using assms(1) by (simp add: unat_gt_0)
  have n: "unat (next_multiple_of (segment_bytes l) alignment) = (?s + (?a - 1)) div ?a * ?a"
    using assms by (intro unat_next_multiple_of) auto
  let ?n = "unat (next_multiple_of (segment_bytes l) alignment)"
  have "?n + (?s + (?a - 1)) mod ?a = ?s + (?a - 1)" unfolding n by simp
  moreover have "(?s + (?a - 1)) mod ?a < ?a" using a by (rule mod_less_divisor)
  ultimately have "?s \<le> ?n" "?n < ?s + ?a" using a by linarith+
  moreover have "?a dvd ?n" unfolding n by simp
  moreover have "block_copies_of (with_ssd_padding l alignment) i = block_copies_of l i" for i
    by (simp add: block_copies_of_def with_ssd_padding_def block_bytes_def Let_def split: segment_layout.split)
  ultimately show ?thesis by (simp add: with_ssd_padding_def Let_def)
qed

section \<open>Witnesses\<close>

text \<open>A hundred blocks of two 1024-byte segments, V 100 KiB after K.\<close>

definition split_example :: kv_layout where
  "split_example =
     \<lparr>data_ptr = 4096, size_bytes = 204800, num_blocks = 100, block_stride_bytes = 1024,
      segment_bytes = 1024, segments = 2, padded_segment_bytes = 1024, seg = Split 102400\<rparr>"

lemmas layout_eval = layout_new_def checked_add_def checked_mul_def choose_segment_layout_def
  check_bounds_def addressed_end_def last_segment_end_def check_split_segments_disjoint_def
  saturating_add_def abs_diff_def with_block_stride_def block_bytes_def

lemma layout_new_example: "layout_new 4096 204800 100 1024 102400 2 = Inr split_example"
  by (simp add: layout_eval split_example_def)

lemma split_example_shape: "layout_shape_ok split_example \<and> check_bounds split_example = Inr ()"
  by (rule layout_new_shape[OF layout_new_example])

lemma split_example_wf: "layout_wf split_example"
  using split_example_shape check_bounds_sound by blast

theorem layout_construction_wf_witness:
  "layout_new 4096 204800 100 1024 102400 2 = Inr split_example \<and> layout_wf split_example \<and>
   with_block_stride split_example 1024 = Inr split_example"
  using layout_construction_wf[of 4096 204800 100 1024 102400 2 split_example split_example 1024 split_example]
    layout_new_example
  by (simp add: layout_eval split_example_def)

theorem block_copies_in_bounds_witness:
  "\<exists>cs. block_copies_of split_example 99 = Inr cs \<and>
     (\<forall>c \<in> set (copies_list cs). copy_range c \<noteq> {} \<and> copy_range c \<subseteq> {4096..<4096 + 204800})"
  using block_copies_in_bounds[OF split_example_wf, of 99] by (simp add: split_example_def)

theorem block_copies_disjoint_witness:
  "copy_range (copies_list (CopySplit \<lparr>addr = 4096, bytes = 1024\<rparr> \<lparr>addr = 106496, bytes = 1024\<rparr>) ! 1) \<inter>
   copy_range (copies_list (CopySplit \<lparr>addr = 105472, bytes = 1024\<rparr> \<lparr>addr = 207872, bytes = 1024\<rparr>) ! 0) = {}"
  by (rule block_copies_disjoint[OF split_example_wf, of 0 99])
    (simp_all add: split_example_def block_copies_of_def)

theorem kv_overlap_rejection_exact_witness:
  "check_bounds (split_example\<lparr>seg := Split 2000\<rparr>) = Inl (KvStrideOverlapsBlocks 2000 1) \<and>
   {2000..<3024::nat} \<inter> {1024..<2048} \<noteq> {}"
proof -
  let ?l = "split_example\<lparr>seg := Split 2000\<rparr>"
  have chk: "check_bounds ?l = Inl (KvStrideOverlapsBlocks 2000 1)"
    by (simp add: layout_eval split_example_def)
  have "num_blocks ?l \<noteq> 0" by (simp add: split_example_def)
  from kv_overlap_rejection_exact[OF chk this] chk show ?thesis by (simp add: split_example_def)
qed

theorem ssd_padding_rounds_up_witness:
  "unat (padded_segment_bytes (with_ssd_padding (split_example\<lparr>segment_bytes := 1000\<rparr>) 512)) < 1512"
  using ssd_padding_rounds_up[of 512 "split_example\<lparr>segment_bytes := 1000\<rparr>"]
  by (simp add: split_example_def Let_def)

end
