(* ===== verification/Block_Model.thy ===== *)
theory Block_Model
  imports Pega_Prelude
begin

text \<open>
  Blocks of the storage engine (\<open>pegaflow-core/src/block.rs\<close>), their keys
  (\<open>pegaflow-common/src/block.rs\<close>), the part of a pinned allocation a block needs
  (\<open>PinnedAllocation::mapped_ptr_at\<close> and \<open>mapped_ptr_for_host_range\<close> in
  \<open>pinned_pool.rs\<close>) and the per-slot metadata of \<open>seal_offload.rs\<close>.
  An \<open>expect\<close>, an \<open>assert\<close> or an out-of-range index is the \<open>Inl\<close> of a
  \<open>block_panic\<close>. Debug-only assertions are not part of the model. Slot indices and slot
  counts are naturals: the code only compares them and decrements them under
  \<open>checked_sub\<close>.
\<close>

section \<open>Keys\<close>

type_synonym block_hash = "u8 list"

record block_key =
  namespace :: string
  hash :: block_hash

definition be_bytes32 :: "u32 \<Rightarrow> u8 list" where
  "be_bytes32 w = map (\<lambda>i. ucast (drop_bit i w)) [24, 16, 8, 0]"

definition group_hash :: "block_hash \<Rightarrow> u32 \<Rightarrow> block_hash" where
  "group_hash h g = (if g = 0 then h else h @ be_bytes32 g)"

type_synonym numa_node = u32

definition numa_unknown :: numa_node where
  "numa_unknown = - 1"

definition is_unknown :: "numa_node \<Rightarrow> bool" where
  "is_unknown n \<longleftrightarrow> n = - 1"

section \<open>Segments of pinned memory\<close>

record pinned_allocation =
  alloc_id :: usize \<comment> \<open>identity of the \<open>Arc\<close>\<close>
  alloc_ptr :: u64
  alloc_device_ptr :: u64
  alloc_size_bytes :: usize

record mapped_ptr =
  host :: u64
  device :: u64

datatype block_panic =
    HostBeforeBase
  | RangeExceedsAllocation
  | NullSegmentPointer
  | SlotOutOfRange
  | RemainingUnderflow
  | UnfilledSlot
  | UnwrapNone

definition mapped_ptr_at :: "pinned_allocation \<Rightarrow> usize \<Rightarrow> usize \<Rightarrow> block_panic + mapped_ptr" where
  "mapped_ptr_at a off sz =
     (case checked_add off sz of
        Some e \<Rightarrow>
          if e \<le> alloc_size_bytes a
          then Inr \<lparr>host = alloc_ptr a + off, device = alloc_device_ptr a + off\<rparr>
          else Inl RangeExceedsAllocation
      | None \<Rightarrow> Inl RangeExceedsAllocation)"

definition mapped_ptr_for_host_range ::
  "pinned_allocation \<Rightarrow> u64 \<Rightarrow> usize \<Rightarrow> block_panic + mapped_ptr" where
  "mapped_ptr_for_host_range a host_ptr sz =
     bind_res (ok_or (checked_sub host_ptr (alloc_ptr a)) HostBeforeBase)
       (\<lambda>off. mapped_ptr_at a off sz)"

record segment =
  seg_ptr :: mapped_ptr
  seg_size :: usize
  seg_allocation :: pinned_allocation

definition segment_new :: "u64 \<Rightarrow> usize \<Rightarrow> pinned_allocation \<Rightarrow> block_panic + segment" where
  "segment_new p sz a =
     bind_res (mapped_ptr_for_host_range a p sz)
       (\<lambda>m. Inr \<lparr>seg_ptr = m, seg_size = sz, seg_allocation = a\<rparr>)"

section \<open>Raw blocks\<close>

datatype block_segments =
    One segment
  | Two segment segment
  | Many "segment list"

fun from_vec :: "segment list \<Rightarrow> block_segments" where
  "from_vec [s] = One s"
| "from_vec [s, t] = Two s t"
| "from_vec ss = Many ss"

fun as_slice :: "block_segments \<Rightarrow> segment list" where
  "as_slice (One s) = [s]"
| "as_slice (Two s t) = [s, t]"
| "as_slice (Many ss) = ss"

record raw_block =
  raw_segments :: block_segments
  raw_total_size :: usize

definition raw_block_new :: "segment list \<Rightarrow> raw_block" where
  "raw_block_new ss = \<lparr>raw_segments = from_vec ss, raw_total_size = sum_list (map seg_size ss)\<rparr>"

definition single_segment :: "segment \<Rightarrow> raw_block" where
  "single_segment s = \<lparr>raw_segments = One s, raw_total_size = seg_size s\<rparr>"

definition two_segments :: "segment \<Rightarrow> segment \<Rightarrow> raw_block" where
  "two_segments k v = \<lparr>raw_segments = Two k v, raw_total_size = seg_size k + seg_size v\<rparr>"

definition get_opt :: "'a list \<Rightarrow> nat \<Rightarrow> 'a option" where
  "get_opt xs i = (if i < length xs then Some (xs ! i) else None)"

definition num_segments :: "raw_block \<Rightarrow> nat" where
  "num_segments b = length (as_slice (raw_segments b))"

definition segment_ptr :: "raw_block \<Rightarrow> nat \<Rightarrow> u64 option" where
  "segment_ptr b i = map_option (\<lambda>s. host (seg_ptr s)) (get_opt (as_slice (raw_segments b)) i)"

definition segment_mapped_ptr :: "raw_block \<Rightarrow> nat \<Rightarrow> mapped_ptr option" where
  "segment_mapped_ptr b i = map_option seg_ptr (get_opt (as_slice (raw_segments b)) i)"

definition segment_allocation_id :: "raw_block \<Rightarrow> nat \<Rightarrow> usize option" where
  "segment_allocation_id b i =
     map_option (\<lambda>s. alloc_id (seg_allocation s)) (get_opt (as_slice (raw_segments b)) i)"

definition segment_size :: "raw_block \<Rightarrow> nat \<Rightarrow> usize option" where
  "segment_size b i = map_option seg_size (get_opt (as_slice (raw_segments b)) i)"

definition segment_iovecs :: "raw_block \<Rightarrow> (u64 \<times> usize) list" where
  "segment_iovecs b = map (\<lambda>s. (host (seg_ptr s), seg_size s)) (as_slice (raw_segments b))"

definition raw_footprint :: "raw_block \<Rightarrow> u64" where
  "raw_footprint b = raw_total_size b"

text \<open>\<open>LayerBlock\<close>: K is segment 0 (an \<open>unwrap\<close>), V is segment 1 if there is one.\<close>

definition layer_k :: "raw_block \<Rightarrow> block_panic + (u64 \<times> usize)" where
  "layer_k b =
     bind_res (ok_or (segment_ptr b 0) UnwrapNone) (\<lambda>p.
       bind_res (ok_or (segment_size b 0) UnwrapNone) (\<lambda>sz. Inr (p, sz)))"

definition layer_v :: "raw_block \<Rightarrow> u64 option \<times> usize option" where
  "layer_v b = (segment_ptr b 1, segment_size b 1)"

section \<open>Sealed blocks\<close>

record sealed_block =
  sealed_slots :: "raw_block list"
  sealed_footprint :: u64
  sealed_numas :: "numa_node list"

definition get_slot :: "sealed_block \<Rightarrow> nat \<Rightarrow> raw_block option" where
  "get_slot b i = get_opt (sealed_slots b) i"

definition sum_footprints :: "raw_block list \<Rightarrow> u64" where
  "sum_footprints bs = foldl (\<lambda>acc b. saturating_add acc (raw_footprint b)) 0 bs"

definition from_slots :: "(raw_block \<times> numa_node) list \<Rightarrow> sealed_block" where
  "from_slots xs =
     \<lparr>sealed_slots = map fst xs, sealed_footprint = sum_footprints (map fst xs),
      sealed_numas = map snd xs\<rparr>"

definition from_ordered_slot_inserts ::
  "(nat \<times> raw_block) list \<Rightarrow> nat \<Rightarrow> numa_node \<Rightarrow> (nat \<times> raw_block) list + sealed_block" where
  "from_ordered_slot_inserts xs n numa =
     (if length xs \<noteq> n \<or> map fst xs \<noteq> [0..<length xs] then Inl xs
      else Inr \<lparr>sealed_slots = map snd xs, sealed_footprint = sum_footprints (map snd xs),
                sealed_numas = replicate n numa\<rparr>)"

section \<open>Inflight blocks\<close>

datatype slot_insert_result =
    Inserted bool u64 \<comment> \<open>\<open>completed\<close>, \<open>footprint_added\<close>\<close>
  | Duplicate

record inflight_block =
  slots :: "raw_block option list"
  remaining :: nat
  total_slots :: nat
  footprint :: u64
  created_at :: nat
  slot_numas :: "numa_node list"

definition inflight_new :: "nat \<Rightarrow> nat \<Rightarrow> inflight_block" where
  "inflight_new n now =
     \<lparr>slots = replicate n None, remaining = n, total_slots = n, footprint = 0,
      created_at = now, slot_numas = replicate n numa_unknown\<rparr>"

definition age :: "nat \<Rightarrow> inflight_block \<Rightarrow> nat" where
  "age now b = now - created_at b"

definition filled_count :: "inflight_block \<Rightarrow> nat" where
  "filled_count b = total_slots b - remaining b"

definition insert_slot ::
  "inflight_block \<Rightarrow> nat \<Rightarrow> raw_block \<Rightarrow> numa_node \<Rightarrow> block_panic + (inflight_block \<times> slot_insert_result)"
where
  "insert_slot b i r numa =
     (if length (slots b) \<le> i then Inl SlotOutOfRange
      else if slots b ! i \<noteq> None then Inr (b, Duplicate)
      else if length (slot_numas b) \<le> i then Inl SlotOutOfRange
      else if remaining b = 0 then Inl RemainingUnderflow
      else let b' = b\<lparr>footprint := footprint b + raw_footprint r,
                      slots := (slots b)[i := Some r],
                      slot_numas := (slot_numas b)[i := numa],
                      remaining := remaining b - 1\<rparr>
           in Inr (b', Inserted (remaining b' = 0) (raw_footprint r)))"

fun expect_all :: "raw_block option list \<Rightarrow> block_panic + raw_block list" where
  "expect_all [] = Inr []"
| "expect_all (None # xs) = Inl UnfilledSlot"
| "expect_all (Some r # xs) = bind_res (expect_all xs) (\<lambda>rs. Inr (r # rs))"

definition seal :: "inflight_block \<Rightarrow> block_panic + sealed_block" where
  "seal b =
     bind_res (expect_all (slots b)) (\<lambda>rs.
       Inr \<lparr>sealed_slots = rs, sealed_footprint = footprint b, sealed_numas = slot_numas b\<rparr>)"

section \<open>Slot metadata\<close>

record slot_meta =
  segment_sizes :: "u64 list"
  meta_total_size :: u64
  meta_numa :: numa_node

definition slot_meta_new :: "u64 list \<Rightarrow> numa_node \<Rightarrow> slot_meta" where
  "slot_meta_new sizes numa =
     \<lparr>segment_sizes = sizes, meta_total_size = sum_list sizes, meta_numa = numa\<rparr>"

text \<open>The loop of \<open>reconstruct_raw_block\<close>: one segment per size, one after the other.\<close>

fun reconstruct_segments ::
  "pinned_allocation \<Rightarrow> usize \<Rightarrow> u64 list \<Rightarrow> block_panic + segment list" where
  "reconstruct_segments a off [] = Inr []"
| "reconstruct_segments a off (sz # szs) =
     (if alloc_ptr a + off = 0 then Inl NullSegmentPointer
      else bind_res (segment_new (alloc_ptr a + off) sz a) (\<lambda>s.
        bind_res (reconstruct_segments a (off + sz) szs) (\<lambda>ss. Inr (s # ss))))"

definition reconstruct_raw_block ::
  "slot_meta \<Rightarrow> pinned_allocation \<Rightarrow> usize \<Rightarrow> block_panic + raw_block" where
  "reconstruct_raw_block m a base_offset =
     bind_res (reconstruct_segments a base_offset (segment_sizes m)) (\<lambda>ss. Inr (raw_block_new ss))"

definition write_iovecs :: "raw_block \<Rightarrow> (u64 \<times> usize) list" where
  "write_iovecs b = segment_iovecs b"

fun read_iovecs_from :: "u64 \<Rightarrow> usize \<Rightarrow> u64 list \<Rightarrow> (u64 \<times> usize) list" where
  "read_iovecs_from base off [] = []"
| "read_iovecs_from base off (sz # szs) = (base + off, sz) # read_iovecs_from base (off + sz) szs"

definition read_iovecs :: "slot_meta \<Rightarrow> u64 \<Rightarrow> usize \<Rightarrow> (u64 \<times> usize) list" where
  "read_iovecs m base off = read_iovecs_from base off (segment_sizes m)"

section \<open>Lemmas\<close>

lemma as_slice_from_vec [simp]: "as_slice (from_vec ss) = ss"
  by (cases ss rule: from_vec.cases) auto

lemma get_opt_nth [simp]: "i < length xs \<Longrightarrow> get_opt xs i = Some (xs ! i)"
  by (simp add: get_opt_def)

lemma get_opt_None_iff [simp]: "get_opt xs i = None \<longleftrightarrow> length xs \<le> i"
  by (simp add: get_opt_def not_less)

text \<open>
  Hashes encoded for two hybrid-cache groups never collide when the raw hashes have
  the same length: the pair of hash and group id can be read back from the encoding.
\<close>

theorem group_hash_injective:
  assumes "length h = length h'" and "group_hash h g = group_hash h' g'"
  shows "h = h' \<and> g = g'"
proof -
  have len: "length (be_bytes32 w) = 4" for w by (simp add: be_bytes32_def)
  have bytes: "w = w'" if "be_bytes32 w = be_bytes32 w'" for w w' :: u32
  proof (rule bit_word_eqI)
    fix n assume n: "n < LENGTH(32)"
    have eq: "ucast (drop_bit i w) = (ucast (drop_bit i w') :: u8)" if "i \<in> {24, 16, 8, 0}" for i
      using \<open>be_bytes32 w = be_bytes32 w'\<close> that by (auto simp: be_bytes32_def)
    define i where "i = 8 * (n div 8)"
    have i: "i \<in> {24, 16, 8, 0}" "n - i < 8" "i \<le> n" using n by (auto simp: i_def)
    have "bit (ucast (drop_bit i w) :: u8) (n - i) = bit (ucast (drop_bit i w') :: u8) (n - i)"
      using eq[OF i(1)] by simp
    then show "bit w n = bit w' n" using i n by (simp add: bit_simps)
  qed
  show ?thesis using assms bytes len
    by (auto simp: group_hash_def split: if_splits dest: arg_cong[where f = length])
qed

subsection \<open>Inflight blocks\<close>

definition slot_footprint :: "raw_block option \<Rightarrow> u64" where
  "slot_footprint x = (case x of None \<Rightarrow> 0 | Some r \<Rightarrow> raw_footprint r)"

definition inflight_wf :: "inflight_block \<Rightarrow> bool" where
  "inflight_wf b \<longleftrightarrow>
     length (slots b) = total_slots b \<and> length (slot_numas b) = total_slots b \<and>
     remaining b = length (filter (\<lambda>x. x = None) (slots b)) \<and>
     footprint b = sum_list (map slot_footprint (slots b))"

lemma filter_None_update:
  "i < length xs \<Longrightarrow> xs ! i = None \<Longrightarrow>
   length (filter (\<lambda>x. x = None) (xs[i := Some r])) = length (filter (\<lambda>x. x = None) xs) - 1 \<and>
   0 < length (filter (\<lambda>x. x = None) xs)"
proof (induction xs arbitrary: i)
  case (Cons x xs)
  then show ?case by (cases i) (auto simp: Suc_diff_le)
qed simp

lemma sum_footprint_update:
  "i < length xs \<Longrightarrow> xs ! i = None \<Longrightarrow>
   sum_list (map slot_footprint (xs[i := Some r])) = sum_list (map slot_footprint xs) + raw_footprint r"
proof (induction xs arbitrary: i)
  case (Cons x xs)
  then show ?case by (cases i) (auto simp: slot_footprint_def)
qed simp

lemma inflight_wf_new [simp]: "inflight_wf (inflight_new n now)"
  by (simp add: inflight_wf_def inflight_new_def slot_footprint_def sum_list_replicate)

lemma insert_slot_cases:
  assumes "inflight_wf b" and "i < total_slots b"
  obtains (Dup) r' where "slots b ! i = Some r'" "insert_slot b i r numa = Inr (b, Duplicate)"
  | (New) b' where "slots b ! i = None"
      "insert_slot b i r numa = Inr (b', Inserted (remaining b' = 0) (raw_footprint r))"
      "slots b' = (slots b)[i := Some r]" "slot_numas b' = (slot_numas b)[i := numa]"
      "remaining b' = remaining b - 1" "0 < remaining b" "total_slots b' = total_slots b"
      "footprint b' = footprint b + raw_footprint r" "created_at b' = created_at b"
proof (cases "slots b ! i")
  case None
  with assms have "0 < remaining b" using filter_None_update[of i "slots b"] by (simp add: inflight_wf_def)
  with None assms show ?thesis
    by (intro New[of "b\<lparr>footprint := footprint b + raw_footprint r, slots := (slots b)[i := Some r],
        slot_numas := (slot_numas b)[i := numa], remaining := remaining b - 1\<rparr>"])
      (simp_all add: insert_slot_def inflight_wf_def Let_def)
next
  case (Some r')
  with assms show ?thesis by (intro Dup) (auto simp: insert_slot_def inflight_wf_def)
qed

lemma insert_slot_wf:
  assumes "inflight_wf b" and "i < total_slots b" and "insert_slot b i r numa = Inr (b', res)"
  shows "inflight_wf b'"
  using assms(1,2)
proof (cases rule: insert_slot_cases[where r = r and numa = numa])
  case (Dup r')
  with assms show ?thesis by simp
next
  case (New c)
  with assms have "b' = c" by simp
  with New assms show ?thesis
    using filter_None_update[of i "slots b" r] sum_footprint_update[of i "slots b" r]
    by (simp add: inflight_wf_def)
qed

lemma expect_all_Inr: "expect_all xs = Inr rs \<longleftrightarrow> xs = map Some rs"
proof (induction xs arbitrary: rs rule: expect_all.induct)
  case (3 r xs)
  then show ?case by (cases rs; cases "expect_all xs") (auto simp: res_simps)
qed auto

lemma seal_Inr_iff:
  assumes "inflight_wf b"
  shows "(\<exists>s. seal b = Inr s) \<longleftrightarrow> remaining b = 0"
proof -
  have "remaining b = 0 \<longleftrightarrow> (\<forall>x \<in> set (slots b). x \<noteq> None)"
    using assms by (auto simp: inflight_wf_def filter_empty_conv)
  also have "\<dots> \<longleftrightarrow> (\<exists>rs. slots b = map Some rs)"
    by (auto intro!: exI[of _ "map the (slots b)"] simp: map_idI)
  also have "\<dots> \<longleftrightarrow> (\<exists>s. seal b = Inr s)"
    by (cases "expect_all (slots b)") (auto simp: seal_def res_simps expect_all_Inr[symmetric])
  finally show ?thesis by simp
qed

text \<open>
  Inserting a slot into a well-formed inflight block never panics. A filled slot is
  left as it is; a fresh one keeps the block well-formed, and \<open>completed\<close> is reported
  exactly when the block can now be sealed.
\<close>

theorem insert_slot_contract:
  assumes "inflight_wf b" and "i < total_slots b"
  shows "case insert_slot b i r numa of
      Inl e \<Rightarrow> False
    | Inr (b', Duplicate) \<Rightarrow> b' = b \<and> slots b ! i \<noteq> None
    | Inr (b', Inserted completed added) \<Rightarrow>
        slots b ! i = None \<and> slots b' = (slots b)[i := Some r] \<and> inflight_wf b' \<and>
        added = raw_footprint r \<and> (completed \<longleftrightarrow> (\<exists>s. seal b' = Inr s))"
  using assms
proof (cases rule: insert_slot_cases[where r = r and numa = numa])
  case (Dup r')
  then show ?thesis by simp
next
  case (New c)
  have "inflight_wf c" using insert_slot_wf[OF assms New(2)] .
  then show ?thesis using New seal_Inr_iff[of c] by simp
qed

subsection \<open>Rebuilding a block from its metadata\<close>

definition allocation_wf :: "pinned_allocation \<Rightarrow> bool" where
  "allocation_wf a \<longleftrightarrow>
     alloc_ptr a \<noteq> 0 \<and> unat (alloc_ptr a) + unat (alloc_size_bytes a) < 2 ^ 64"

definition iovec_bytes :: "u64 \<times> usize \<Rightarrow> nat list" where
  "iovec_bytes v = [unat (fst v)..<unat (fst v) + unat (snd v)]"

lemma segment_new_in_range:
  assumes "allocation_wf a" and "unat off + unat sz \<le> unat (alloc_size_bytes a)"
  shows "segment_new (alloc_ptr a + off) sz a =
    Inr \<lparr>seg_ptr = \<lparr>host = alloc_ptr a + off, device = alloc_device_ptr a + off\<rparr>,
         seg_size = sz, seg_allocation = a\<rparr>"
proof -
  have "unat (alloc_ptr a + off) = unat (alloc_ptr a) + unat off"
    using assms by (intro unat_add_fits) (simp add: allocation_wf_def)
  then have "checked_sub (alloc_ptr a + off) (alloc_ptr a) = Some off"
    by (simp add: checked_sub_def word_le_nat_alt)
  moreover have "unat off + unat sz < 2 ^ 64"
    using assms unat_lt_pow[of "alloc_size_bytes a"] by simp
  then have "checked_add off sz = Some (off + sz)" "unat (off + sz) = unat off + unat sz"
    by (simp_all add: checked_add_def unat_add_fits)
  ultimately show ?thesis using assms(2)
    by (simp add: segment_new_def mapped_ptr_for_host_range_def mapped_ptr_at_def res_simps
        word_le_nat_alt)
qed

lemma reconstruct_segments_ok:
  assumes "allocation_wf a" and "unat off + sum_list (map unat szs) \<le> unat (alloc_size_bytes a)"
  shows "\<exists>ss. reconstruct_segments a off szs = Inr ss \<and> map seg_size ss = szs \<and>
    map (\<lambda>s. (host (seg_ptr s), seg_size s)) ss = read_iovecs_from (alloc_ptr a) off szs"
  using assms(2)
proof (induction szs arbitrary: off)
  case (Cons sz szs)
  have fits: "unat off + unat sz < 2 ^ 64" "unat (alloc_ptr a) + unat off < 2 ^ 64"
    using Cons.prems assms(1) unat_lt_pow[of "alloc_size_bytes a"] by (auto simp: allocation_wf_def)
  have "unat (alloc_ptr a + off) \<noteq> 0"
    using fits(2) assms(1) by (simp add: unat_add_fits allocation_wf_def unat_eq_zero)
  then have "alloc_ptr a + off \<noteq> 0" by auto
  moreover have "unat (off + sz) = unat off + unat sz" using fits(1) by (simp add: unat_add_fits)
  ultimately show ?case
    using Cons.IH[of "off + sz"] Cons.prems segment_new_in_range[OF assms(1), of off sz]
    by (auto simp: res_simps)
qed simp

lemma read_iovecs_tile:
  assumes "unat base + unat off + sum_list (map unat szs) < 2 ^ 64"
  shows "concat (map iovec_bytes (read_iovecs_from base off szs)) =
    [unat base + unat off..<unat base + unat off + sum_list (map unat szs)]"
  using assms
proof (induction szs arbitrary: off)
  case (Cons sz szs)
  have "unat (off + sz) = unat off + unat sz" "unat (base + off) = unat base + unat off"
    using Cons.prems by (auto intro: unat_add_fits)
  then show ?case using Cons.IH[of "off + sz"] Cons.prems
      upt_add_eq_append[of "unat base + unat off" "unat base + unat off + unat sz" "sum_list (map unat szs)"]
    by (simp add: iovec_bytes_def add.assoc)
qed simp

lemma reconstruct_ok:
  assumes "allocation_wf a" and "m = slot_meta_new sizes numa"
    and "unat off + sum_list (map unat sizes) \<le> unat (alloc_size_bytes a)"
  shows "\<exists>rb. reconstruct_raw_block m a off = Inr rb \<and>
    segment_iovecs rb = read_iovecs m (alloc_ptr a) off \<and>
    slot_meta_new (map seg_size (as_slice (raw_segments rb))) numa = m \<and>
    raw_footprint rb = meta_total_size m \<and>
    concat (map iovec_bytes (segment_iovecs rb)) =
      [unat (alloc_ptr a) + unat off..<unat (alloc_ptr a) + unat off + sum_list (map unat sizes)]"
proof -
  obtain ss where ss: "reconstruct_segments a off sizes = Inr ss" "map seg_size ss = sizes"
      "map (\<lambda>s. (host (seg_ptr s), seg_size s)) ss = read_iovecs_from (alloc_ptr a) off sizes"
    using reconstruct_segments_ok[OF assms(1,3)] by blast
  moreover have "concat (map iovec_bytes (read_iovecs_from (alloc_ptr a) off sizes)) =
      [unat (alloc_ptr a) + unat off..<unat (alloc_ptr a) + unat off + sum_list (map unat sizes)]"
    using assms by (intro read_iovecs_tile) (auto simp: allocation_wf_def)
  ultimately show ?thesis using assms(2)
    by (simp add: reconstruct_raw_block_def res_simps slot_meta_new_def raw_block_new_def
        segment_iovecs_def read_iovecs_def raw_footprint_def del: map_map)
qed

text \<open>
  A slot that fits its allocation is rebuilt without panic; the rebuilt block has the
  segment sizes and the footprint its metadata recorded, its segments are exactly the ranges
  the vectored read fills, and these ranges tile the slot's bytes in order, with no gap and
  no overlap.
\<close>

theorem reconstruct_matches_read:
  assumes "allocation_wf a" and "m = slot_meta_new sizes numa"
    and "unat off + sum_list (map unat sizes) \<le> unat (alloc_size_bytes a)"
  shows "\<exists>rb. reconstruct_raw_block m a off = Inr rb \<and>
    segment_iovecs rb = read_iovecs m (alloc_ptr a) off \<and>
    slot_meta_new (map seg_size (as_slice (raw_segments rb))) numa = m \<and>
    raw_footprint rb = meta_total_size m \<and>
    concat (map iovec_bytes (segment_iovecs rb)) =
      [unat (alloc_ptr a) + unat off..<unat (alloc_ptr a) + unat off + sum_list (map unat sizes)]"
  using reconstruct_ok[OF assms] .

section \<open>Witnesses\<close>

definition example_allocation :: pinned_allocation where
  "example_allocation =
     \<lparr>alloc_id = 1, alloc_ptr = 4096, alloc_device_ptr = 8192, alloc_size_bytes = 1024\<rparr>"

definition example_raw :: "u64 \<Rightarrow> raw_block" where
  "example_raw sz =
     raw_block_new [\<lparr>seg_ptr = \<lparr>host = 4096, device = 8192\<rparr>, seg_size = sz,
                     seg_allocation = example_allocation\<rparr>]"

theorem group_hash_injective_witness:
  "length [1 :: u8, 2] = length [1 :: u8, 2] \<and> group_hash [1, 2] 7 = group_hash [1, 2] 7 \<and> (7 :: u32) = 7"
  using group_hash_injective[of "[1, 2]" "[1, 2]" 7 7] by simp

theorem insert_slot_contract_witness:
  "case insert_slot (inflight_new 2 0) 1 (example_raw 512) 0 of
      Inl e \<Rightarrow> False
    | Inr (b', Duplicate) \<Rightarrow> False
    | Inr (b', Inserted completed added) \<Rightarrow> inflight_wf b' \<and> added = 512 \<and> \<not> completed"
proof -
  have "inflight_wf (inflight_new 2 0)" "1 < total_slots (inflight_new 2 0)"
    by (rule inflight_wf_new) (simp add: inflight_new_def)
  from insert_slot_contract[OF this, of "example_raw 512" 0]
  show ?thesis
    by (auto simp: insert_slot_def inflight_new_def example_raw_def raw_block_new_def
        raw_footprint_def Let_def)
qed

theorem reconstruct_matches_read_witness:
  "\<exists>rb. reconstruct_raw_block (slot_meta_new [256, 256] 0) example_allocation 512 = Inr rb \<and>
     segment_iovecs rb = [(4608, 256), (4864, 256)]"
proof -
  have "allocation_wf example_allocation"
    and "unat (512 :: usize) + sum_list (map unat [256 :: u64, 256]) \<le> unat (alloc_size_bytes example_allocation)"
    by (simp_all add: allocation_wf_def example_allocation_def)
  from reconstruct_matches_read[OF this(1) refl this(2), of 0] show ?thesis
    by (auto simp: example_allocation_def read_iovecs_def slot_meta_new_def)
qed

end
