(* ===== verification/Ssd_Ring.thy ===== *)
theory Ssd_Ring
  imports Block_Model
begin

text \<open>
  The SSD ring buffer (\<open>pegaflow-core/src/backing/ssd_cache.rs\<close>, \<open>SsdRingBuffer\<close>) and
  the index operations of \<open>SsdBackingStore\<close> (\<open>backing/ssd.rs\<close>) on it. Logical offsets
  only grow; a byte of a shard file is the logical offset modulo the shard's capacity.
  Offsets are naturals, and an addition to \<open>head\<close> that would not fit in 64 bits stops the
  model with \<open>OffsetOverflow\<close>: the code adds unchecked there, so a debug build panics and
  a release build wraps. The totality theorem of batch preparation shows how far away that is.
\<close>

section \<open>State\<close>

record index_entry =
  shard_id :: nat
  begin_off :: nat
  entry_len :: nat
  file_offset :: nat
  entry_slots :: "slot_meta list"

datatype entry_state =
    Writing index_entry
  | Committed index_entry

fun entry_of :: "entry_state \<Rightarrow> index_entry" where
  "entry_of (Writing e) = e"
| "entry_of (Committed e) = e"

record shard_ring =
  capacity :: nat
  head :: nat
  tail :: nat
  order :: "block_key list"

record ssd_ring =
  shards :: "shard_ring list"
  next_shard :: nat
  entries :: "block_key \<rightharpoonup> entry_state"

datatype ring_panic =
    NoShards
  | ShardIndexOutOfRange
  | RemainderByZero
  | OffsetOverflow
  | SlotNumasMismatch

section \<open>Operations\<close>

definition new_sharded :: "nat list \<Rightarrow> ring_panic + ssd_ring" where
  "new_sharded caps =
     (if caps = [] then Inl NoShards
      else Inr \<lparr>shards = map (\<lambda>c. \<lparr>capacity = c, head = 0, tail = 0, order = []\<rparr>) caps,
                next_shard = 0, entries = Map.empty\<rparr>)"

definition is_offset_valid :: "ssd_ring \<Rightarrow> index_entry \<Rightarrow> bool" where
  "is_offset_valid r e \<longleftrightarrow>
     shard_id e < length (shards r) \<and> tail (shards r ! shard_id e) \<le> begin_off e"

definition ring_get :: "ssd_ring \<Rightarrow> block_key \<Rightarrow> index_entry option" where
  "ring_get r k =
     (case entries r k of
        Some (Committed e) \<Rightarrow> if is_offset_valid r e then Some e else None
      | _ \<Rightarrow> None)"

text \<open>The loop of \<open>advance_tail\<close> over the front of the shard's FIFO order.\<close>

fun prune_order ::
  "nat \<Rightarrow> (block_key \<rightharpoonup> entry_state) \<Rightarrow> block_key list \<Rightarrow> (block_key \<rightharpoonup> entry_state) \<times> block_key list" where
  "prune_order new_tail es [] = (es, [])"
| "prune_order new_tail es (k # ks) =
     (case es k of
        Some st \<Rightarrow>
          if new_tail \<le> begin_off (entry_of st) then (es, k # ks)
          else prune_order new_tail (es(k := None)) ks
      | None \<Rightarrow> prune_order new_tail (es(k := None)) ks)"

definition advance_tail :: "ssd_ring \<Rightarrow> nat \<Rightarrow> nat \<Rightarrow> ssd_ring" where
  "advance_tail r sid new_tail =
     (let s = shards r ! sid
      in if new_tail \<le> tail s then r
         else let (es, ks) = prune_order new_tail (entries r) (order s)
              in r\<lparr>shards := (shards r)[sid := s\<lparr>tail := new_tail, order := ks\<rparr>], entries := es\<rparr>)"

definition add_offset :: "nat \<Rightarrow> nat \<Rightarrow> ring_panic + nat" where
  "add_offset a b = (if a + b < 2 ^ 64 then Inr (a + b) else Inl OffsetOverflow)"

definition allocate_contiguous ::
  "ssd_ring \<Rightarrow> nat \<Rightarrow> nat \<Rightarrow> ring_panic + (ssd_ring \<times> (nat \<times> nat) option)" where
  "allocate_contiguous r sid sz =
     (if length (shards r) \<le> sid then Inl ShardIndexOutOfRange
      else let s = shards r ! sid in
        if capacity s < sz then Inr (r, None)
        else if capacity s = 0 then Inl RemainderByZero
        else let space_until_end = capacity s - head s mod capacity s in
          bind_res (if space_until_end < sz then add_offset (head s) space_until_end else Inr (head s))
            (\<lambda>start. bind_res (add_offset start sz) (\<lambda>new_head.
              let r1 = r\<lparr>shards := (shards r)[sid := s\<lparr>head := new_head\<rparr>]\<rparr>;
                  r2 = advance_tail r1 sid (new_head - capacity s)
              in Inr (r2, Some (start, start mod capacity s)))))"

definition ring_commit :: "ssd_ring \<Rightarrow> block_key \<Rightarrow> bool \<Rightarrow> ssd_ring \<times> bool" where
  "ring_commit r k success =
     (case entries r k of
        None \<Rightarrow> (r, False)
      | Some (Committed _) \<Rightarrow> (r, True)
      | Some (Writing e) \<Rightarrow>
          if \<not> is_offset_valid r e then (r\<lparr>entries := (entries r)(k := None)\<rparr>, False)
          else if success then (r\<lparr>entries := (entries r)(k \<mapsto> Committed e)\<rparr>, True)
          else (r\<lparr>entries := (entries r)(k := None)\<rparr>, False))"

record write_info =
  write_key :: block_key
  write_block :: sealed_block
  write_entry :: index_entry

definition slot_metas :: "sealed_block \<Rightarrow> slot_meta list" where
  "slot_metas b =
     map (\<lambda>(s, numa). slot_meta_new (map seg_size (as_slice (raw_segments s))) numa)
       (zip (sealed_slots b) (sealed_numas b))"

fun prepare_writes ::
  "ssd_ring \<Rightarrow> (block_key \<times> sealed_block) list \<Rightarrow> ring_panic + (ssd_ring \<times> write_info list)" where
  "prepare_writes r [] = Inr (r, [])"
| "prepare_writes r ((k, b) # cs) =
     (let sz = unat (sealed_footprint b); sid = next_shard r in
      bind_res (allocate_contiguous r sid sz) (\<lambda>(r1, a).
        case a of
          None \<Rightarrow> prepare_writes r1 cs
        | Some (start, off) \<Rightarrow>
            let r2 = r1\<lparr>next_shard := (next_shard r1 + 1) mod length (shards r1)\<rparr> in
            if length (sealed_numas b) \<noteq> length (sealed_slots b) then Inl SlotNumasMismatch
            else let e = \<lparr>shard_id = sid, begin_off = start, entry_len = sz, file_offset = off,
                          entry_slots = slot_metas b\<rparr>;
                     s = shards r2 ! sid;
                     r3 = r2\<lparr>entries := (entries r2)(k \<mapsto> Writing e),
                             shards := (shards r2)[sid := s\<lparr>order := order s @ [k]\<rparr>]\<rparr>
                 in bind_res (prepare_writes r3 cs) (\<lambda>(r', ws).
                      Inr (r', \<lparr>write_key = k, write_block = b, write_entry = e\<rparr> # ws))))"

definition prepare_batch ::
  "ssd_ring \<Rightarrow> (block_key \<times> sealed_block) list \<Rightarrow> ring_panic + (ssd_ring \<times> write_info list)" where
  "prepare_batch r cs = prepare_writes r (filter (\<lambda>(k, _). entries r k = None) cs)"

section \<open>Index operations of the backing store\<close>

definition prefix_len :: "ssd_ring \<Rightarrow> block_key list \<Rightarrow> nat" where
  "prefix_len r ks = length (map_while (\<lambda>k. map_option (\<lambda>_. ()) (ring_get r k)) ks)"

text \<open>
  \<open>submit_prefix\<close>: the requests of the hit prefix and, when the queue refuses them
  (\<open>accepted\<close> is the outcome of \<open>try_send\<close>) or there are none, the empty result that is
  sent on the completion channel at once.
\<close>

definition submit_prefix ::
  "ssd_ring \<Rightarrow> bool \<Rightarrow> block_key list \<Rightarrow> nat \<times> (block_key \<times> index_entry) list \<times> bool" where
  "submit_prefix r accepted ks =
     (let requests = map_while (\<lambda>k. map_option (Pair k) (ring_get r k)) ks;
          found = length requests
      in if found = 0 then (0, [], True)
         else if accepted then (found, requests, False)
         else (found, [], True))"

datatype capacity_error =
    CapacityTooSmall
  | DivideByZero \<comment> \<open>the panic of a division by a shard count of 0\<close>

definition ssd_alignment :: nat where
  "ssd_alignment = 512"

definition aligned_shard_capacity :: "nat \<Rightarrow> nat \<Rightarrow> capacity_error + nat" where
  "aligned_shard_capacity capacity_bytes shard_count =
     (if shard_count = 0 then Inl DivideByZero
      else let c = capacity_bytes div shard_count div ssd_alignment * ssd_alignment
           in if c = 0 then Inl CapacityTooSmall else Inr c)"

section \<open>Invariant\<close>

definition shard_ok :: "shard_ring \<Rightarrow> bool" where
  "shard_ok s \<longleftrightarrow> tail s \<le> head s \<and> head s \<le> tail s + capacity s"

definition entry_ok :: "shard_ring list \<Rightarrow> index_entry \<Rightarrow> bool" where
  "entry_ok ss e \<longleftrightarrow>
     shard_id e < length ss \<and>
     begin_off e + entry_len e \<le> head (ss ! shard_id e) \<and>
     0 < capacity (ss ! shard_id e) \<and>
     file_offset e = begin_off e mod capacity (ss ! shard_id e) \<and>
     file_offset e + entry_len e \<le> capacity (ss ! shard_id e)"

definition logical_apart :: "index_entry \<Rightarrow> index_entry \<Rightarrow> bool" where
  "logical_apart e f \<longleftrightarrow>
     (shard_id e = shard_id f \<longrightarrow> spans_apart (begin_off e, entry_len e) (begin_off f, entry_len f))"

definition ring_wf :: "ssd_ring \<Rightarrow> bool" where
  "ring_wf r \<longleftrightarrow>
     next_shard r < length (shards r) \<and>
     (\<forall>s \<in> set (shards r). shard_ok s) \<and>
     (\<forall>k st. entries r k = Some st \<longrightarrow> entry_ok (shards r) (entry_of st)) \<and>
     (\<forall>k l st st'. entries r k = Some st \<and> entries r l = Some st' \<and> k \<noteq> l \<longrightarrow>
        logical_apart (entry_of st) (entry_of st'))"

definition physical_range :: "index_entry \<Rightarrow> nat set" where
  "physical_range e = {file_offset e..<file_offset e + entry_len e}"

lemma logical_apart_sym: "logical_apart e f = logical_apart f e"
  by (auto simp: logical_apart_def spans_apart_def)

text \<open>
  Two logical spans that do not overlap, lie within one capacity of each other and do not
  straddle a wrap point occupy disjoint bytes of the file.
\<close>

lemma mod_window_inj:
  fixes x y c t :: nat
  assumes "t \<le> x" "x < t + c" "t \<le> y" "y < t + c" "x mod c = y mod c"
  shows "x = y"
proof -
  have *: "u = v" if "u \<le> v" "t \<le> u" "v < t + c" "u mod c = v mod c" for u v
  proof -
    have "c dvd v - u" using that mod_eq_dvd_iff_nat[of u v c] by simp
    moreover have "v - u < c" using that by linarith
    ultimately have "v - u = 0" by (cases "v - u = 0") (auto dest: nat_dvd_not_less)
    then show ?thesis using that(1) by simp
  qed
  show ?thesis using assms *[of x y] *[of y x] by (cases "x \<le> y") auto
qed

lemma mod_span:
  fixes b c i n :: nat
  assumes "b mod c + n \<le> c" and "i < n"
  shows "(b + i) mod c = b mod c + i"
proof -
  have "(b + i) mod c = (b mod c + i) mod c" by (simp add: mod_add_left_eq)
  also have "\<dots> = b mod c + i" using assms by (intro mod_less) linarith
  finally show ?thesis .
qed

lemma physical_apart:
  fixes b b' c n n' t :: nat
  assumes "spans_apart (b, n) (b', n')"
    and "t \<le> b" "b + n \<le> t + c" "t \<le> b'" "b' + n' \<le> t + c"
    and "b mod c + n \<le> c" "b' mod c + n' \<le> c"
  shows "{b mod c..<b mod c + n} \<inter> {b' mod c..<b' mod c + n'} = {}"
proof (rule ccontr)
  assume "\<not> ?thesis"
  then obtain x where x: "b mod c \<le> x" "x < b mod c + n" "b' mod c \<le> x" "x < b' mod c + n'"
    by fastforce
  define i j where "i = x - b mod c" and "j = x - b' mod c"
  have ij: "i < n" "j < n'" "b mod c + i = b' mod c + j" using x by (simp_all add: i_def j_def)
  then have "(b + i) mod c = (b' + j) mod c" using assms by (simp add: mod_span)
  then have "b + i = b' + j" using assms ij by (simp add: mod_window_inj[of t _ c])
  with ij assms(1) show False by (auto simp: spans_apart_def)
qed

subsection \<open>Preservation\<close>

lemma prune_order_sub: "prune_order t es ks = (es', ks') \<Longrightarrow> es' k = Some st \<Longrightarrow> es k = Some st"
proof (induction ks arbitrary: es)
  case (Cons x ks)
  then show ?case by (fastforce split: option.splits if_splits)
qed simp

lemma prune_order_keeps:
  "prune_order t es ks = (es', ks') \<Longrightarrow> es k = Some st \<Longrightarrow> t \<le> begin_off (entry_of st) \<Longrightarrow>
   es' k = Some st"
proof (induction ks arbitrary: es)
  case (Cons x ks)
  then show ?case
    by (cases "x = k") (fastforce split: option.splits if_splits)+
qed simp

text \<open>
  What every operation may do to the shards: capacities stay, heads and tails only grow.
\<close>

definition shards_grow :: "shard_ring list \<Rightarrow> shard_ring list \<Rightarrow> bool" where
  "shards_grow ss ss' \<longleftrightarrow>
     list_all2 (\<lambda>s s'. capacity s' = capacity s \<and> head s \<le> head s' \<and> tail s \<le> tail s') ss ss'"

lemma shards_grow_refl [simp]: "shards_grow ss ss"
  by (simp add: shards_grow_def list_all2_refl)

lemma shards_grow_trans: "shards_grow a b \<Longrightarrow> shards_grow b c \<Longrightarrow> shards_grow a c"
  unfolding shards_grow_def by (rule list_all2_trans) auto

lemma shards_growD:
  assumes "shards_grow ss ss'"
  shows "length ss' = length ss"
    and "i < length ss \<Longrightarrow> capacity (ss' ! i) = capacity (ss ! i) \<and>
      head (ss ! i) \<le> head (ss' ! i) \<and> tail (ss ! i) \<le> tail (ss' ! i)"
  using assms by (auto simp: shards_grow_def list_all2_conv_all_nth)

lemma shards_grow_update:
  "i < length ss \<Longrightarrow> capacity s = capacity (ss ! i) \<Longrightarrow> head (ss ! i) \<le> head s \<Longrightarrow>
   tail (ss ! i) \<le> tail s \<Longrightarrow> shards_grow ss (ss[i := s])"
  by (auto simp: shards_grow_def list_all2_conv_all_nth nth_list_update)

lemma entry_ok_grow: "shards_grow ss ss' \<Longrightarrow> entry_ok ss e \<Longrightarrow> entry_ok ss' e"
  using shards_growD(2)[of ss ss' "shard_id e"]
  by (auto simp: entry_ok_def shards_growD(1) intro: order_trans)

lemma ring_wf_step:
  assumes wf: "ring_wf r"
    and grow: "shards_grow (shards r) (shards r')"
    and ok: "\<forall>s \<in> set (shards r'). shard_ok s"
    and nxt: "next_shard r' < length (shards r')"
    and sub: "\<And>k st. entries r' k = Some st \<Longrightarrow> \<exists>st'. entries r k = Some st' \<and> entry_of st' = entry_of st"
  shows "ring_wf r'"
  unfolding ring_wf_def
proof (intro conjI allI impI)
  fix k st assume "entries r' k = Some st"
  with sub wf show "entry_ok (shards r') (entry_of st)"
    unfolding ring_wf_def by (metis entry_ok_grow[OF grow])
next
  fix k l st st' assume a: "entries r' k = Some st \<and> entries r' l = Some st' \<and> k \<noteq> l"
  with sub obtain u v where "entries r k = Some u" "entry_of u = entry_of st"
      "entries r l = Some v" "entry_of v = entry_of st'" by metis
  with a wf show "logical_apart (entry_of st) (entry_of st')" unfolding ring_wf_def by metis
qed (use ok nxt in auto)

lemma ring_wf_entry: "ring_wf r \<Longrightarrow> entries r k = Some st \<Longrightarrow> entry_ok (shards r) (entry_of st)"
  by (simp add: ring_wf_def)

lemma ring_wf_apart:
  "ring_wf r \<Longrightarrow> entries r k = Some st \<Longrightarrow> entries r l = Some st' \<Longrightarrow> k \<noteq> l \<Longrightarrow>
   logical_apart (entry_of st) (entry_of st')"
  unfolding ring_wf_def by blast

lemma ring_wfI:
  assumes "next_shard r < length (shards r)" and "\<And>s. s \<in> set (shards r) \<Longrightarrow> shard_ok s"
    and "\<And>k st. entries r k = Some st \<Longrightarrow> entry_ok (shards r) (entry_of st)"
    and "\<And>k l st st'. entries r k = Some st \<Longrightarrow> entries r l = Some st' \<Longrightarrow> k \<noteq> l \<Longrightarrow>
           logical_apart (entry_of st) (entry_of st')"
  shows "ring_wf r"
  unfolding ring_wf_def using assms by blast

lemma ring_wf_shard: "ring_wf r \<Longrightarrow> i < length (shards r) \<Longrightarrow> shard_ok (shards r ! i)"
  by (simp add: ring_wf_def)

lemma ring_wf_next: "ring_wf r \<Longrightarrow> next_shard r < length (shards r)"
  by (simp add: ring_wf_def)

lemma advance_tail_spec:
  assumes "sid < length (shards r)" and "r' = advance_tail r sid t"
  obtains ks where
    "shards r' = (shards r)[sid := (shards r ! sid)\<lparr>tail := max (tail (shards r ! sid)) t, order := ks\<rparr>]"
    "next_shard r' = next_shard r"
    "\<And>k st. entries r' k = Some st \<Longrightarrow> entries r k = Some st"
proof (cases "t \<le> tail (shards r ! sid)")
  case True
  with assms show ?thesis by (intro that[of "order (shards r ! sid)"]) (auto simp: advance_tail_def max_def)
next
  case False
  obtain es ks where "prune_order t (entries r) (order (shards r ! sid)) = (es, ks)" by fastforce
  with False assms show ?thesis
    by (intro that[of ks]) (auto simp: advance_tail_def max_def Let_def dest: prune_order_sub)
qed

text \<open>What one allocation guarantees, on success and on failure.\<close>

definition fresh_span :: "shard_ring \<Rightarrow> shard_ring \<Rightarrow> nat \<Rightarrow> nat \<Rightarrow> nat \<Rightarrow> bool" where
  "fresh_span s s' start off sz \<longleftrightarrow>
     head s \<le> start \<and> start \<le> head s + capacity s \<and> head s' = start + sz \<and> tail s' \<le> start \<and>
     0 < capacity s \<and> off = start mod capacity s \<and> off + sz \<le> capacity s"

lemma wrap_start:
  fixes h c sz :: nat
  assumes "0 < c" "sz \<le> c" and "start = (if c - h mod c < sz then h + (c - h mod c) else h)"
  shows "h \<le> start \<and> start \<le> h + c \<and> start mod c + sz \<le> c"
proof (cases "c - h mod c < sz")
  case True
  have lt: "h mod c < c" using assms(1) by simp
  have start: "start = h + (c - h mod c)" using True assms(3) by simp
  then have "start = c * (h div c) + c" using lt mult_div_mod_eq[of c h] by linarith
  then have "start mod c = 0" by simp
  with start lt assms(2) show ?thesis by linarith
next
  case False
  have "h mod c < c" using assms(1) by simp
  with False assms show ?thesis by simp
qed

lemma add_offset_Inr: "add_offset a b = Inr c \<longleftrightarrow> a + b < 2 ^ 64 \<and> c = a + b"
  by (auto simp: add_offset_def)

lemma allocate_SomeD:
  assumes "allocate_contiguous r sid sz = Inr (r', Some (start, off))"
  defines "s \<equiv> shards r ! sid"
  shows "sid < length (shards r)" "sz \<le> capacity s" "0 < capacity s"
    "start = (if capacity s - head s mod capacity s < sz
              then head s + (capacity s - head s mod capacity s) else head s)"
    "off = start mod capacity s"
    "r' = advance_tail (r\<lparr>shards := (shards r)[sid := s\<lparr>head := start + sz\<rparr>]\<rparr>) sid (start + sz - capacity s)"
  using assms
  by (auto simp: allocate_contiguous_def Let_def res_simps add_offset_Inr not_le not_less
      split: if_splits sum.splits)

lemma allocate_spec:
  assumes wf: "ring_wf r" and al: "allocate_contiguous r sid sz = Inr (r', Some (start, off))"
  shows "sid < length (shards r)" and "ring_wf r'" and "shards_grow (shards r) (shards r')"
    and "fresh_span (shards r ! sid) (shards r' ! sid) start off sz"
    and "next_shard r' = next_shard r"
    and "\<And>k st. entries r' k = Some st \<Longrightarrow> entries r k = Some st"
proof -
  note D = allocate_SomeD[OF al]
  define s where "s = shards r ! sid"
  define r1 where "r1 = r\<lparr>shards := (shards r)[sid := s\<lparr>head := start + sz\<rparr>]\<rparr>"
  have start: "head s \<le> start" "start \<le> head s + capacity s" "start mod capacity s + sz \<le> capacity s"
    using wrap_start[OF D(3,2,4)] by (simp_all add: s_def)
  have s: "shard_ok s" using wf D(1) by (simp add: ring_wf_def s_def)
  have "sid < length (shards r1)" using D(1) by (simp add: r1_def)
  moreover have "r' = advance_tail r1 sid (start + sz - capacity s)" using D(6) by (simp add: r1_def s_def)
  ultimately obtain ks where r': "shards r' = (shards r1)[sid := (shards r1 ! sid)\<lparr>tail :=
        max (tail (shards r1 ! sid)) (start + sz - capacity s), order := ks\<rparr>]"
      "next_shard r' = next_shard r1"
      and es: "\<And>k st. entries r' k = Some st \<Longrightarrow> entries r1 k = Some st"
    by (rule advance_tail_spec) blast
  define s' where "s' = s\<lparr>head := start + sz, tail := max (tail s) (start + sz - capacity s), order := ks\<rparr>"
  have sh: "shards r' = (shards r)[sid := s']" using r' D(1) by (simp add: r1_def s'_def)
  have s': "shard_ok s'" "fresh_span s s' start off sz"
    using s start D(2,3,5) by (auto simp: shard_ok_def s'_def fresh_span_def s_def)
  show "sid < length (shards r)" by (fact D(1))
  show grow: "shards_grow (shards r) (shards r')"
    unfolding sh using D(1) start(1) by (intro shards_grow_update) (simp_all add: s'_def s_def)
  show "fresh_span (shards r ! sid) (shards r' ! sid) start off sz"
    using s'(2) D(1) by (simp add: sh s_def)
  show nxt: "next_shard r' = next_shard r" using r'(2) by (simp add: r1_def)
  show sub: "entries r k = Some st" if "entries r' k = Some st" for k st
    using es[OF that] by (simp add: r1_def)
  show "ring_wf r'"
  proof (rule ring_wf_step[OF wf grow])
    show "\<forall>s \<in> set (shards r'). shard_ok s"
      using wf s'(1) set_update_subset_insert[of "shards r" sid s'] by (auto simp: sh ring_wf_def)
    show "next_shard r' < length (shards r')" using wf by (simp add: sh nxt ring_wf_def)
  qed (use sub in blast)
qed

lemma allocate_NoneD: "allocate_contiguous r sid sz = Inr (r', None) \<Longrightarrow> r' = r"
  by (auto simp: allocate_contiguous_def Let_def res_simps split: if_splits)

lemma ring_wf_insert:
  assumes wf: "ring_wf r" and sid: "sid < length (shards r)" and ok: "entry_ok (shards r) e"
    and apart: "\<And>l st. entries r l = Some st \<Longrightarrow> l \<noteq> k \<Longrightarrow> logical_apart e (entry_of st)"
    and n: "n < length (shards r)"
  shows "ring_wf (r\<lparr>next_shard := n, entries := (entries r)(k \<mapsto> Writing e),
                    shards := (shards r)[sid := (shards r ! sid)\<lparr>order := ks\<rparr>]\<rparr>)"
proof -
  let ?ss = "(shards r)[sid := (shards r ! sid)\<lparr>order := ks\<rparr>]"
  have grow: "shards_grow (shards r) ?ss" using sid by (intro shards_grow_update) simp_all
  have "shard_ok ((shards r ! sid)\<lparr>order := ks\<rparr>)" using ring_wf_shard[OF wf sid] by (simp add: shard_ok_def)
  then have ss: "shard_ok s" if "s \<in> set ?ss" for s
    using wf that set_update_subset_insert[of "shards r" sid] unfolding ring_wf_def by blast
  let ?es = "(entries r)(k \<mapsto> Writing e)"
  have ok': "entry_ok ?ss (entry_of st)" if "?es l = Some st" for l st
    using that ring_wf_entry[OF wf, of l st] ok
    by (cases "l = k") (auto intro: entry_ok_grow[OF grow])
  have ap: "logical_apart (entry_of st) (entry_of st')" if "?es l = Some st" "?es m = Some st'" "l \<noteq> m"
    for l m st st'
    using that ring_wf_apart[OF wf, of l st m st'] apart[of m st'] apart[of l st] logical_apart_sym[of e "entry_of st"]
    by (cases "l = k"; cases "m = k") auto
  show ?thesis
    by (rule ring_wfI) (use n ss ok' ap in \<open>simp_all del: fun_upd_apply\<close>)
qed

text \<open>One accepted candidate of \<open>prepare_writes\<close>.\<close>

definition place_entry :: "ssd_ring \<Rightarrow> block_key \<Rightarrow> index_entry \<Rightarrow> ssd_ring" where
  "place_entry r k e =
     r\<lparr>next_shard := (next_shard r + 1) mod length (shards r),
       entries := (entries r)(k \<mapsto> Writing e),
       shards := (shards r)[shard_id e := (shards r ! shard_id e)
         \<lparr>order := order (shards r ! shard_id e) @ [k]\<rparr>]\<rparr>"

definition fresh_entry :: "shard_ring list \<Rightarrow> shard_ring list \<Rightarrow> index_entry \<Rightarrow> bool" where
  "fresh_entry ss ss' e \<longleftrightarrow>
     shard_id e < length ss \<and> head (ss ! shard_id e) \<le> begin_off e \<and> entry_ok ss' e"

lemma fresh_entry_grow:
  "shards_grow ss0 ss \<Longrightarrow> shards_grow ss' ss1 \<Longrightarrow> fresh_entry ss ss' e \<Longrightarrow> fresh_entry ss0 ss1 e"
  using shards_growD(2)[of ss0 ss "shard_id e"] shards_growD(1)[of ss0 ss]
  by (auto simp: fresh_entry_def intro: entry_ok_grow order_trans)

lemma place_entry_spec:
  assumes wf: "ring_wf r" and al: "allocate_contiguous r sid sz = Inr (r1, Some (start, off))"
    and e: "e = \<lparr>shard_id = sid, begin_off = start, entry_len = sz, file_offset = off, entry_slots = ms\<rparr>"
  shows "ring_wf (place_entry r1 k e)"
    and "shards_grow (shards r) (shards (place_entry r1 k e))"
    and "fresh_entry (shards r) (shards (place_entry r1 k e)) e"
proof -
  note A = allocate_spec[OF wf al]
  have sid: "sid < length (shards r1)" using A(1) shards_growD(1)[OF A(3)] by simp
  have cap: "capacity (shards r1 ! sid) = capacity (shards r ! sid)" using shards_growD(2)[OF A(3,1)] by simp
  have ok: "entry_ok (shards r1) e" using A(4) sid cap by (simp add: entry_ok_def e fresh_span_def)
  have apart: "logical_apart e (entry_of st)" if "entries r1 l = Some st" for l st
  proof -
    have "entry_ok (shards r) (entry_of st)" using ring_wf_entry[OF wf A(6)[OF that]] .
    then show ?thesis using A(4) by (auto simp: logical_apart_def spans_apart_def e entry_ok_def fresh_span_def)
  qed
  have "0 < length (shards r1)" using sid by linarith
  then have nxt: "(next_shard r1 + 1) mod length (shards r1) < length (shards r1)" by simp
  show "ring_wf (place_entry r1 k e)"
    unfolding place_entry_def using ring_wf_insert[OF A(2) sid ok apart nxt] by (simp add: e)
  have grow: "shards_grow (shards r1) (shards (place_entry r1 k e))"
    using sid by (simp add: place_entry_def e shards_grow_update)
  show "shards_grow (shards r) (shards (place_entry r1 k e))" using shards_grow_trans[OF A(3) grow] .
  show "fresh_entry (shards r) (shards (place_entry r1 k e)) e"
    using entry_ok_grow[OF grow ok] A(1,4) by (simp add: fresh_entry_def e fresh_span_def)
qed

lemma prepare_writes_Cons:
  assumes "prepare_writes r ((k, b) # cs) = Inr (r', ws)"
  obtains (Skip) "prepare_writes r cs = Inr (r', ws)"
  | (Write) r1 start off e ws' where
      "allocate_contiguous r (next_shard r) (unat (sealed_footprint b)) = Inr (r1, Some (start, off))"
      "length (sealed_numas b) = length (sealed_slots b)"
      "e = \<lparr>shard_id = next_shard r, begin_off = start, entry_len = unat (sealed_footprint b),
            file_offset = off, entry_slots = slot_metas b\<rparr>"
      "prepare_writes (place_entry r1 k e) cs = Inr (r', ws')"
      "ws = \<lparr>write_key = k, write_block = b, write_entry = e\<rparr> # ws'"
proof -
  from assms obtain r1 a where a: "allocate_contiguous r (next_shard r) (unat (sealed_footprint b)) = Inr (r1, a)"
    by (auto simp: Let_def res_simps)
  show ?thesis
  proof (cases a)
    case None
    with a have "r1 = r" by (simp add: allocate_NoneD)
    with a None assms show ?thesis by (intro Skip) (simp add: Let_def)
  next
    case (Some p)
    obtain start off where p: "p = (start, off)" by fastforce
    let ?e = "\<lparr>shard_id = next_shard r, begin_off = start, entry_len = unat (sealed_footprint b),
               file_offset = off, entry_slots = slot_metas b\<rparr>"
    from a Some p assms obtain ws' where "length (sealed_numas b) = length (sealed_slots b)"
      "prepare_writes (place_entry r1 k ?e) cs = Inr (r', ws')"
      "ws = \<lparr>write_key = k, write_block = b, write_entry = ?e\<rparr> # ws'"
      by (auto simp: Let_def res_simps place_entry_def split: if_splits)
    with a Some p show ?thesis by (intro Write[of r1 start off ?e ws']) simp_all
  qed
qed

lemma prepare_writes_spec:
  assumes "ring_wf r" and "prepare_writes r cs = Inr (r', ws)"
  shows "ring_wf r' \<and> shards_grow (shards r) (shards r') \<and>
    (\<forall>w \<in> set ws. fresh_entry (shards r) (shards r') (write_entry w))"
  using assms
proof (induction cs arbitrary: r ws)
  case (Cons c cs)
  obtain k b where c: "c = (k, b)" by fastforce
  from Cons.prems(2) show ?case unfolding c
  proof (cases rule: prepare_writes_Cons)
    case Skip
    then show ?thesis using Cons by blast
  next
    case (Write r1 start off e ws')
    note P = place_entry_spec[OF Cons.prems(1) Write(1,3), of k]
    let ?r1 = "place_entry r1 k e"
    have IH: "ring_wf r'" "shards_grow (shards ?r1) (shards r')"
        "\<And>w. w \<in> set ws' \<Longrightarrow> fresh_entry (shards ?r1) (shards r') (write_entry w)"
      using Cons.IH[OF P(1) Write(4)] by simp_all
    have "fresh_entry (shards r) (shards r') (write_entry w)" if "w \<in> set ws" for w
      using that fresh_entry_grow[OF P(2) shards_grow_refl IH(3)[of w]]
        fresh_entry_grow[OF shards_grow_refl IH(2) P(3)]
      unfolding Write(5) by (cases "w \<in> set ws'") simp_all
    with IH(1) shards_grow_trans[OF P(2) IH(2)] show ?thesis by blast
  qed
qed simp

lemma is_offset_valid_entries [simp]: "is_offset_valid (r\<lparr>entries := es\<rparr>) e = is_offset_valid r e"
  by (simp add: is_offset_valid_def)

lemma ring_get_entries: "es l = entries r l \<Longrightarrow> ring_get (r\<lparr>entries := es\<rparr>) l = ring_get r l"
  by (simp add: ring_get_def split: option.split entry_state.split)

lemma commit_sub:
  assumes "ring_commit r k ok = (r', res)"
  shows "shards r' = shards r" "next_shard r' = next_shard r"
    "\<And>l st. entries r' l = Some st \<Longrightarrow> \<exists>st'. entries r l = Some st' \<and> entry_of st' = entry_of st"
  using assms by (auto simp: ring_commit_def split: option.splits entry_state.splits if_splits)

lemma ring_commit_wf: "ring_wf r \<Longrightarrow> ring_commit r k ok = (r', res) \<Longrightarrow> ring_wf r'"
  using commit_sub[of r k ok r' res]
  by (intro ring_wf_step[of r r']) (simp_all add: ring_wf_next, simp add: ring_wf_def)

lemma new_sharded_wf: "new_sharded caps = Inr r \<Longrightarrow> ring_wf r"
  by (auto simp: new_sharded_def ring_wf_def shard_ok_def split: if_splits)

section \<open>Runs\<close>

text \<open>
  A run interleaves batches and commits in any order, as the writer task and the I/O
  completions do; it collects the writes that were prepared.
\<close>

inductive ring_run :: "ssd_ring \<Rightarrow> write_info list \<Rightarrow> ssd_ring \<Rightarrow> bool" where
  run_refl: "ring_run r [] r"
| run_prepare: "ring_run r ws r1 \<Longrightarrow> prepare_batch r1 cs = Inr (r2, vs) \<Longrightarrow> ring_run r (ws @ vs) r2"
| run_commit: "ring_run r ws r1 \<Longrightarrow> ring_commit r1 k ok = (r2, res) \<Longrightarrow> ring_run r ws r2"

lemma ring_run_spec:
  assumes "ring_run r ws r'" and "ring_wf r"
  shows "ring_wf r' \<and> shards_grow (shards r) (shards r') \<and>
    (\<forall>w \<in> set ws. fresh_entry (shards r) (shards r') (write_entry w))"
  using assms
proof (induction rule: ring_run.induct)
  case (run_prepare r ws r1 cs r2 vs)
  then have IH: "ring_wf r1" "shards_grow (shards r) (shards r1)"
      "\<And>w. w \<in> set ws \<Longrightarrow> fresh_entry (shards r) (shards r1) (write_entry w)" by simp_all
  from run_prepare.hyps(2) have P: "ring_wf r2" "shards_grow (shards r1) (shards r2)"
      "\<And>w. w \<in> set vs \<Longrightarrow> fresh_entry (shards r1) (shards r2) (write_entry w)"
    using prepare_writes_spec[OF IH(1)] by (simp_all add: prepare_batch_def)
  have "fresh_entry (shards r) (shards r2) (write_entry w)" if "w \<in> set (ws @ vs)" for w
    using that IH(3)[of w] P(3)[of w] fresh_entry_grow[OF shards_grow_refl P(2)]
      fresh_entry_grow[OF IH(2) shards_grow_refl]
    by (cases "w \<in> set ws") simp_all
  with P(1) shards_grow_trans[OF IH(2) P(2)] show ?case by blast
next
  case (run_commit r ws r1 k ok r2 res)
  then show ?case using ring_commit_wf[of r1 k ok r2 res] commit_sub(1)[of r1 k ok r2 res] by simp
qed simp

lemma valid_entry_bounds:
  assumes "ring_wf r" and "entry_ok (shards r) e" and "is_offset_valid r e"
  defines "s \<equiv> shards r ! shard_id e"
  shows "tail s \<le> begin_off e" "begin_off e + entry_len e \<le> tail s + capacity s"
    "file_offset e = begin_off e mod capacity s" "file_offset e + entry_len e \<le> capacity s"
  using assms ring_wf_shard[of r "shard_id e"]
  by (auto simp: is_offset_valid_def entry_ok_def shard_ok_def)

text \<open>
  C1. In every state a fresh ring can reach, the bytes of a valid entry lie inside its shard
  file, and two valid entries with different keys never share a byte.
\<close>

theorem valid_ranges_disjoint:
  assumes "new_sharded caps = Inr r0" and "ring_run r0 ws r"
    and "entries r k = Some st" and "is_offset_valid r (entry_of st)"
  shows "physical_range (entry_of st) \<subseteq> {..<capacity (shards r ! shard_id (entry_of st))} \<and>
    (\<forall>l st'. entries r l = Some st' \<and> is_offset_valid r (entry_of st') \<and> l \<noteq> k \<and>
       shard_id (entry_of st') = shard_id (entry_of st) \<longrightarrow>
       physical_range (entry_of st) \<inter> physical_range (entry_of st') = {})"
proof (intro conjI allI impI)
  have wf: "ring_wf r" using ring_run_spec[OF assms(2) new_sharded_wf[OF assms(1)]] by simp
  note b = valid_entry_bounds[OF wf ring_wf_entry[OF wf assms(3)] assms(4)]
  then show "physical_range (entry_of st) \<subseteq> {..<capacity (shards r ! shard_id (entry_of st))}"
    by (auto simp: physical_range_def)
  fix l st'
  assume a: "entries r l = Some st' \<and> is_offset_valid r (entry_of st') \<and> l \<noteq> k \<and>
    shard_id (entry_of st') = shard_id (entry_of st)"
  then have b': "tail (shards r ! shard_id (entry_of st)) \<le> begin_off (entry_of st')"
      "begin_off (entry_of st') + entry_len (entry_of st') \<le>
       tail (shards r ! shard_id (entry_of st)) + capacity (shards r ! shard_id (entry_of st))"
      "file_offset (entry_of st') = begin_off (entry_of st') mod capacity (shards r ! shard_id (entry_of st))"
      "file_offset (entry_of st') + entry_len (entry_of st') \<le> capacity (shards r ! shard_id (entry_of st))"
    using valid_entry_bounds[OF wf ring_wf_entry[OF wf, of l st']] by simp_all
  from a have "spans_apart (begin_off (entry_of st), entry_len (entry_of st))
      (begin_off (entry_of st'), entry_len (entry_of st'))"
    using ring_wf_apart[OF wf assms(3), of l st'] by (auto simp: logical_apart_def)
  from physical_apart[OF this b(1,2) b'(1,2)] b b'
  show "physical_range (entry_of st) \<inter> physical_range (entry_of st') = {}"
    by (simp add: physical_range_def)
qed

text \<open>
  C2. The read protocol is sound: when an entry was readable before a read and its offset is
  still valid after it, no write prepared in between, in any interleaving of batches and
  commits, touches a byte of the entry.
\<close>

theorem validated_read_not_overwritten:
  assumes "new_sharded caps = Inr r0" and "ring_run r0 us r" and "ring_get r k = Some e"
    and "ring_run r ws r'" and "is_offset_valid r' e"
    and "w \<in> set ws" and "shard_id (write_entry w) = shard_id e"
  shows "physical_range e \<inter> physical_range (write_entry w) = {}"
proof -
  have wf: "ring_wf r" using ring_run_spec[OF assms(2) new_sharded_wf[OF assms(1)]] by simp
  have "entries r k = Some (Committed e)"
    using assms(3) by (auto simp: ring_get_def split: option.splits entry_state.splits if_splits)
  then have ok: "entry_ok (shards r) e" using ring_wf_entry[OF wf, of k] by fastforce
  note run = ring_run_spec[OF assms(4) wf]
  then have wf': "ring_wf r'" and grow: "shards_grow (shards r) (shards r')"
    and fresh: "fresh_entry (shards r) (shards r') (write_entry w)" using assms(6) by simp_all
  note b = valid_entry_bounds[OF wf' entry_ok_grow[OF grow ok] assms(5)]
  let ?s = "shards r' ! shard_id e" and ?w = "write_entry w"
  have "head (shards r ! shard_id e) \<le> begin_off ?w" and ok': "entry_ok (shards r') ?w"
    using fresh assms(7) by (simp_all add: fresh_entry_def)
  with ok have after: "begin_off e + entry_len e \<le> begin_off ?w" by (simp add: entry_ok_def)
  then have "is_offset_valid r' ?w" using assms(5,7) by (simp add: is_offset_valid_def)
  note b' = valid_entry_bounds[OF wf' ok' this]
  have "spans_apart (begin_off e, entry_len e) (begin_off ?w, entry_len ?w)"
    using after by (simp add: spans_apart_def)
  from physical_apart[OF this b(1,2) b'(1,2)[unfolded assms(7)]] b b' assms(7) show ?thesis
    by (simp add: physical_range_def)
qed

text \<open>
  Two-phase commit: a commit changes nothing but its own key. It publishes a written
  entry exactly when the write succeeded and the entry has not expired, and then the key
  reads back as that entry; a missing key stays missing and a committed one stays as it is.
\<close>

theorem commit_contract:
  assumes "ring_commit r k ok = (r', res)"
  shows "(\<forall>l. l \<noteq> k \<longrightarrow> entries r' l = entries r l \<and> ring_get r' l = ring_get r l) \<and>
    (case entries r k of
       None \<Rightarrow> r' = r \<and> \<not> res
     | Some (Committed e) \<Rightarrow> r' = r \<and> res
     | Some (Writing e) \<Rightarrow>
         res = (ok \<and> is_offset_valid r e) \<and> ring_get r k = None \<and>
         ring_get r' k = (if ok \<and> is_offset_valid r e then Some e else None))"
proof (cases "entries r k")
  case None
  with assms show ?thesis by (simp add: ring_commit_def)
next
  case (Some st)
  show ?thesis
  proof (cases st)
    case (Writing e)
    with Some assms show ?thesis
      by (cases "is_offset_valid r e"; cases ok)
        (auto simp: ring_commit_def ring_get_def[of _ k] ring_get_entries)
  next
    case (Committed e)
    with Some assms show ?thesis by (simp add: ring_commit_def)
  qed
qed

section \<open>No panic, and what a batch writes\<close>

lemma allocate_shards:
  assumes "allocate_contiguous r sid sz = Inr (r', Some (start, off))"
  obtains s' where "shards r' = (shards r)[sid := s']"
proof -
  note D = allocate_SomeD[OF assms]
  let ?r1 = "r\<lparr>shards := (shards r)[sid := (shards r ! sid)\<lparr>head := start + sz\<rparr>]\<rparr>"
  have "sid < length (shards ?r1)" using D(1) by simp
  then obtain ks where "shards r' = (shards ?r1)[sid := (shards ?r1 ! sid)\<lparr>tail :=
      max (tail (shards ?r1 ! sid)) (start + sz - capacity (shards r ! sid)), order := ks\<rparr>]"
    by (rule advance_tail_spec[OF _ D(6)])
  then have "shards r' = (shards r)[sid := shards r' ! sid]" using D(1) by simp
  then show thesis by (rule that)
qed

lemma allocate_total:
  assumes "sid < length (shards r)" and "0 < capacity (shards r ! sid)"
    and "head (shards r ! sid) + 2 * capacity (shards r ! sid) < 2 ^ 64"
  shows "\<exists>r' a. allocate_contiguous r sid sz = Inr (r', a) \<and>
    (a = None \<longleftrightarrow> capacity (shards r ! sid) < sz)"
proof (cases "capacity (shards r ! sid) < sz")
  case True
  with assms show ?thesis by (simp add: allocate_contiguous_def Let_def)
next
  case False
  let ?s = "shards r ! sid"
  define start where "start = (if capacity ?s - head ?s mod capacity ?s < sz
      then head ?s + (capacity ?s - head ?s mod capacity ?s) else head ?s)"
  have st: "start \<le> head ?s + capacity ?s" using wrap_start[OF assms(2) _ start_def] False by simp
  have "(if capacity ?s - head ?s mod capacity ?s < sz
      then add_offset (head ?s) (capacity ?s - head ?s mod capacity ?s) else Inr (head ?s)) = Inr start"
    using assms(3) by (auto simp: add_offset_def start_def)
  moreover have "add_offset start sz = Inr (start + sz)" using st False assms(3) by (simp add: add_offset_def)
  ultimately show ?thesis using False assms by (simp add: allocate_contiguous_def Let_def)
qed

lemma head_budget:
  assumes wf: "ring_wf r" and al: "allocate_contiguous r sid sz = Inr (r1, Some (start, off))"
    and e: "e = \<lparr>shard_id = sid, begin_off = start, entry_len = sz, file_offset = off, entry_slots = ms\<rparr>"
    and b: "\<And>s. s \<in> set (shards r) \<Longrightarrow> capacity s = c \<and> head s + 2 * c * Suc n < 2 ^ 64"
    and s: "s \<in> set (shards (place_entry r1 k e))"
  shows "capacity s = c \<and> head s + 2 * c * n < 2 ^ 64"
proof -
  note A = allocate_spec[OF wf al]
  obtain i where i: "i < length (shards r)" "s = shards (place_entry r1 k e) ! i"
    using s shards_growD(1)[OF place_entry_spec(2)[OF wf al e]] by (metis in_set_conv_nth)
  obtain s' where r1: "shards r1 = (shards r)[sid := s']" using allocate_shards[OF al] .
  have bi: "capacity (shards r ! i) = c" "head (shards r ! i) + 2 * c * Suc n < 2 ^ 64" using b i(1) by auto
  have "capacity s = c" using shards_growD(2)[OF place_entry_spec(2)[OF wf al e] i(1)] i(2) bi by simp
  moreover have "head s \<le> head (shards r ! i) + 2 * c"
  proof (cases "i = sid")
    case True
    have "head s = start + sz" using A(1,4) r1 i True by (simp add: place_entry_def e fresh_span_def)
    moreover have "start \<le> head (shards r ! i) + c" "sz \<le> c" using A(4) bi True by (auto simp: fresh_span_def)
    ultimately show ?thesis by linarith
  next
    case False
    then show ?thesis using r1 i by (simp add: place_entry_def e)
  qed
  ultimately show ?thesis using bi by simp
qed

lemma prepare_writes_total:
  assumes "ring_wf r" and "0 < c"
    and "\<And>s. s \<in> set (shards r) \<Longrightarrow> capacity s = c \<and> head s + 2 * c * length cs < 2 ^ 64"
    and "\<And>k b. (k, b) \<in> set cs \<Longrightarrow> length (sealed_numas b) = length (sealed_slots b)"
  shows "\<exists>r' ws. prepare_writes r cs = Inr (r', ws) \<and>
    map (\<lambda>w. (write_key w, write_block w)) ws = filter (\<lambda>(k, b). unat (sealed_footprint b) \<le> c) cs"
  using assms(1,3,4)
proof (induction cs arbitrary: r)
  case (Cons x cs)
  obtain k b where x: "x = (k, b)" by fastforce
  let ?sz = "unat (sealed_footprint b)" and ?s = "shards r ! next_shard r"
  have n: "next_shard r < length (shards r)" using ring_wf_next[OF Cons.prems(1)] .
  then have s: "capacity ?s = c" "head ?s + 2 * c * Suc (length cs) < 2 ^ 64" using Cons.prems(2)[of ?s] by simp_all
  then have "head ?s + 2 * capacity ?s < 2 ^ 64" by simp
  then obtain r1 a where a: "allocate_contiguous r (next_shard r) ?sz = Inr (r1, a)" "a = None \<longleftrightarrow> c < ?sz"
    using allocate_total[OF n] s assms(2) by metis
  show ?case
  proof (cases a)
    case None
    then have "r1 = r" using a allocate_NoneD by simp
    moreover have "\<And>s. s \<in> set (shards r) \<Longrightarrow> capacity s = c \<and> head s + 2 * c * length cs < 2 ^ 64"
      using Cons.prems(2) by fastforce
    then have "\<exists>r' ws. prepare_writes r cs = Inr (r', ws) \<and>
        map (\<lambda>w. (write_key w, write_block w)) ws = filter (\<lambda>(k, b). unat (sealed_footprint b) \<le> c) cs"
      using Cons.prems(3)[OF list.set_intros(2)] by (intro Cons.IH[OF Cons.prems(1)])
    ultimately show ?thesis using None a x by (simp add: Let_def)
  next
    case (Some p)
    obtain start off where p: "p = (start, off)" by fastforce
    define e where "e = \<lparr>shard_id = next_shard r, begin_off = start, entry_len = ?sz,
        file_offset = off, entry_slots = slot_metas b\<rparr>"
    note al = a(1)[unfolded Some p]
    have "\<exists>r' ws. prepare_writes (place_entry r1 k e) cs = Inr (r', ws) \<and>
        map (\<lambda>w. (write_key w, write_block w)) ws = filter (\<lambda>(k, b). unat (sealed_footprint b) \<le> c) cs"
    proof (rule Cons.IH[OF place_entry_spec(1)[OF Cons.prems(1) al e_def]])
      show "capacity s = c \<and> head s + 2 * c * length cs < 2 ^ 64"
        if "s \<in> set (shards (place_entry r1 k e))" for s
        by (rule head_budget[OF Cons.prems(1) al e_def _ that]) (use Cons.prems(2) in simp)
    qed (use Cons.prems(3)[OF list.set_intros(2)] in blast)
    moreover have "prepare_writes r (x # cs) = bind_res (prepare_writes (place_entry r1 k e) cs)
        (\<lambda>(r', ws). Inr (r', \<lparr>write_key = k, write_block = b, write_entry = e\<rparr> # ws))"
      using al Cons.prems(3)[of k b] by (simp add: x Let_def place_entry_def e_def)
    ultimately show ?thesis using a(2) Some by (auto simp: x)
  qed
qed simp


section \<open>Prefix lookups\<close>

interpretation ssd_index: prefix_index ring_get ring_wf
  "\<lambda>r k e. entries r k = Some (Committed e) \<and> is_offset_valid r e \<and> entry_ok (shards r) e"
proof
  fix r k e assume "ring_wf r" "ring_get r k = Some e"
  then show "entries r k = Some (Committed e) \<and> is_offset_valid r e \<and> entry_ok (shards r) e"
    using ring_wf_entry[of r k] by (fastforce simp: ring_get_def split: option.splits entry_state.splits if_splits)
qed

lemma prefix_requests:
  "map_while (\<lambda>k. map_option (Pair k) (ring_get r k)) ks =
   zip ks (map_while (ring_get r) ks)"
  by (induction ks) (auto split: option.split)

lemma prefix_len_eq: "prefix_len r ks = length (map_while (ring_get r) ks)"
  unfolding prefix_len_def by (induction ks) (auto split: option.split)

text \<open>
  C31. \<open>submit_prefix\<close> finds exactly the \<open>prefix_len\<close> leading keys that are readable and
  no longer prefix is; when the queue accepts them the requests carry, in order, those keys
  with committed, unexpired entries that lie inside their shard files, and otherwise the
  completion channel is answered at once so that no waiter hangs.
\<close>

theorem submit_prefix_hits:
  assumes "ring_wf r" and "submit_prefix r accepted ks = (found, reqs, answered)"
  shows "found = prefix_len r ks \<and>
    (found < length ks \<longrightarrow> ring_get r (ks ! found) = None) \<and>
    answered = (found = 0 \<or> \<not> accepted) \<and>
    (\<not> answered \<longrightarrow> map fst reqs = take found ks) \<and>
    (\<forall>(k, e) \<in> set reqs. entries r k = Some (Committed e) \<and> is_offset_valid r e \<and>
       physical_range e \<subseteq> {..<capacity (shards r ! shard_id e)})"
proof -
  let ?hits = "map_while (ring_get r) ks"
  have reqs: "found = length ?hits" "reqs = (if found = 0 \<or> \<not> accepted then [] else zip ks ?hits)"
      "answered = (found = 0 \<or> \<not> accepted)"
    using assms(2) by (auto simp: submit_prefix_def prefix_requests Let_def split: if_splits)
  have "entries r k = Some (Committed e) \<and> is_offset_valid r e \<and>
      physical_range e \<subseteq> {..<capacity (shards r ! shard_id e)}" if "(k, e) \<in> set (zip ks ?hits)" for k e
  proof -
    from that obtain i where "i < length ?hits" "k = ks ! i" "e = ?hits ! i"
      by (fastforce simp: set_zip)
    with ssd_index.prefix_hits_guaranteed[OF assms(1), of i ks] show ?thesis
      by (auto simp: entry_ok_def physical_range_def)
  qed
  then have "\<forall>(k, e) \<in> set reqs. entries r k = Some (Committed e) \<and> is_offset_valid r e \<and>
      physical_range e \<subseteq> {..<capacity (shards r ! shard_id e)}" unfolding reqs(2) by auto
  moreover have "map fst (zip ks ?hits) = take (length ?hits) ks"
    by (simp add: map_fst_zip_take min_absorb2)
  ultimately show ?thesis using reqs map_while_stops[of "ring_get r" ks]
    unfolding prefix_len_eq by (intro conjI) simp_all
qed

section \<open>Two hazards of the index\<close>

definition key :: "u8 \<Rightarrow> block_key" where
  "key n = \<lparr>namespace = [], hash = [n]\<rparr>"

definition blk :: "u64 \<Rightarrow> sealed_block" where
  "blk n = \<lparr>sealed_slots = [], sealed_footprint = n, sealed_numas = []\<rparr>"

lemma key_eq [simp]: "key a = key b \<longleftrightarrow> a = b"
  by (simp add: key_def)

text \<open>A scripted run: batches (\<open>Inl\<close>) and commits (\<open>Inr\<close>) in sequence.\<close>

fun ring_script ::
  "ssd_ring \<Rightarrow> ((block_key \<times> sealed_block) list + block_key \<times> bool) list \<Rightarrow> ring_panic + ssd_ring" where
  "ring_script r [] = Inr r"
| "ring_script r (Inl cs # ops) = bind_res (prepare_batch r cs) (\<lambda>(r', _). ring_script r' ops)"
| "ring_script r (Inr (k, ok) # ops) = ring_script (fst (ring_commit r k ok)) ops"

lemma ring_script_run: "ring_script r ops = Inr r' \<Longrightarrow> ring_run r0 ws r \<Longrightarrow> \<exists>vs. ring_run r0 vs r'"
proof (induction r ops arbitrary: ws rule: ring_script.induct)
  case (2 r cs ops)
  then show ?case by (fastforce simp: res_simps intro: run_prepare)
next
  case (3 r k ok ops)
  then show ?case by (metis ring_script.simps(3) run_commit prod.collapse)
qed auto

lemmas ring_eval = prepare_batch_def allocate_contiguous_def advance_tail_def add_offset_def
  ring_commit_def is_offset_valid_def blk_def slot_metas_def Let_def

definition ring100 :: ssd_ring where
  "ring100 = \<lparr>shards = [\<lparr>capacity = 100, head = 0, tail = 0, order = []\<rparr>],
              next_shard = 0, entries = Map.empty\<rparr>"

lemma ring100_new: "new_sharded [100] = Inr ring100"
  by (simp add: new_sharded_def ring100_def)



section \<open>Witnesses\<close>

definition entry_at :: "nat \<Rightarrow> nat \<Rightarrow> index_entry" where
  "entry_at b n = \<lparr>shard_id = 0, begin_off = b, entry_len = n, file_offset = b, entry_slots = []\<rparr>"

definition ring_two :: ssd_ring where
  "ring_two = \<lparr>shards = [\<lparr>capacity = 100, head = 50, tail = 0, order = [key 1, key 2]\<rparr>], next_shard = 0,
     entries = [key 1 \<mapsto> Committed (entry_at 0 10), key 2 \<mapsto> Writing (entry_at 10 40)]\<rparr>"

definition ring_one :: ssd_ring where
  "ring_one = \<lparr>shards = [\<lparr>capacity = 100, head = 10, tail = 0, order = [key 1]\<rparr>], next_shard = 0,
     entries = [key 1 \<mapsto> Committed (entry_at 0 10)]\<rparr>"

lemma ring_one_run: "\<exists>ws. ring_run ring100 ws ring_one"
proof (rule ring_script_run[OF _ run_refl])
  show "ring_script ring100 [Inl [(key 1, blk 10)], Inr (key 1, True)] = Inr ring_one"
    by (simp add: ring100_def ring_eval ring_one_def entry_at_def)
qed

lemma ring_two_prepare:
  "prepare_batch ring_one [(key 2, blk 40)] =
     Inr (ring_two, [\<lparr>write_key = key 2, write_block = blk 40, write_entry = entry_at 10 40\<rparr>])"
  by (auto simp: ring_eval ring_one_def ring_two_def entry_at_def fun_upd_def)

lemma ring_two_run:
  "ring_run ring_one [\<lparr>write_key = key 2, write_block = blk 40, write_entry = entry_at 10 40\<rparr>] ring_two"
  using run_prepare[OF run_refl ring_two_prepare] by simp

theorem valid_ranges_disjoint_witness:
  "physical_range (entry_at 0 10) \<inter> physical_range (entry_at 10 40) = {} \<and>
   physical_range (entry_at 0 10) \<subseteq> {..<100}"
proof -
  obtain ws where "ring_run ring100 ws ring_one" using ring_one_run by blast
  then have run: "ring_run ring100 (ws @ [\<lparr>write_key = key 2, write_block = blk 40, write_entry = entry_at 10 40\<rparr>])
      ring_two"
    using ring_two_prepare by (rule run_prepare)
  have e1: "entries ring_two (key 1) = Some (Committed (entry_at 0 10))"
      "is_offset_valid ring_two (entry_of (Committed (entry_at 0 10)))"
    and e2: "entries ring_two (key 2) = Some (Writing (entry_at 10 40))"
      "is_offset_valid ring_two (entry_of (Writing (entry_at 10 40)))"
      "shard_id (entry_at 10 40) = shard_id (entry_at 0 10)"
      "capacity (shards ring_two ! shard_id (entry_at 0 10)) = 100"
    by (simp_all add: ring_two_def is_offset_valid_def entry_at_def)
  note v = valid_ranges_disjoint[OF ring100_new run e1]
  from conjunct2[OF v, rule_format, of "key 2" "Writing (entry_at 10 40)"] conjunct1[OF v] e2
  show ?thesis by simp
qed

theorem validated_read_not_overwritten_witness:
  "ring_get ring_one (key 1) = Some (entry_at 0 10) \<and>
   physical_range (entry_at 0 10) \<inter> physical_range (entry_at 10 40) = {}"
proof -
  obtain ws where run: "ring_run ring100 ws ring_one" using ring_one_run by blast
  have get: "ring_get ring_one (key 1) = Some (entry_at 0 10)"
    by (simp add: ring_get_def ring_one_def is_offset_valid_def entry_at_def)
  have "is_offset_valid ring_two (entry_at 0 10)" by (simp add: ring_two_def is_offset_valid_def entry_at_def)
  from validated_read_not_overwritten[OF ring100_new run get ring_two_run this]
  show ?thesis using get by (simp add: entry_at_def)
qed

theorem commit_contract_witness:
  "\<exists>r. ring_commit ring_two (key 2) True = (r, True) \<and> ring_get r (key 2) = Some (entry_at 10 40) \<and>
     ring_get r (key 1) = ring_get ring_two (key 1)"
proof -
  have "ring_commit ring_two (key 2) True =
      (ring_two\<lparr>entries := (entries ring_two)(key 2 \<mapsto> Committed (entry_at 10 40))\<rparr>, True)"
    by (simp add: ring_commit_def ring_two_def is_offset_valid_def entry_at_def)
  from commit_contract[OF this] this show ?thesis
    by (simp add: ring_two_def is_offset_valid_def entry_at_def)
qed


theorem submit_prefix_hits_witness:
  "ring_wf ring_one \<and> submit_prefix ring_one True [key 1, key 2] = (1, [(key 1, entry_at 0 10)], False) \<and>
   prefix_len ring_one [key 1, key 2] = 1"
proof -
  obtain us where run: "ring_run ring100 us ring_one" using ring_one_run by blast
  have wf: "ring_wf ring_one" using ring_run_spec[OF run new_sharded_wf[OF ring100_new]] by simp
  have "submit_prefix ring_one True [key 1, key 2] = (1, [(key 1, entry_at 0 10)], False)"
    by (simp add: submit_prefix_def ring_get_def ring_one_def is_offset_valid_def entry_at_def)
  from submit_prefix_hits[OF wf this] this wf show ?thesis by simp
qed

end
