(* ===== verification/Ssd_Prefetch.thy ===== *)
theory Ssd_Prefetch
  imports Ssd_Ring
begin

text \<open>
  The SSD prefetch pipeline (\<open>pegaflow-core/src/backing/ssd_cache.rs\<close>): grouping the
  slots of a batch by NUMA node, cutting each group into bounded chunks, placing every slot
  in an allocation, rebuilding blocks after the read, and the context that collects the
  results of a batch. The pinned-memory allocator is the closure the store was built with,
  here the argument \<open>allocate_fn\<close>, which threads its own state. The iteration order of the
  NUMA \<open>HashMap\<close> is the argument \<open>ks\<close>. The I/O itself is an outcome argument.
\<close>

section \<open>Grouping and chunking\<close>

record slot_ref =
  ref_block :: nat
  ref_slot :: nat
  ref_size :: nat

record slot_placement =
  place_block :: nat
  place_slot :: nat
  place_offset :: nat

record prefetch_chunk =
  chunk_capacity :: nat
  chunk_size :: nat
  chunk_slots :: "slot_placement list"

datatype chunk_error =
    SizeOverflow \<comment> \<open>the \<open>Err\<close> of \<open>chunk_slot_refs\<close>\<close>
  | ZeroChunkBytes
  | FirstSlotMustFit
  | RemainingMustCover

definition ssd_prefetch_chunk_bytes :: nat where
  "ssd_prefetch_chunk_bytes = 256 * 1024 * 1024"

definition numa_key :: "bool \<Rightarrow> slot_meta \<Rightarrow> numa_node option" where
  "numa_key is_numa m =
     (if is_numa then if is_unknown (meta_numa m) then None else Some (meta_numa m) else None)"

text \<open>The slots of all requests in the order of the two nested loops, with their NUMA key.\<close>

definition slot_refs :: "bool \<Rightarrow> slot_meta list list \<Rightarrow> (numa_node option \<times> slot_ref) list" where
  "slot_refs is_numa reqs =
     concat (map (\<lambda>(i, metas).
       map (\<lambda>(j, m). (numa_key is_numa m,
                       \<lparr>ref_block = i, ref_slot = j, ref_size = unat (meta_total_size m)\<rparr>))
         (enumerate 0 metas)) (enumerate 0 reqs))"

definition group_slots_by_numa ::
  "bool \<Rightarrow> slot_meta list list \<Rightarrow> (numa_node option \<rightharpoonup> slot_ref list)" where
  "group_slots_by_numa is_numa reqs = foldl entry_push Map.empty (slot_refs is_numa reqs)"

definition checked_add64 :: "nat \<Rightarrow> nat \<Rightarrow> nat option" where
  "checked_add64 a b = (if a + b < 2 ^ 64 then Some (a + b) else None)"

fun total_size :: "nat \<Rightarrow> slot_ref list \<Rightarrow> chunk_error + nat" where
  "total_size acc [] = Inr acc"
| "total_size acc (s # ss) =
     bind_res (ok_or (checked_add64 acc (ref_size s)) SizeOverflow) (\<lambda>acc'. total_size acc' ss)"

definition needs_new_chunk :: "prefetch_chunk option \<Rightarrow> slot_ref \<Rightarrow> bool" where
  "needs_new_chunk cur s =
     (case cur of
        None \<Rightarrow> True
      | Some c \<Rightarrow> (case checked_add64 (chunk_size c) (ref_size s) of
                    None \<Rightarrow> True
                  | Some e \<Rightarrow> chunk_capacity c < e))"

fun chunk_loop ::
  "nat \<Rightarrow> nat \<Rightarrow> prefetch_chunk option \<Rightarrow> slot_ref list \<Rightarrow> chunk_error + prefetch_chunk list" where
  "chunk_loop chunk_bytes rem cur [] = Inr (case cur of None \<Rightarrow> [] | Some c \<Rightarrow> [c])"
| "chunk_loop chunk_bytes rem cur (s # ss) =
     (let fresh = needs_new_chunk cur s;
          closed = (if fresh then (case cur of None \<Rightarrow> [] | Some c \<Rightarrow> [c]) else []);
          c = (if fresh
               then \<lparr>chunk_capacity = max (min rem chunk_bytes) (ref_size s), chunk_size = 0, chunk_slots = []\<rparr>
               else the cur)
      in bind_res (ok_or (checked_add64 (chunk_size c) (ref_size s)) FirstSlotMustFit) (\<lambda>sz.
         if rem < ref_size s then Inl RemainingMustCover
         else bind_res (chunk_loop chunk_bytes (rem - ref_size s)
                 (Some (c\<lparr>chunk_slots := chunk_slots c @ [\<lparr>place_block = ref_block s,
                            place_slot = ref_slot s, place_offset = chunk_size c\<rparr>],
                          chunk_size := sz\<rparr>)) ss)
               (\<lambda>cs. Inr (closed @ cs))))"

definition chunk_slot_refs :: "slot_ref list \<Rightarrow> nat \<Rightarrow> chunk_error + prefetch_chunk list" where
  "chunk_slot_refs refs chunk_bytes =
     (if chunk_bytes = 0 then Inl ZeroChunkBytes
      else bind_res (total_size 0 refs) (\<lambda>rem. chunk_loop chunk_bytes rem None refs))"

section \<open>Chunking covers every slot once, in order\<close>

fun placements_from :: "nat \<Rightarrow> slot_ref list \<Rightarrow> slot_placement list" where
  "placements_from off [] = []"
| "placements_from off (r # rs) =
     \<lparr>place_block = ref_block r, place_slot = ref_slot r, place_offset = off\<rparr> #
     placements_from (off + ref_size r) rs"

definition refs_size :: "slot_ref list \<Rightarrow> nat" where
  "refs_size rs = sum_list (map ref_size rs)"

lemma refs_size_simps [simp]:
  "refs_size [] = 0" "refs_size (r # rs) = ref_size r + refs_size rs"
  "refs_size (rs @ ss) = refs_size rs + refs_size ss"
  by (simp_all add: refs_size_def)

lemma placements_append:
  "placements_from off (rs @ ss) = placements_from off rs @ placements_from (off + refs_size rs) ss"
  by (induction rs arbitrary: off) (simp_all add: add.assoc)

definition chunk_of :: "nat \<Rightarrow> prefetch_chunk \<Rightarrow> slot_ref list \<Rightarrow> bool" where
  "chunk_of chunk_bytes c rs \<longleftrightarrow>
     rs \<noteq> [] \<and> chunk_slots c = placements_from 0 rs \<and> chunk_size c = refs_size rs \<and>
     chunk_size c \<le> chunk_capacity c \<and> chunk_capacity c \<le> max chunk_bytes (ref_size (hd rs))"

lemma total_size_eq:
  "acc < 2 ^ 64 \<Longrightarrow>
   total_size acc ss = (if acc + refs_size ss < 2 ^ 64 then Inr (acc + refs_size ss) else Inl SizeOverflow)"
  by (induction ss arbitrary: acc) (auto simp: checked_add64_def)

lemma chunk_loop_spec:
  assumes "chunk_of cb c rs" and "rem = refs_size ss" and "refs_size rs + refs_size ss < 2 ^ 64"
  shows "\<exists>cs rss. chunk_loop cb rem (Some c) ss = Inr cs \<and> concat rss = rs @ ss \<and>
    list_all2 (chunk_of cb) cs rss"
  using assms
proof (induction ss arbitrary: c rs rem)
  case Nil
  then show ?case by (intro exI[of _ "[c]"] exI[of _ "[rs]"]) simp
next
  case (Cons s ss)
  let ?p = "\<lambda>off. \<lparr>place_block = ref_block s, place_slot = ref_slot s, place_offset = off\<rparr>"
  show ?case
  proof (cases "needs_new_chunk (Some c) s")
    case True
    let ?c = "\<lparr>chunk_capacity = max (min rem cb) (ref_size s), chunk_size = ref_size s, chunk_slots = [?p 0]\<rparr>"
    have "chunk_of cb ?c [s]" by (auto simp: chunk_of_def)
    from Cons.IH[OF this refl] Cons.prems obtain cs rss where
      "chunk_loop cb (refs_size ss) (Some ?c) ss = Inr cs" "concat rss = [s] @ ss" "list_all2 (chunk_of cb) cs rss"
      by auto
    with True Cons.prems show ?thesis
      by (intro exI[of _ "c # cs"] exI[of _ "rs # rss"]) (simp add: Let_def checked_add64_def)
  next
    case False
    let ?c = "c\<lparr>chunk_slots := chunk_slots c @ [?p (chunk_size c)], chunk_size := chunk_size c + ref_size s\<rparr>"
    have fits: "chunk_size c + ref_size s \<le> chunk_capacity c" "chunk_size c + ref_size s < 2 ^ 64"
      using False by (auto simp: needs_new_chunk_def checked_add64_def split: if_splits)
    have "chunk_of cb ?c (rs @ [s])"
      using Cons.prems(1) fits by (auto simp: chunk_of_def placements_append)
    from Cons.IH[OF this refl] Cons.prems obtain cs rss where
      "chunk_loop cb (refs_size ss) (Some ?c) ss = Inr cs" "concat rss = rs @ s # ss" "list_all2 (chunk_of cb) cs rss"
      by auto
    with False fits Cons.prems show ?thesis by (auto simp: Let_def checked_add64_def)
  qed
qed

lemma chunk_slot_refs_total:
  "0 < chunk_bytes \<Longrightarrow> 2 ^ 64 \<le> refs_size refs \<Longrightarrow> chunk_slot_refs refs chunk_bytes = Inl SizeOverflow"
  by (simp add: chunk_slot_refs_def total_size_eq)

lemma chunk_slot_refs_chunks:
  assumes "0 < chunk_bytes" and lt: "refs_size refs < 2 ^ 64"
  shows "\<exists>cs rss. chunk_slot_refs refs chunk_bytes = Inr cs \<and> concat rss = refs \<and>
    list_all2 (chunk_of chunk_bytes) cs rss"
proof (cases refs)
  case Nil
  then show ?thesis using assms by (auto simp: chunk_slot_refs_def intro!: exI[of _ "[]"])
next
  case (Cons s ss)
  have tot: "total_size 0 refs = Inr (refs_size refs)" using lt by (simp add: total_size_eq)
  let ?c = "\<lparr>chunk_capacity = max (min (refs_size refs) chunk_bytes) (ref_size s), chunk_size = ref_size s,
      chunk_slots = [\<lparr>place_block = ref_block s, place_slot = ref_slot s, place_offset = 0\<rparr>]\<rparr>"
  have "chunk_of chunk_bytes ?c [s]" by (auto simp: chunk_of_def)
  from chunk_loop_spec[OF this refl, of ss] lt Cons obtain cs rss where
    "chunk_loop chunk_bytes (refs_size ss) (Some ?c) ss = Inr cs" "concat rss = refs"
    "list_all2 (chunk_of chunk_bytes) cs rss" by auto
  moreover from this(1) have "chunk_slot_refs refs chunk_bytes = Inr cs"
    using assms tot lt Cons by (simp add: chunk_slot_refs_def needs_new_chunk_def Let_def checked_add64_def)
  ultimately show ?thesis by blast
qed

text \<open>
  Chunking fails only when the sizes of the group do not fit in 64 bits; it never
  reaches one of its panics. Otherwise the chunks cut the slots of the group into consecutive
  non-empty runs: each chunk places the slots of its run one after the other from offset 0,
  is exactly as large as they are together, and exceeds the bound only for a single
  oversized first slot.
\<close>

theorem chunk_slot_refs_partition:
  assumes "0 < chunk_bytes"
  shows "(refs_size refs \<ge> 2 ^ 64 \<longrightarrow> chunk_slot_refs refs chunk_bytes = Inl SizeOverflow) \<and>
    (refs_size refs < 2 ^ 64 \<longrightarrow>
      (\<exists>cs rss. chunk_slot_refs refs chunk_bytes = Inr cs \<and> concat rss = refs \<and>
         list_all2 (\<lambda>c rs. rs \<noteq> [] \<and> chunk_slots c = placements_from 0 rs \<and>
           chunk_size c = refs_size rs \<and> chunk_size c \<le> max chunk_bytes (ref_size (hd rs))) cs rss))"
proof -
  have weaken: "list_all2 (\<lambda>c rs. rs \<noteq> [] \<and> chunk_slots c = placements_from 0 rs \<and>
      chunk_size c = refs_size rs \<and> chunk_size c \<le> max chunk_bytes (ref_size (hd rs))) cs rss"
    if "list_all2 (chunk_of chunk_bytes) cs rss" for cs rss
    using that by (rule list_all2_mono) (auto simp: chunk_of_def)
  show ?thesis
    using chunk_slot_refs_total[OF assms] chunk_slot_refs_chunks[OF assms] weaken by blast
qed

section \<open>Placing a batch\<close>

record slot_alloc =
  sa_allocation :: pinned_allocation
  sa_offset :: usize

datatype dispatch_panic =
    ChunkPanic chunk_error
  | SlotIndexOutOfRange
  | MissingGroup
  | MissingAllocation

type_synonym slot_allocs = "slot_alloc option list list"

fun place_slots ::
  "pinned_allocation \<Rightarrow> slot_placement list \<Rightarrow> slot_allocs \<Rightarrow> dispatch_panic + slot_allocs" where
  "place_slots a [] sas = Inr sas"
| "place_slots a (p # ps) sas =
     (if length sas \<le> place_block p \<or> length (sas ! place_block p) \<le> place_slot p
      then Inl SlotIndexOutOfRange
      else place_slots a ps
        (sas[place_block p := (sas ! place_block p)[place_slot p :=
               Some \<lparr>sa_allocation = a, sa_offset = of_nat (place_offset p)\<rparr>]]))"

text \<open>The chunks of one group. \<open>None\<close> stands for the failed batch.\<close>

fun place_chunks ::
  "('p \<Rightarrow> nat \<Rightarrow> numa_node option \<Rightarrow> pinned_allocation option \<times> 'p) \<Rightarrow> 'p \<Rightarrow> numa_node option \<Rightarrow>
   prefetch_chunk list \<Rightarrow> slot_allocs \<Rightarrow> dispatch_panic + (slot_allocs option \<times> 'p)" where
  "place_chunks allocate_fn st numa [] sas = Inr (Some sas, st)"
| "place_chunks allocate_fn st numa (c # cs) sas =
     (case allocate_fn st (chunk_size c) numa of
        (None, st') \<Rightarrow> Inr (None, st')
      | (Some a, st') \<Rightarrow>
          bind_res (place_slots a (chunk_slots c) sas) (place_chunks allocate_fn st' numa cs))"

fun place_groups ::
  "('p \<Rightarrow> nat \<Rightarrow> numa_node option \<Rightarrow> pinned_allocation option \<times> 'p) \<Rightarrow> 'p \<Rightarrow>
   (numa_node option \<rightharpoonup> slot_ref list) \<Rightarrow> numa_node option list \<Rightarrow> slot_allocs \<Rightarrow>
   dispatch_panic + (slot_allocs option \<times> 'p)" where
  "place_groups allocate_fn st g [] sas = Inr (Some sas, st)"
| "place_groups allocate_fn st g (k # ks) sas =
     (case g k of
        None \<Rightarrow> Inl MissingGroup
      | Some refs \<Rightarrow>
          (case chunk_slot_refs refs ssd_prefetch_chunk_bytes of
             Inl SizeOverflow \<Rightarrow> Inr (None, st)
           | Inl e \<Rightarrow> Inl (ChunkPanic e)
           | Inr cs \<Rightarrow>
               bind_res (place_chunks allocate_fn st k cs sas) (\<lambda>(placed, st').
                 case placed of
                   None \<Rightarrow> Inr (None, st')
                 | Some sas' \<Rightarrow> place_groups allocate_fn st' g ks sas')))"

fun expect_allocs :: "slot_alloc option list \<Rightarrow> dispatch_panic + slot_alloc list" where
  "expect_allocs [] = Inr []"
| "expect_allocs (None # xs) = Inl MissingAllocation"
| "expect_allocs (Some a # xs) = bind_res (expect_allocs xs) (\<lambda>as. Inr (a # as))"

fun task_allocs :: "slot_allocs \<Rightarrow> dispatch_panic + slot_alloc list list" where
  "task_allocs [] = Inr []"
| "task_allocs (r # rs) =
     bind_res (expect_allocs r) (\<lambda>as. bind_res (task_allocs rs) (\<lambda>ass. Inr (as # ass)))"

text \<open>
  \<open>dispatch_prefetch_batch\<close> up to the enqueueing: one list of slot allocations per request,
  or \<open>None\<close> when the batch was failed with an empty result.
\<close>

definition dispatch_allocs ::
  "('p \<Rightarrow> nat \<Rightarrow> numa_node option \<Rightarrow> pinned_allocation option \<times> 'p) \<Rightarrow> 'p \<Rightarrow> bool \<Rightarrow>
   numa_node option list \<Rightarrow> slot_meta list list \<Rightarrow> dispatch_panic + (slot_alloc list list option \<times> 'p)" where
  "dispatch_allocs allocate_fn st is_numa ks reqs =
     bind_res (place_groups allocate_fn st (group_slots_by_numa is_numa reqs) ks
                 (map (\<lambda>metas. replicate (length metas) None) reqs))
       (\<lambda>(placed, st'). case placed of
          None \<Rightarrow> Inr (None, st')
        | Some sas \<Rightarrow> bind_res (task_allocs sas) (\<lambda>ass. Inr (Some ass, st')))"

subsection \<open>Every slot gets room\<close>

definition alloc_contract ::
  "('p \<Rightarrow> nat \<Rightarrow> numa_node option \<Rightarrow> pinned_allocation option \<times> 'p) \<Rightarrow> bool" where
  "alloc_contract allocate_fn \<longleftrightarrow>
     (\<forall>st n numa a st'. allocate_fn st n numa = (Some a, st') \<longrightarrow>
        allocation_wf a \<and> n \<le> unat (alloc_size_bytes a))"

definition room :: "nat \<Rightarrow> slot_alloc \<Rightarrow> bool" where
  "room sz sa \<longleftrightarrow>
     allocation_wf (sa_allocation sa) \<and>
     unat (sa_offset sa) + sz \<le> unat (alloc_size_bytes (sa_allocation sa))"

definition slot_bytes :: "slot_meta list list \<Rightarrow> nat \<Rightarrow> nat \<Rightarrow> nat" where
  "slot_bytes reqs i j = unat (meta_total_size (reqs ! i ! j))"

definition ref_valid :: "slot_meta list list \<Rightarrow> slot_ref \<Rightarrow> bool" where
  "ref_valid reqs r \<longleftrightarrow>
     ref_block r < length reqs \<and> ref_slot r < length (reqs ! ref_block r) \<and>
     ref_size r = slot_bytes reqs (ref_block r) (ref_slot r)"

text \<open>
  The array has the shape of the requests, every filled cell has room for its slot, and the
  cells in \<open>S\<close> are filled.
\<close>

definition filled :: "slot_meta list list \<Rightarrow> (nat \<times> nat) set \<Rightarrow> slot_allocs \<Rightarrow> bool" where
  "filled reqs S sas \<longleftrightarrow>
     map length sas = map length reqs \<and>
     (\<forall>i j sa. i < length reqs \<and> j < length (reqs ! i) \<and> sas ! i ! j = Some sa \<longrightarrow>
        room (slot_bytes reqs i j) sa) \<and>
     (\<forall>i j. (i, j) \<in> S \<longrightarrow> i < length reqs \<and> j < length (reqs ! i) \<and> sas ! i ! j \<noteq> None)"

definition ref_cell :: "slot_ref \<Rightarrow> nat \<times> nat" where
  "ref_cell r = (ref_block r, ref_slot r)"

lemma filled_shape:
  assumes "filled reqs S sas"
  shows "length sas = length reqs" "i < length reqs \<Longrightarrow> length (sas ! i) = length (reqs ! i)"
proof -
  have eq: "map length sas = map length reqs" using assms by (simp add: filled_def)
  then show "length sas = length reqs" by (metis length_map)
  then show "i < length reqs \<Longrightarrow> length (sas ! i) = length (reqs ! i)" using eq by (metis nth_map)
qed

lemma filled_update:
  assumes f: "filled reqs S sas" and i: "i < length reqs" and j: "j < length (reqs ! i)"
    and r: "room (slot_bytes reqs i j) sa"
  shows "filled reqs (insert (i, j) S) (sas[i := (sas ! i)[j := Some sa]])"
proof -
  note sh = filled_shape[OF f]
  have "map length (sas[i := (sas ! i)[j := Some sa]]) = map length sas"
    by (simp add: map_update list_update_same_conv sh i)
  then show ?thesis using assms sh
    unfolding filled_def by (auto simp: nth_list_update)
qed

lemma place_slots_filled:
  assumes "filled reqs S sas" and "\<forall>r \<in> set rs. ref_valid reqs r" and "allocation_wf a"
    and "off + refs_size rs \<le> unat (alloc_size_bytes a)"
  shows "\<exists>sas'. place_slots a (placements_from off rs) sas = Inr sas' \<and>
    filled reqs (S \<union> ref_cell ` set rs) sas'"
  using assms
proof (induction rs arbitrary: S sas off)
  case (Cons r rs)
  let ?sa = "\<lparr>sa_allocation = a, sa_offset = of_nat off :: usize\<rparr>"
  have v: "ref_block r < length reqs" "ref_slot r < length (reqs ! ref_block r)"
      "ref_size r = slot_bytes reqs (ref_block r) (ref_slot r)"
    using Cons.prems(2) by (simp_all add: ref_valid_def)
  have "off < 2 ^ 64" using Cons.prems(4) unat_lt_pow[of "alloc_size_bytes a"] by simp
  then have "unat (of_nat off :: usize) = off" by (simp add: unsigned_of_nat take_bit_nat_eq_self)
  then have "room (slot_bytes reqs (ref_block r) (ref_slot r)) ?sa"
    using Cons.prems(3,4) v(3) by (simp add: room_def)
  note f = filled_update[OF Cons.prems(1) v(1,2) this]
  from Cons.IH[OF f, of "off + ref_size r"] Cons.prems
  show ?case using v filled_shape[OF Cons.prems(1)] by (simp add: ref_cell_def)
qed simp

lemma filled_mono: "filled reqs S sas \<Longrightarrow> T \<subseteq> S \<Longrightarrow> filled reqs T sas"
  by (auto simp: filled_def)

lemma place_chunks_filled:
  assumes "alloc_contract allocate_fn" and "filled reqs S sas"
    and "list_all2 (\<lambda>c rs. chunk_slots c = placements_from 0 rs \<and> chunk_size c = refs_size rs) cs rss"
    and "\<forall>r \<in> set (concat rss). ref_valid reqs r"
  shows "\<exists>placed st'. place_chunks allocate_fn st numa cs sas = Inr (placed, st') \<and>
    (\<forall>sas'. placed = Some sas' \<longrightarrow> filled reqs (S \<union> ref_cell ` set (concat rss)) sas')"
  using assms(2-)
proof (induction cs arbitrary: S sas st rss)
  case (Cons c cs)
  then obtain rs rss' where rss: "rss = rs # rss'" "chunk_slots c = placements_from 0 rs"
      "chunk_size c = refs_size rs"
      "list_all2 (\<lambda>c rs. chunk_slots c = placements_from 0 rs \<and> chunk_size c = refs_size rs) cs rss'"
    by (auto simp: list_all2_Cons1)
  obtain oa st' where al: "allocate_fn st (chunk_size c) numa = (oa, st')" by fastforce
  show ?case
  proof (cases oa)
    case None
    then show ?thesis using al by simp
  next
    case (Some a)
    then have a: "allocation_wf a" "refs_size rs \<le> unat (alloc_size_bytes a)"
      using al assms(1) rss(3) unfolding alloc_contract_def by metis+
    obtain sas1 where s1: "place_slots a (placements_from 0 rs) sas = Inr sas1"
        "filled reqs (S \<union> ref_cell ` set rs) sas1"
      using place_slots_filled[OF Cons.prems(1), of rs a 0] Cons.prems(3) a rss(1) by auto
    from Cons.IH[OF s1(2) rss(4), of st'] Cons.prems(3) rss(1)
    show ?thesis using al Some s1(1) rss(1,2) by (auto simp: Un_assoc image_Un)
  qed
qed simp

lemma place_groups_filled:
  assumes c: "alloc_contract allocate_fn" and "filled reqs S sas"
    and "\<And>k. k \<in> set ks \<Longrightarrow> \<exists>refs. g k = Some refs \<and> (\<forall>r \<in> set refs. ref_valid reqs r)"
  shows "\<exists>placed st'. place_groups allocate_fn st g ks sas = Inr (placed, st') \<and>
    (\<forall>sas'. placed = Some sas' \<longrightarrow>
       filled reqs (S \<union> (\<Union>k \<in> set ks. ref_cell ` set (the (g k)))) sas')"
  using assms(2-)
proof (induction ks arbitrary: S sas st)
  case (Cons k ks)
  obtain refs where g: "g k = Some refs" "\<forall>r \<in> set refs. ref_valid reqs r"
    using Cons.prems(2)[of k] by auto
  have pos: "0 < ssd_prefetch_chunk_bytes" by (simp add: ssd_prefetch_chunk_bytes_def)
  show ?case
  proof (cases "refs_size refs < 2 ^ 64")
    case False
    then have "chunk_slot_refs refs ssd_prefetch_chunk_bytes = Inl SizeOverflow"
      using chunk_slot_refs_total[OF pos] by simp
    then show ?thesis using g by simp
  next
    case True
    obtain cs rss where cs: "chunk_slot_refs refs ssd_prefetch_chunk_bytes = Inr cs" "concat rss = refs"
        "list_all2 (chunk_of ssd_prefetch_chunk_bytes) cs rss"
      using chunk_slot_refs_chunks[OF pos True] by blast
    have l2: "list_all2 (\<lambda>c rs. chunk_slots c = placements_from 0 rs \<and> chunk_size c = refs_size rs) cs rss"
      using cs(3) by (rule list_all2_mono) (simp add: chunk_of_def)
    obtain placed st' where p: "place_chunks allocate_fn st k cs sas = Inr (placed, st')"
        "\<And>sas'. placed = Some sas' \<Longrightarrow> filled reqs (S \<union> ref_cell ` set refs) sas'"
      using place_chunks_filled[OF c Cons.prems(1) l2, of st k] g(2) cs(2) by auto
    show ?thesis
    proof (cases placed)
      case None
      then show ?thesis using g cs p by simp
    next
      case (Some sas1)
      from Cons.IH[OF p(2)[OF Some], of st'] Cons.prems(2)
      show ?thesis using g cs p Some by (auto simp: Un_assoc)
    qed
  qed
qed simp

lemma slot_refs_valid: "(k, r) \<in> set (slot_refs is_numa reqs) \<Longrightarrow> ref_valid reqs r"
  by (auto simp: slot_refs_def ref_valid_def slot_bytes_def in_set_enumerate_eq)

lemma slot_refs_cover:
  "i < length reqs \<Longrightarrow> j < length (reqs ! i) \<Longrightarrow>
   \<exists>x \<in> set (slot_refs is_numa reqs). ref_cell (snd x) = (i, j)"
  unfolding slot_refs_def
  by (rule bexI[of _ "(numa_key is_numa (reqs ! i ! j), \<lparr>ref_block = i, ref_slot = j,
        ref_size = unat (meta_total_size (reqs ! i ! j))\<rparr>)"])
     (auto simp: ref_cell_def in_set_enumerate_eq image_iff intro!: bexI[of _ "(i, reqs ! i)"] bexI[of _ "(j, reqs ! i ! j)"])

lemma expect_allocs_eq: "expect_allocs xs = Inr as \<longleftrightarrow> xs = map Some as"
proof (induction xs arbitrary: as rule: expect_allocs.induct)
  case (3 a xs)
  then show ?case by (cases as; cases "expect_allocs xs") (auto simp: res_simps)
qed auto

lemma task_allocs_eq: "task_allocs sas = Inr ass \<longleftrightarrow> sas = map (map Some) ass"
proof (induction sas arbitrary: ass)
  case (Cons r rs)
  then show ?case by (cases ass) (auto simp: res_simps expect_allocs_eq)
qed auto

text \<open>
  As long as the allocator returns regions at least as large as requested, the dispatcher
  never panics, whatever order it visits the NUMA groups in: either the batch is failed as a
  whole, or every slot of every request has an allocation and an offset with room for it.
\<close>

theorem dispatch_gives_every_slot_room:
  assumes "alloc_contract allocate_fn" and "set ks = dom (group_slots_by_numa is_numa reqs)"
  shows "\<exists>res st'. dispatch_allocs allocate_fn st is_numa ks reqs = Inr (res, st') \<and>
    (\<forall>ass. res = Some ass \<longrightarrow> map length ass = map length reqs \<and>
       (\<forall>i < length reqs. \<forall>j < length (reqs ! i). room (slot_bytes reqs i j) (ass ! i ! j)))"
proof -
  let ?g = "group_slots_by_numa is_numa reqs" and ?xs = "slot_refs is_numa reqs"
  let ?init = "map (\<lambda>metas. replicate (length metas) (None :: slot_alloc option)) reqs"
  have "filled reqs {} ?init" by (auto simp: filled_def)
  moreover have "\<exists>refs. ?g k = Some refs \<and> (\<forall>r \<in> set refs. ref_valid reqs r)" if "k \<in> set ks" for k
    using that assms(2) slot_refs_valid[of _ _ is_numa reqs]
    by (auto simp: group_slots_by_numa_def entry_push_fold split: if_splits)
  ultimately obtain placed st' where p: "place_groups allocate_fn st ?g ks ?init = Inr (placed, st')"
      "\<And>sas. placed = Some sas \<Longrightarrow> filled reqs (\<Union>k \<in> set ks. ref_cell ` set (the (?g k))) sas"
    using place_groups_filled[OF assms(1), of reqs "{}" ?init ks ?g st] by auto
  show ?thesis
  proof (cases placed)
    case None
    then show ?thesis using p(1) by (simp add: dispatch_allocs_def)
  next
    case (Some sas)
    note f = p(2)[OF Some]
    have cell: "sas ! i ! j \<noteq> None" if ij: "i < length reqs" "j < length (reqs ! i)" for i j
    proof -
      obtain x where x: "x \<in> set ?xs" "ref_cell (snd x) = (i, j)" using slot_refs_cover[OF ij] by blast
      have "fst x \<in> dom ?g" "snd x \<in> set (the (?g (fst x)))"
        using x(1) by (auto simp: group_slots_by_numa_def entry_push_fold filter_empty_conv)
      then have "(i, j) \<in> (\<Union>k \<in> set ks. ref_cell ` set (the (?g k)))" using x(2) assms(2) by force
      then show ?thesis using f by (simp add: filled_def)
    qed
    note sh = filled_shape[OF f]
    define ass where "ass = map (map the) sas"
    have "sas = map (map Some) ass"
      unfolding ass_def map_map by (rule nth_equalityI) (use cell sh in \<open>auto intro!: nth_equalityI\<close>)
    then have t: "task_allocs sas = Inr ass" by (simp add: task_allocs_eq)
    have "map length ass = map length reqs" using f by (simp add: filled_def ass_def comp_def)
    moreover have "room (slot_bytes reqs i j) (ass ! i ! j)" if "i < length reqs" "j < length (reqs ! i)" for i j
      using that cell[OF that] f sh by (auto simp: filled_def ass_def)
    ultimately show ?thesis using p(1) Some t by (simp add: dispatch_allocs_def)
  qed
qed

section \<open>Rebuilding a block after the read\<close>

fun rebuild_slots ::
  "slot_alloc list \<Rightarrow> slot_meta list \<Rightarrow> block_panic + (raw_block \<times> numa_node) list" where
  "rebuild_slots (sa # sas) (m # ms) =
     bind_res (reconstruct_raw_block m (sa_allocation sa) (sa_offset sa)) (\<lambda>raw.
       bind_res (rebuild_slots sas ms) (\<lambda>rest. Inr ((raw, meta_numa m) # rest)))"
| "rebuild_slots _ _ = Inr []"

definition rebuild_sealed_block_per_slot ::
  "slot_alloc list \<Rightarrow> slot_meta list \<Rightarrow> block_panic + sealed_block" where
  "rebuild_sealed_block_per_slot sas ms = bind_res (rebuild_slots sas ms) (\<lambda>xs. Inr (from_slots xs))"

definition task_iovecs :: "slot_alloc list \<Rightarrow> slot_meta list \<Rightarrow> (u64 \<times> usize) list" where
  "task_iovecs sas ms =
     concat (map (\<lambda>(m, sa). read_iovecs m (alloc_ptr (sa_allocation sa)) (sa_offset sa)) (zip ms sas))"

text \<open>
  The outcome of one read: \<open>bytes_read\<close> is what the ring returned, \<open>None\<close> for an error or a
  closed channel; \<open>valid\<close> is the offset check after the read.
\<close>

definition execute_prefetch ::
  "index_entry \<Rightarrow> slot_alloc list \<Rightarrow> nat option \<Rightarrow> block_panic + sealed_block option" where
  "execute_prefetch e sas bytes_read =
     (case bytes_read of
        None \<Rightarrow> Inr None
      | Some n \<Rightarrow>
          if n = entry_len e
          then bind_res (rebuild_sealed_block_per_slot sas (entry_slots e)) (\<lambda>b. Inr (Some b))
          else Inr None)"

definition accept_result :: "bool \<Rightarrow> sealed_block option \<Rightarrow> sealed_block option" where
  "accept_result valid result = (if result \<noteq> None \<and> \<not> valid then None else result)"

definition meta_ok :: "slot_meta \<Rightarrow> bool" where
  "meta_ok m \<longleftrightarrow>
     meta_total_size m = sum_list (segment_sizes m) \<and> sum_list (map unat (segment_sizes m)) < 2 ^ 64"

lemma unat_sum_list:
  "sum_list (map unat xs) < 2 ^ 64 \<Longrightarrow> unat (sum_list (xs :: u64 list)) = sum_list (map unat xs)"
  by (induction xs) (simp_all add: unat_add_fits)

lemma rebuild_slots_spec:
  assumes "\<forall>m \<in> set ms. meta_ok m"
    and "list_all2 (\<lambda>m sa. room (unat (meta_total_size m)) sa) ms sas"
  shows "\<exists>xs. rebuild_slots sas ms = Inr xs \<and>
    map (\<lambda>(s, numa). slot_meta_new (map seg_size (as_slice (raw_segments s))) numa) xs = ms \<and>
    map (\<lambda>(s, numa). raw_footprint s) xs = map meta_total_size ms \<and>
    concat (map (\<lambda>(s, numa). write_iovecs s) xs) = task_iovecs sas ms"
  using assms(2,1)
proof (induction rule: list_all2_induct)
  case Nil
  then show ?case by (simp add: task_iovecs_def)
next
  case (Cons m ms sa sas)
  have m: "m = slot_meta_new (segment_sizes m) (meta_numa m)"
    and sz: "unat (meta_total_size m) = sum_list (map unat (segment_sizes m))"
    using Cons.prems by (simp_all add: meta_ok_def slot_meta_new_def unat_sum_list)
  obtain rb where rb: "reconstruct_raw_block m (sa_allocation sa) (sa_offset sa) = Inr rb"
      "segment_iovecs rb = read_iovecs m (alloc_ptr (sa_allocation sa)) (sa_offset sa)"
      "slot_meta_new (map seg_size (as_slice (raw_segments rb))) (meta_numa m) = m"
      "raw_footprint rb = meta_total_size m"
    using reconstruct_ok[OF _ m] Cons.hyps(1) sz unfolding room_def by metis
  obtain xs where "rebuild_slots sas ms = Inr xs"
      "map (\<lambda>(s, numa). slot_meta_new (map seg_size (as_slice (raw_segments s))) numa) xs = ms"
      "map (\<lambda>(s, numa). raw_footprint s) xs = map meta_total_size ms"
      "concat (map (\<lambda>(s, numa). write_iovecs s) xs) = task_iovecs sas ms"
    using Cons.IH Cons.prems by auto
  with rb show ?case by (simp add: task_iovecs_def write_iovecs_def)
qed


section \<open>Collecting the results of a batch\<close>

text \<open>
  \<open>BatchContext\<close>. \<open>complete_one\<close> first pushes its result and then decrements; the two
  steps of different completers interleave, so they are separate operations here.
\<close>

record batch_context =
  ctx_results :: "(block_key \<times> sealed_block) list"
  ctx_remaining :: usize
  ctx_done_tx :: bool \<comment> \<open>the sender has not been taken\<close>
  ctx_sent :: "(block_key \<times> sealed_block) list option"

definition batch_context_new :: "usize \<Rightarrow> batch_context" where
  "batch_context_new count =
     \<lparr>ctx_results = [], ctx_remaining = count, ctx_done_tx = True, ctx_sent = None\<rparr>"

definition ctx_push :: "batch_context \<Rightarrow> block_key \<Rightarrow> sealed_block option \<Rightarrow> batch_context" where
  "ctx_push c k ob =
     (case ob of None \<Rightarrow> c | Some b \<Rightarrow> c\<lparr>ctx_results := ctx_results c @ [(k, b)]\<rparr>)"

definition ctx_finish :: "batch_context \<Rightarrow> batch_context" where
  "ctx_finish c =
     (let c' = c\<lparr>ctx_remaining := ctx_remaining c - 1\<rparr>
      in if ctx_remaining c = 1 \<and> ctx_done_tx c
         then c'\<lparr>ctx_done_tx := False, ctx_sent := Some (ctx_results c), ctx_results := []\<rparr>
         else c')"

definition complete_one :: "batch_context \<Rightarrow> block_key \<Rightarrow> sealed_block option \<Rightarrow> batch_context" where
  "complete_one c k ob = ctx_finish (ctx_push c k ob)"

text \<open>
  Enqueueing the tasks of a batch: the channel takes the first \<open>n\<close>; if it closes, the
  remaining requests are completed without a block and the dispatcher stops.
\<close>

definition enqueue_tasks ::
  "nat \<Rightarrow> block_key list \<Rightarrow> batch_context \<Rightarrow> block_key list \<times> batch_context \<times> bool" where
  "enqueue_tasks n ks c =
     (if length ks \<le> n then (ks, c, True)
      else (take n ks, foldl (\<lambda>c k. complete_one c k None) c (drop n ks), False))"

datatype ctx_event =
    Push block_key "sealed_block option"
  | Finish

fun ctx_step :: "batch_context \<Rightarrow> ctx_event \<Rightarrow> batch_context" where
  "ctx_step c (Push k ob) = ctx_push c k ob"
| "ctx_step c Finish = ctx_finish c"

definition pushed :: "ctx_event list \<Rightarrow> (block_key \<times> sealed_block) list" where
  "pushed es = concat (map (\<lambda>e. case e of Push k (Some b) \<Rightarrow> [(k, b)] | _ \<Rightarrow> []) es)"

lemma pushed_simps [simp]:
  "pushed [] = []" "pushed (es @ fs) = pushed es @ pushed fs" "pushed [Finish] = []"
  "pushed [Push k ob] = (case ob of None \<Rightarrow> [] | Some b \<Rightarrow> [(k, b)])"
  by (simp_all add: pushed_def split: option.split)

lemma ctx_running:
  assumes "count_list es Finish < n" and "n < 2 ^ 64"
  shows "foldl ctx_step (batch_context_new (of_nat n)) es =
    \<lparr>ctx_results = pushed es, ctx_remaining = of_nat (n - count_list es Finish),
     ctx_done_tx = True, ctx_sent = None\<rparr>"
  using assms(1)
proof (induction es rule: rev_induct)
  case Nil
  then show ?case by (simp add: batch_context_new_def)
next
  case (snoc e es)
  show ?case
  proof (cases e)
    case (Push k ob)
    with snoc show ?thesis by (cases ob) (simp_all add: ctx_push_def)
  next
    case Finish
    let ?m = "count_list es Finish"
    have m: "Suc ?m < n" using snoc.prems Finish by simp
    have ne: "(of_nat (n - ?m) :: usize) \<noteq> 1"
    proof
      assume eq: "(of_nat (n - ?m) :: usize) = 1"
      have "unat (of_nat (n - ?m) :: usize) = n - ?m"
        using assms(2) by (simp add: unsigned_of_nat take_bit_nat_eq_self)
      with eq m show False by simp
    qed
    have "(of_nat (n - ?m) :: usize) - 1 = of_nat (n - ?m - 1)" using m by (simp add: of_nat_diff)
    with ne m snoc Finish show ?thesis by (simp add: ctx_finish_def)
  qed
qed

text \<open>
  Whatever the interleaving of the completers, the batch is delivered exactly when the
  last of its requests finishes, with all blocks that were pushed, in their order, and
  nothing is delivered before.
\<close>

theorem batch_delivered_once:
  assumes "0 < n" and "n < 2 ^ 64" and "count_list es Finish < n"
  shows "ctx_sent (foldl ctx_step (batch_context_new (of_nat n)) es) = None \<and>
    (Suc (count_list es Finish) = n \<longrightarrow>
       ctx_sent (foldl ctx_step (batch_context_new (of_nat n)) (es @ Finish # fs)) = Some (pushed es))"
proof -
  note run = ctx_running[OF assms(3,2)]
  have kept: "ctx_sent (foldl ctx_step c gs) = ctx_sent c" if "\<not> ctx_done_tx c" for c gs
    using that
  proof (induction gs arbitrary: c)
    case (Cons g gs)
    then show ?case
      by (cases g) (auto simp: ctx_push_def ctx_finish_def Let_def split: option.splits)
  qed simp
  show ?thesis using run kept by (auto simp: ctx_finish_def)
qed

text \<open>
  When the worker's channel closes after \<open>n\<close> tasks, the dispatcher completes every
  request it could not hand over, so the accepted tasks together with these completions
  account for the whole batch: it is delivered as soon as the accepted ones finish.
\<close>

theorem closed_channel_completes_rest:
  assumes "length ks < 2 ^ 64" and "n < length ks"
    and "enqueue_tasks n ks (batch_context_new (of_nat (length ks))) = (sent, c, alive)"
  shows "sent = take n ks \<and> \<not> alive \<and>
    ctx_sent (foldl (\<lambda>c k. complete_one c k None) c sent) = Some []"
proof -
  let ?c0 = "batch_context_new (of_nat (length ks))"
  have comp: "foldl (\<lambda>c k. complete_one c k None) c xs = foldl ctx_step c (replicate (length xs) Finish)"
    for c and xs :: "block_key list"
    by (induction xs arbitrary: c) (simp_all add: complete_one_def ctx_push_def)
  have cnt: "count_list (replicate m Finish) Finish = m" for m by (induction m) simp_all
  have psh: "pushed (replicate m Finish) = []" for m by (simp add: pushed_def)
  have out: "sent = take n ks" "\<not> alive" "c = foldl (\<lambda>c k. complete_one c k None) ?c0 (drop n ks)"
    using assms(2,3) by (auto simp: enqueue_tasks_def)
  obtain m where m: "length ks = Suc m" using assms(2) by (cases "length ks") auto
  have "foldl (\<lambda>c k. complete_one c k None) c sent = foldl ctx_step ?c0 (replicate (length ks) Finish)"
    unfolding out comp using assms(2) by (simp add: foldl_append[symmetric] replicate_add[symmetric])
  also have "replicate (length ks) Finish = replicate m Finish @ [Finish]"
    by (simp add: m replicate_append_same)
  finally show ?thesis
    using ctx_running[of "replicate m Finish" "length ks"] assms(1) m out(1,2)
    by (simp add: cnt psh ctx_finish_def)
qed

section \<open>Witnesses\<close>

definition small_alloc :: "unit \<Rightarrow> nat \<Rightarrow> numa_node option \<Rightarrow> pinned_allocation option \<times> unit" where
  "small_alloc st n numa = (if n \<le> 1024 then Some example_allocation else None, st)"

lemma small_alloc_contract: "alloc_contract small_alloc"
  by (auto simp: alloc_contract_def small_alloc_def allocation_wf_def example_allocation_def split: if_splits)

theorem chunk_slot_refs_partition_witness:
  "\<exists>cs rss. chunk_slot_refs [\<lparr>ref_block = 0, ref_slot = 0, ref_size = 6\<rparr>,
       \<lparr>ref_block = 0, ref_slot = 1, ref_size = 6\<rparr>] 10 = Inr cs \<and>
     concat rss = [\<lparr>ref_block = 0, ref_slot = 0, ref_size = 6\<rparr>, \<lparr>ref_block = 0, ref_slot = 1, ref_size = 6\<rparr>] \<and>
     length cs = length rss"
  using chunk_slot_refs_partition[of 10 "[\<lparr>ref_block = 0, ref_slot = 0, ref_size = 6\<rparr>,
       \<lparr>ref_block = 0, ref_slot = 1, ref_size = 6\<rparr>]"]
  by (auto dest: list_all2_lengthD)

theorem dispatch_gives_every_slot_room_witness:
  "\<exists>ass. dispatch_allocs small_alloc () False [None] [[slot_meta_new [256, 256] 0]] = Inr (Some ass, ()) \<and>
     room 512 (ass ! 0 ! 0)"
proof -
  let ?reqs = "[[slot_meta_new [256, 256] 0]]"
  have "set [None] = dom (group_slots_by_numa False ?reqs)"
    by (simp add: group_slots_by_numa_def slot_refs_def entry_push_def numa_key_def)
  from dispatch_gives_every_slot_room[OF small_alloc_contract this, of "()"]
  obtain res where res: "dispatch_allocs small_alloc () False [None] ?reqs = Inr (res, ())"
      "\<And>ass. res = Some ass \<Longrightarrow> room (slot_bytes ?reqs 0 0) (ass ! 0 ! 0)" by auto
  moreover have "res \<noteq> None"
    using res(1)
    by (auto simp: dispatch_allocs_def group_slots_by_numa_def slot_refs_def entry_push_def numa_key_def
        chunk_slot_refs_def ssd_prefetch_chunk_bytes_def slot_meta_new_def checked_add64_def
        needs_new_chunk_def small_alloc_def)
  ultimately show ?thesis by (auto simp: slot_bytes_def slot_meta_new_def)
qed


theorem batch_delivered_once_witness:
  "ctx_sent (foldl ctx_step (batch_context_new (of_nat 2))
     [Push (key 1) (Some (blk 8)), Finish, Push (key 2) None, Finish]) = Some [(key 1, blk 8)]"
  using batch_delivered_once[of 2 "[Push (key 1) (Some (blk 8)), Finish, Push (key 2) None]" "[]"]
  by (simp add: pushed_def)

theorem closed_channel_completes_rest_witness:
  "\<exists>c. enqueue_tasks 1 [key 1, key 2, key 3] (batch_context_new (of_nat (length [key 1, key 2, key 3]))) =
      ([key 1], c, False) \<and>
    ctx_sent (foldl (\<lambda>c k. complete_one c k None) c [key 1]) = Some []"
proof -
  obtain c where e: "enqueue_tasks 1 [key 1, key 2, key 3]
      (batch_context_new (of_nat (length [key 1, key 2, key 3]))) = ([key 1], c, False)"
    by (simp add: enqueue_tasks_def)
  from closed_channel_completes_rest[OF _ _ e] e show ?thesis by simp
qed

end
