(* ===== verification/Tiny_Lfu.thy ===== *)
theory Tiny_Lfu
  imports Block_Model
begin

text \<open>
  The resident-block cache (\<open>pegaflow-core/src/cache.rs\<close>): an LRU map with optional
  TinyLFU admission. The LRU map itself is the third-party crate \<open>hashlink\<close>: its
  operations are the argument \<open>L\<close> of every definition, and \<open>lru_laws\<close> states the
  documented behaviour the code relies on. The hashers of the count-min sketch (crate
  \<open>ahash\<close>) are functions stored in its rows. The floating-point sizes of
  \<open>Estimator::optimal_paras\<close> are arguments; their integer lower bounds are modelled.
  All accesses happen under the read cache's mutex, so a counter update is one step.
\<close>

section \<open>The LRU map as a parameter\<close>

record ('l, 'k, 'v) lru_ops =
  lru_new :: 'l
  lru_iter :: "'l \<Rightarrow> ('k \<times> 'v) list" \<comment> \<open>least recently used first\<close>
  lru_get :: "'l \<Rightarrow> 'k \<Rightarrow> 'v option \<times> 'l"
  lru_peek :: "'l \<Rightarrow> 'k \<Rightarrow> 'v option"
  lru_contains :: "'l \<Rightarrow> 'k \<Rightarrow> bool"
  lru_insert :: "'l \<Rightarrow> 'k \<Rightarrow> 'v \<Rightarrow> 'l"
  lru_remove :: "'l \<Rightarrow> 'k \<Rightarrow> 'v option \<times> 'l"
  lru_remove_lru :: "'l \<Rightarrow> ('k \<times> 'v) option \<times> 'l"
  lru_drain :: "'l \<Rightarrow> ('k \<times> 'v) list \<times> 'l"
  lru_len :: "'l \<Rightarrow> nat"

text \<open>Moving a present key to the most recently used end.\<close>

definition touch :: "'k \<Rightarrow> ('k \<times> 'v) list \<Rightarrow> ('k \<times> 'v) list" where
  "touch k xs = filter (\<lambda>x. fst x \<noteq> k) xs @ filter (\<lambda>x. fst x = k) xs"

definition lru_laws :: "('l, 'k, 'v) lru_ops \<Rightarrow> bool" where
  "lru_laws L \<longleftrightarrow>
     lru_iter L (lru_new L) = [] \<and>
     (\<forall>l. distinct (map fst (lru_iter L l))) \<and>
     (\<forall>l k. fst (lru_get L l k) = map_of (lru_iter L l) k \<and>
            lru_iter L (snd (lru_get L l k)) = touch k (lru_iter L l)) \<and>
     (\<forall>l k. lru_peek L l k = map_of (lru_iter L l) k) \<and>
     (\<forall>l k. lru_contains L l k \<longleftrightarrow> map_of (lru_iter L l) k \<noteq> None) \<and>
     (\<forall>l k v. lru_iter L (lru_insert L l k v) = filter (\<lambda>x. fst x \<noteq> k) (lru_iter L l) @ [(k, v)]) \<and>
     (\<forall>l k. fst (lru_remove L l k) = map_of (lru_iter L l) k \<and>
            lru_iter L (snd (lru_remove L l k)) = filter (\<lambda>x. fst x \<noteq> k) (lru_iter L l)) \<and>
     (\<forall>l. fst (lru_remove_lru L l) = (case lru_iter L l of [] \<Rightarrow> None | x # _ \<Rightarrow> Some x) \<and>
          lru_iter L (snd (lru_remove_lru L l)) = tl (lru_iter L l)) \<and>
     (\<forall>l. fst (lru_drain L l) = lru_iter L l \<and> lru_iter L (snd (lru_drain L l)) = []) \<and>
     (\<forall>l. lru_len L l = length (lru_iter L l))"

lemma lru_lawsD:
  assumes "lru_laws L"
  shows "lru_iter L (lru_new L) = []" "distinct (map fst (lru_iter L l))"
    "fst (lru_get L l k) = map_of (lru_iter L l) k"
    "lru_iter L (snd (lru_get L l k)) = touch k (lru_iter L l)"
    "lru_peek L l k = map_of (lru_iter L l) k"
    "lru_contains L l k \<longleftrightarrow> map_of (lru_iter L l) k \<noteq> None"
    "lru_iter L (lru_insert L l k v) = filter (\<lambda>x. fst x \<noteq> k) (lru_iter L l) @ [(k, v)]"
    "fst (lru_remove L l k) = map_of (lru_iter L l) k"
    "lru_iter L (snd (lru_remove L l k)) = filter (\<lambda>x. fst x \<noteq> k) (lru_iter L l)"
    "fst (lru_remove_lru L l) = (case lru_iter L l of [] \<Rightarrow> None | x # _ \<Rightarrow> Some x)"
    "lru_iter L (snd (lru_remove_lru L l)) = tl (lru_iter L l)"
    "fst (lru_drain L l) = lru_iter L l" "lru_iter L (snd (lru_drain L l)) = []"
    "lru_len L l = length (lru_iter L l)"
  using assms unfolding lru_laws_def by auto

lemma set_touch [simp]: "set (touch k xs) = set xs"
  by (auto simp: touch_def)

lemma map_of_filter_neq: "map_of (filter (\<lambda>x. fst x \<noteq> k) xs) l = (if l = k then None else map_of xs l)"
  by (induction xs) auto

lemma map_add_filter_neq [simp]:
  "[k \<mapsto> v] ++ map_of (filter (\<lambda>x. fst x \<noteq> k) xs) = (map_of xs)(k \<mapsto> v)"
  by (rule ext) (auto simp: map_of_filter_neq map_add_def split: option.split)

lemma map_of_touch [simp]: "map_of (touch k xs) = map_of xs"
proof
  fix l
  have "map_of (filter (\<lambda>x. fst x = k) xs) l = (if l = k then map_of xs l else None)"
    by (induction xs) auto
  then show "map_of (touch k xs) l = map_of xs l"
    by (auto simp: touch_def map_of_filter_neq map_add_def split: option.split)
qed

lemma filter_neq_id: "k \<notin> fst ` set xs \<Longrightarrow> filter (\<lambda>x. fst x \<noteq> k) xs = xs"
  by (induction xs) auto

lemma touch_missing: "k \<notin> fst ` set xs \<Longrightarrow> touch k xs = xs"
  unfolding touch_def by (induction xs) auto

lemma touch_head: "distinct (map fst ((k, v) # xs)) \<Longrightarrow> touch k ((k, v) # xs) = xs @ [(k, v)]"
proof -
  assume "distinct (map fst ((k, v) # xs))"
  then have "\<forall>x \<in> set xs. fst x \<noteq> k" by force
  then have "filter (\<lambda>x. fst x \<noteq> k) xs = xs" "filter (\<lambda>x. fst x = k) xs = []"
    by (simp_all add: filter_id_conv filter_empty_conv)
  then show ?thesis by (simp add: touch_def)
qed

lemma sum_list_touch: "sum_list (map f (touch k xs)) = (sum_list (map f xs) :: 'a :: comm_monoid_add)"
  unfolding touch_def by (induction xs) (auto simp: ac_simps)

section \<open>The frequency sketch\<close>

record sketch_row =
  row_counters :: "u8 list"
  row_hasher :: "block_key \<Rightarrow> u64"

type_synonym estimator = "sketch_row list"

definition min_estimator_slots :: nat where "min_estimator_slots = 16"
definition min_estimator_hashes :: nat where "min_estimator_hashes = 2"

text \<open>\<open>width\<close> and \<open>depth\<close> are the two rounded floating-point quotients.\<close>

definition optimal_paras :: "nat \<Rightarrow> nat \<Rightarrow> nat \<times> nat" where
  "optimal_paras width depth = (max width min_estimator_slots, max depth min_estimator_hashes)"

definition estimator_new :: "nat \<Rightarrow> nat \<Rightarrow> (nat \<Rightarrow> block_key \<Rightarrow> u64) \<Rightarrow> estimator" where
  "estimator_new hashes columns random =
     map (\<lambda>i. \<lparr>row_counters = replicate columns 0, row_hasher = random i\<rparr>) [0..<hashes]"

definition row_index :: "sketch_row \<Rightarrow> block_key \<Rightarrow> nat" where
  "row_index r k = unat (row_hasher r k) mod length (row_counters r)"

definition incr_no_overflow :: "u8 \<Rightarrow> u8 \<times> u8" where
  "incr_no_overflow current =
     (if current = - 1 then (current, current)
      else (current, if current = - 2 then - 1 else current + 1))"

definition row_incr :: "sketch_row \<Rightarrow> block_key \<Rightarrow> sketch_row \<times> u8" where
  "row_incr r k =
     (let i = row_index r k; new = snd (incr_no_overflow (row_counters r ! i))
      in (r\<lparr>row_counters := (row_counters r)[i := new]\<rparr>, new))"

definition estimator_incr :: "estimator \<Rightarrow> block_key \<Rightarrow> estimator \<times> u8" where
  "estimator_incr e k =
     (map (\<lambda>r. fst (row_incr r k)) e, foldl min (- 1) (map (\<lambda>r. snd (row_incr r k)) e))"

definition estimator_get :: "estimator \<Rightarrow> block_key \<Rightarrow> u8" where
  "estimator_get e k = foldl min (- 1) (map (\<lambda>r. row_counters r ! row_index r k) e)"

definition estimator_age :: "nat \<Rightarrow> estimator \<Rightarrow> estimator" where
  "estimator_age shift e =
     map (\<lambda>r. r\<lparr>row_counters := map (drop_bit shift) (row_counters r)\<rparr>) e"

record tiny_lfu =
  lfu_estimator :: estimator
  window_counter :: usize
  window_limit :: usize

definition tiny_lfu_new :: "estimator \<Rightarrow> usize \<Rightarrow> tiny_lfu" where
  "tiny_lfu_new e cache_size =
     \<lparr>lfu_estimator = e, window_counter = 0, window_limit = cache_size * 8\<rparr>"

definition lfu_incr :: "tiny_lfu \<Rightarrow> block_key \<Rightarrow> tiny_lfu" where
  "lfu_incr f k =
     (let window_size = window_counter f;
          f1 = f\<lparr>window_counter := window_size + 1\<rparr>;
          f2 = (if window_size = window_limit f \<or> window_limit f * 2 < window_size
                then f1\<lparr>window_counter := 0, lfu_estimator := estimator_age 1 (lfu_estimator f1)\<rparr>
                else f1)
      in f2\<lparr>lfu_estimator := fst (estimator_incr (lfu_estimator f2) k)\<rparr>)"

definition lfu_get :: "tiny_lfu \<Rightarrow> block_key \<Rightarrow> u8" where
  "lfu_get f k = estimator_get (lfu_estimator f) k"

section \<open>The cache\<close>

text \<open>
  A shared \<open>Arc<SealedBlock>\<close> is the block with the identity of its allocation; the
  number of strong owners of an identity is an argument where the code reads it.
\<close>

record arc_block =
  arc_id :: nat
  arc_inner :: sealed_block

record 'l tiny_lfu_cache =
  cache_lru :: 'l
  cache_freq :: "tiny_lfu option"

datatype cache_insert_outcome = InsertedNew | AlreadyExists | Rejected

type_synonym 'l block_lru = "('l, block_key, arc_block) lru_ops"

definition default_bytes_per_value :: nat where
  "default_bytes_per_value = 128 * 1024 * 1024"

definition estimated_items :: "nat \<Rightarrow> nat option \<Rightarrow> nat" where
  "estimated_items capacity_bytes hint =
     (let per_value = (case hint of Some n \<Rightarrow> if 0 < n then n else default_bytes_per_value
                       | None \<Rightarrow> default_bytes_per_value)
      in max 1 (capacity_bytes div per_value))"

definition cache_new_unbounded ::
  "'l block_lru \<Rightarrow> bool \<Rightarrow> (nat \<Rightarrow> tiny_lfu) \<Rightarrow> nat \<Rightarrow> nat option \<Rightarrow> 'l tiny_lfu_cache" where
  "cache_new_unbounded L enable_lfu_admission mk_lfu capacity_bytes hint =
     \<lparr>cache_lru = lru_new L,
      cache_freq = (if enable_lfu_admission then Some (mk_lfu (estimated_items capacity_bytes hint)) else None)\<rparr>"

definition cache_get ::
  "'l block_lru \<Rightarrow> 'l tiny_lfu_cache \<Rightarrow> block_key \<Rightarrow> arc_block option \<times> 'l tiny_lfu_cache" where
  "cache_get L c k =
     (let (hit, l) = lru_get L (cache_lru c) k
      in (hit, c\<lparr>cache_lru := l,
                  cache_freq := (if hit \<noteq> None then map_option (\<lambda>f. lfu_incr f k) (cache_freq c)
                                 else cache_freq c)\<rparr>))"

definition cache_contains_key :: "'l block_lru \<Rightarrow> 'l tiny_lfu_cache \<Rightarrow> block_key \<Rightarrow> bool" where
  "cache_contains_key L c k = lru_contains L (cache_lru c) k"

definition cache_peek :: "'l block_lru \<Rightarrow> 'l tiny_lfu_cache \<Rightarrow> block_key \<Rightarrow> arc_block option" where
  "cache_peek L c k = lru_peek L (cache_lru c) k"

definition is_cache_owned_only ::
  "'l block_lru \<Rightarrow> (nat \<Rightarrow> nat) \<Rightarrow> 'l tiny_lfu_cache \<Rightarrow> block_key \<Rightarrow> bool" where
  "is_cache_owned_only L strong_count c k =
     (case lru_peek L (cache_lru c) k of None \<Rightarrow> False | Some b \<Rightarrow> strong_count (arc_id b) = 1)"

definition cache_insert ::
  "'l block_lru \<Rightarrow> 'l tiny_lfu_cache \<Rightarrow> block_key \<Rightarrow> arc_block \<Rightarrow> 'l tiny_lfu_cache \<times> cache_insert_outcome"
where
  "cache_insert L c k v =
     (let c1 = c\<lparr>cache_freq := map_option (\<lambda>f. lfu_incr f k) (cache_freq c)\<rparr>;
          rejected = (case cache_freq c1 of
              None \<Rightarrow> False
            | Some f \<Rightarrow> (case lru_iter L (cache_lru c1) of
                [] \<Rightarrow> False
              | (victim, _) # _ \<Rightarrow> lfu_get f k < lfu_get f victim))
      in if lru_contains L (cache_lru c1) k then (c1, AlreadyExists)
         else if rejected then (c1, Rejected)
         else (c1\<lparr>cache_lru := lru_insert L (cache_lru c1) k v\<rparr>, InsertedNew))"

definition cache_remove ::
  "'l block_lru \<Rightarrow> 'l tiny_lfu_cache \<Rightarrow> block_key \<Rightarrow> arc_block option \<times> 'l tiny_lfu_cache" where
  "cache_remove L c k = (let (v, l) = lru_remove L (cache_lru c) k in (v, c\<lparr>cache_lru := l\<rparr>))"

definition cache_remove_all ::
  "'l block_lru \<Rightarrow> 'l tiny_lfu_cache \<Rightarrow> (block_key \<times> arc_block) list \<times> 'l tiny_lfu_cache" where
  "cache_remove_all L c = (let (xs, l) = lru_drain L (cache_lru c) in (xs, c\<lparr>cache_lru := l\<rparr>))"

section \<open>Lemmas\<close>

lemma unat_incr_no_overflow: "unat (snd (incr_no_overflow c)) = min 255 (unat c + 1)"
proof -
  have max: "unat (- 1 :: u8) = 255" by (simp add: unat_max_word)
  have lt: "unat c < 256" using unat_lt_pow[of c] by simp
  show ?thesis
  proof (cases "c = - 1")
    case False
    then have ne: "unat c \<noteq> 255" using max word_unat_eq_iff by metis
    then have "unat (c + 1) = unat c + 1" using lt unat_add_fits[of c 1] by simp
    moreover have "snd (incr_no_overflow c) = c + 1" using False by (simp add: incr_no_overflow_def)
    ultimately show ?thesis using ne lt by simp
  next
    case True
    then have "snd (incr_no_overflow c) = - 1" by (simp add: incr_no_overflow_def)
    then show ?thesis using True max by simp
  qed
qed

lemma row_incr_same [simp]:
  "row_hasher (fst (row_incr r k)) = row_hasher r"
  "length (row_counters (fst (row_incr r k))) = length (row_counters r)"
  "row_index (fst (row_incr r k)) l = row_index r l"
  by (simp_all add: row_incr_def row_index_def Let_def)

definition row_count :: "sketch_row \<Rightarrow> block_key list \<Rightarrow> sketch_row" where
  "row_count r ks = foldl (\<lambda>r k. fst (row_incr r k)) r ks"

lemma row_count_snoc [simp]: "row_count r [] = r" "row_count r (ks @ [k]) = fst (row_incr (row_count r ks) k)"
  by (simp_all add: row_count_def)

lemma row_count_same: "row_index (row_count r ks) l = row_index r l"
  "length (row_counters (row_count r ks)) = length (row_counters r)"
  by (induction ks rule: rev_induct) simp_all

lemma row_count_ge:
  assumes "row_counters r \<noteq> []"
  shows "min 255 (count_list ks k) \<le> unat (row_counters (row_count r ks) ! row_index r k)"
proof (induction ks rule: rev_induct)
  case (snoc l ks)
  let ?r = "row_count r ks"
  have idx: "row_index r k < length (row_counters ?r)"
    using assms by (simp add: row_count_same row_index_def)
  have step: "unat (row_counters (fst (row_incr ?r l)) ! row_index r k) =
      (if row_index r l = row_index r k then min 255 (unat (row_counters ?r ! row_index r k) + 1)
       else unat (row_counters ?r ! row_index r k))"
    using idx by (simp add: row_incr_def Let_def row_count_same unat_incr_no_overflow nth_list_update)
  show ?case using snoc step by (cases "l = k") auto
qed simp

lemma estimator_count:
  "foldl (\<lambda>e k. fst (estimator_incr e k)) e ks = map (\<lambda>r. row_count r ks) e"
  by (induction ks rule: rev_induct) (simp_all add: estimator_incr_def row_count_def)

lemma foldl_min_ge:
  "(n :: nat) \<le> unat a \<Longrightarrow> (\<And>x. x \<in> set xs \<Longrightarrow> n \<le> unat x) \<Longrightarrow> n \<le> unat (foldl min (a :: u8) xs)"
  by (induction xs arbitrary: a) (auto simp: min_def)

text \<open>
  C37. The sketch never underestimates: after any sequence of accesses without an aging step,
  the estimate of a key is at least the number of its accesses, up to the saturation of the
  8-bit counters, whatever the hashers are.
\<close>

theorem sketch_never_underestimates:
  assumes "(columns, hashes) = optimal_paras width depth"
  shows "min 255 (count_list ks k) \<le>
    unat (estimator_get (foldl (\<lambda>e k. fst (estimator_incr e k)) (estimator_new hashes columns random) ks) k)"
proof -
  let ?e = "estimator_new hashes columns random"
  have "0 < columns" using assms by (simp add: optimal_paras_def min_estimator_slots_def)
  then have ne: "row_counters r \<noteq> []" if "r \<in> set ?e" for r
    using that by (auto simp: estimator_new_def)
  show ?thesis
    unfolding estimator_count estimator_get_def
    by (rule foldl_min_ge) (use ne row_count_ge in \<open>auto simp: row_count_same unat_max_word\<close>)
qed

text \<open>Views of the cache through its LRU map.\<close>

definition resident :: "'l block_lru \<Rightarrow> 'l tiny_lfu_cache \<Rightarrow> block_key \<rightharpoonup> arc_block" where
  "resident L c = map_of (lru_iter L (cache_lru c))"

lemma cache_views:
  assumes "lru_laws L"
  shows "cache_contains_key L c k \<longleftrightarrow> resident L c k \<noteq> None"
    "cache_peek L c k = resident L c k"
    "is_cache_owned_only L strong c k \<longleftrightarrow> (\<exists>b. resident L c k = Some b \<and> strong (arc_id b) = 1)"
    "fst (cache_get L c k) = resident L c k" "resident L (snd (cache_get L c k)) = resident L c"
    "fst (cache_remove L c k) = resident L c k" "resident L (snd (cache_remove L c k)) = (resident L c)(k := None)"
    "fst (cache_remove_all L c) = lru_iter L (cache_lru c)"
    "resident L (snd (cache_remove_all L c)) = Map.empty"
proof -
  note D = lru_lawsD[OF assms]
  show "cache_contains_key L c k \<longleftrightarrow> resident L c k \<noteq> None"
    by (simp only: cache_contains_key_def resident_def D)
  show "cache_peek L c k = resident L c k" by (simp only: cache_peek_def resident_def D)
  show "is_cache_owned_only L strong c k \<longleftrightarrow> (\<exists>b. resident L c k = Some b \<and> strong (arc_id b) = 1)"
    unfolding is_cache_owned_only_def resident_def D(5)
    by (cases "map_of (lru_iter L (cache_lru c)) k") simp_all
  show "fst (cache_get L c k) = resident L c k" "resident L (snd (cache_get L c k)) = resident L c"
    by (simp_all add: cache_get_def resident_def Let_def case_prod_beta D(3,4))
  show "fst (cache_remove L c k) = resident L c k"
      "resident L (snd (cache_remove L c k)) = (resident L c)(k := None)"
    by (simp_all add: cache_remove_def resident_def Let_def case_prod_beta D(8,9) fun_eq_iff map_of_filter_neq)
  show "fst (cache_remove_all L c) = lru_iter L (cache_lru c)"
      "resident L (snd (cache_remove_all L c)) = Map.empty"
    by (simp_all add: cache_remove_all_def resident_def Let_def case_prod_beta D(12,13))
qed

lemma cache_insert_cases:
  assumes "lru_laws L" and "cache_insert L c k v = (c', out)"
  obtains (Exists) b where "out = AlreadyExists" "resident L c k = Some b"
      "cache_lru c' = cache_lru c"
  | (Reject) f victim b rest where "out = Rejected" "resident L c k = None" "cache_lru c' = cache_lru c"
      "cache_freq c = Some f" "lru_iter L (cache_lru c) = (victim, b) # rest"
      "lfu_get (lfu_incr f k) k < lfu_get (lfu_incr f k) victim"
  | (New) "out = InsertedNew" "resident L c k = None" "cache_lru c' = lru_insert L (cache_lru c) k v"
proof (cases "resident L c k")
  case None
  then have "\<not> lru_contains L (cache_lru c) k" by (simp only: lru_lawsD(6)[OF assms(1)] resident_def) simp
  with None assms(2) show ?thesis
    by (auto simp: cache_insert_def Let_def split: if_splits option.splits list.splits intro: Reject New)
next
  case (Some b)
  then have "lru_contains L (cache_lru c) k" by (simp only: lru_lawsD(6)[OF assms(1)] resident_def) simp
  with Some assms(2) show ?thesis by (intro Exists[of b]) (auto simp: cache_insert_def Let_def)
qed

text \<open>
  Insertion keeps resident blocks: a present key is reported and never overwritten, a
  rejected candidate leaves the contents alone, and a new key is added to them. Rejection
  needs an admission filter, and happens only when the candidate is estimated strictly
  colder than the least recently used block.
\<close>

theorem cache_insert_contract:
  assumes "lru_laws L" and "cache_insert L c k v = (c', out)"
  shows "case out of
      AlreadyExists \<Rightarrow> resident L c k \<noteq> None \<and> resident L c' = resident L c
    | Rejected \<Rightarrow> resident L c k = None \<and> resident L c' = resident L c \<and>
        (\<exists>f victim b rest. cache_freq c = Some f \<and> lru_iter L (cache_lru c) = (victim, b) # rest \<and>
           lfu_get (lfu_incr f k) k < lfu_get (lfu_incr f k) victim)
    | InsertedNew \<Rightarrow> resident L c k = None \<and> resident L c' = (resident L c)(k \<mapsto> v)"
  using assms
proof (cases rule: cache_insert_cases)
  case New
  then show ?thesis by (simp add: resident_def lru_lawsD(7)[OF assms(1)])
qed (simp_all add: resident_def)

section \<open>Witnesses\<close>

text \<open>
  An LRU map kept as a list of insertions satisfies the documented laws: the contents are the
  last insertion of every key.
\<close>

definition lru_norm :: "('k \<times> 'v) list \<Rightarrow> ('k \<times> 'v) list" where
  "lru_norm l = foldl (\<lambda>acc x. filter (\<lambda>y. fst y \<noteq> fst x) acc @ [x]) [] l"

definition list_lru :: "(('k \<times> 'v) list, 'k, 'v) lru_ops" where
  "list_lru =
     \<lparr>lru_new = [], lru_iter = lru_norm,
      lru_get = (\<lambda>l k. (map_of (lru_norm l) k, touch k (lru_norm l))),
      lru_peek = (\<lambda>l k. map_of (lru_norm l) k),
      lru_contains = (\<lambda>l k. map_of (lru_norm l) k \<noteq> None),
      lru_insert = (\<lambda>l k v. l @ [(k, v)]),
      lru_remove = (\<lambda>l k. (map_of (lru_norm l) k, filter (\<lambda>x. fst x \<noteq> k) (lru_norm l))),
      lru_remove_lru = (\<lambda>l. (case lru_norm l of [] \<Rightarrow> None | x # _ \<Rightarrow> Some x, tl (lru_norm l))),
      lru_drain = (\<lambda>l. (lru_norm l, [])),
      lru_len = (\<lambda>l. length (lru_norm l))\<rparr>"

lemma lru_norm_snoc [simp]:
  "lru_norm [] = []" "lru_norm (l @ [x]) = filter (\<lambda>y. fst y \<noteq> fst x) (lru_norm l) @ [x]"
  by (simp_all add: lru_norm_def)

lemma lru_norm_distinct: "distinct (map fst (lru_norm l))"
  by (induction l rule: rev_induct) (auto simp: distinct_map_filter)

lemma lru_norm_id: "distinct (map fst l) \<Longrightarrow> lru_norm l = l"
proof (induction l rule: rev_induct)
  case (snoc x l)
  then have "filter (\<lambda>y. fst y \<noteq> fst x) l = l" by (intro filter_neq_id) simp
  with snoc show ?case by simp
qed simp

lemma distinct_touch: "distinct (map fst xs) \<Longrightarrow> distinct (map fst (touch k xs))"
  by (auto simp: touch_def distinct_map_filter)

lemma lru_norm_ops:
  "lru_norm (touch k (lru_norm l)) = touch k (lru_norm l)"
  "lru_norm (filter (\<lambda>x. fst x \<noteq> k) (lru_norm l)) = filter (\<lambda>x. fst x \<noteq> k) (lru_norm l)"
  "lru_norm (tl (lru_norm l)) = tl (lru_norm l)"
  using lru_norm_distinct[of l]
  by (simp_all add: lru_norm_id distinct_touch distinct_map_filter distinct_tl map_tl)

lemma list_lru_laws: "lru_laws list_lru"
  by (simp add: lru_laws_def list_lru_def lru_norm_distinct lru_norm_ops)

theorem sketch_never_underestimates_witness:
  "min 255 (count_list [\<lparr>namespace = [], hash = [1]\<rparr>, \<lparr>namespace = [], hash = [1]\<rparr>]
      \<lparr>namespace = [], hash = [1 :: u8]\<rparr>) \<le>
   unat (estimator_get (foldl (\<lambda>e k. fst (estimator_incr e k)) (estimator_new 2 16 (\<lambda>i k. of_nat i))
      [\<lparr>namespace = [], hash = [1]\<rparr>, \<lparr>namespace = [], hash = [1]\<rparr>]) \<lparr>namespace = [], hash = [1]\<rparr>)"
  by (rule sketch_never_underestimates[of 16 2 3 1])
    (simp add: optimal_paras_def min_estimator_slots_def min_estimator_hashes_def)

theorem cache_insert_contract_witness:
  "\<exists>c'. cache_insert list_lru \<lparr>cache_lru = [], cache_freq = None\<rparr> \<lparr>namespace = [], hash = [1]\<rparr>
       \<lparr>arc_id = 0, arc_inner = \<lparr>sealed_slots = [], sealed_footprint = 0, sealed_numas = []\<rparr>\<rparr> = (c', InsertedNew) \<and>
     resident list_lru c' \<lparr>namespace = [], hash = [1]\<rparr> \<noteq> None"
proof -
  let ?k = "\<lparr>namespace = [], hash = [1 :: u8]\<rparr>"
  let ?v = "\<lparr>arc_id = 0, arc_inner = \<lparr>sealed_slots = [], sealed_footprint = 0, sealed_numas = []\<rparr>\<rparr>"
  have "cache_insert list_lru \<lparr>cache_lru = [], cache_freq = None\<rparr> ?k ?v =
      (\<lparr>cache_lru = [(?k, ?v)], cache_freq = None\<rparr>, InsertedNew)"
    by (simp add: cache_insert_def list_lru_def)
  from cache_insert_contract[OF list_lru_laws this] this show ?thesis by simp
qed

end
