(* ===== verification/Read_Cache.thy ===== *)
theory Read_Cache
  imports Tiny_Lfu "HOL-Library.Multiset" "HOL-Library.Sublist"
begin

text \<open>
  The read cache (\<open>pegaflow-core/src/storage/read_cache.rs\<close>): resident blocks, their two
  replacement classes with per-class byte counts, lookups, demotion, pressure eviction and
  the candidates for decode backup. Every method runs under one mutex, so a method is one
  function on \<open>read_cache\<close>. \<open>L\<close> and \<open>M\<close> are the operations of the LRU maps of blocks
  and of metadata, \<open>now\<close> is the clock, and \<open>strong_count\<close> gives the owners of an
  \<open>Arc\<close>. Byte counts are 64-bit words with the unchecked arithmetic of the code. Metrics
  are not modelled.
\<close>

section \<open>State\<close>

record resident_metadata =
  inserted_at :: nat
  generation :: u64
  meta_bytes :: u64

type_synonym 'm meta_lru = "('m, block_key, resident_metadata) lru_ops"

datatype resident_class = Reclaimable | Retained

record class_bytes =
  cb_reclaimable :: u64
  cb_retained :: u64

record ('l, 'm) read_cache =
  rc_cache :: "'l tiny_lfu_cache"
  rc_reclaimable :: 'm
  rc_retained :: 'm
  next_generation :: u64
  rc_bytes :: class_bytes
  pressured :: bool

record cache_config =
  capacity_bytes :: u64
  backup_reclaimable_percent :: u64

datatype cache_panic = CandidateNotResident

section \<open>Operations\<close>

definition read_cache_new :: "'m meta_lru \<Rightarrow> 'l tiny_lfu_cache \<Rightarrow> ('l, 'm) read_cache" where
  "read_cache_new M cache =
     \<lparr>rc_cache = cache, rc_reclaimable = lru_new M, rc_retained = lru_new M, next_generation = 0,
      rc_bytes = \<lparr>cb_reclaimable = 0, cb_retained = 0\<rparr>, pressured = False\<rparr>"

definition with_backup_reclaimable_percent :: "u64 \<Rightarrow> cache_config \<Rightarrow> cache_config" where
  "with_backup_reclaimable_percent percent c = c\<lparr>backup_reclaimable_percent := min percent 100\<rparr>"

fun class_lru :: "('l, 'm) read_cache \<Rightarrow> resident_class \<Rightarrow> 'm" where
  "class_lru s Reclaimable = rc_reclaimable s"
| "class_lru s Retained = rc_retained s"

fun set_class_lru :: "('l, 'm) read_cache \<Rightarrow> resident_class \<Rightarrow> 'm \<Rightarrow> ('l, 'm) read_cache" where
  "set_class_lru s Reclaimable m = s\<lparr>rc_reclaimable := m\<rparr>"
| "set_class_lru s Retained m = s\<lparr>rc_retained := m\<rparr>"

fun map_class_bytes :: "('l, 'm) read_cache \<Rightarrow> resident_class \<Rightarrow> (u64 \<Rightarrow> u64) \<Rightarrow> ('l, 'm) read_cache" where
  "map_class_bytes s Reclaimable f = s\<lparr>rc_bytes := (rc_bytes s)\<lparr>cb_reclaimable := f (cb_reclaimable (rc_bytes s))\<rparr>\<rparr>"
| "map_class_bytes s Retained f = s\<lparr>rc_bytes := (rc_bytes s)\<lparr>cb_retained := f (cb_retained (rc_bytes s))\<rparr>\<rparr>"

text \<open>The disjunction short-circuits: a reclaimable hit leaves the retained class alone.\<close>

definition refresh_recency :: "'m meta_lru \<Rightarrow> ('l, 'm) read_cache \<Rightarrow> block_key \<Rightarrow> ('l, 'm) read_cache" where
  "refresh_recency M s k =
     (let (hit, m) = lru_get M (rc_reclaimable s) k; s1 = s\<lparr>rc_reclaimable := m\<rparr>
      in if hit \<noteq> None then s1 else s1\<lparr>rc_retained := snd (lru_get M (rc_retained s1) k)\<rparr>)"

definition insert_block ::
  "'l block_lru \<Rightarrow> 'm meta_lru \<Rightarrow> nat \<Rightarrow> ('l, 'm) read_cache \<Rightarrow> block_key \<Rightarrow> arc_block \<Rightarrow> resident_class \<Rightarrow>
   ('l, 'm) read_cache \<times> cache_insert_outcome" where
  "insert_block L M now s k b cls =
     (let fp = sealed_footprint (arc_inner b);
          (c, outcome) = cache_insert L (rc_cache s) k b;
          s1 = s\<lparr>rc_cache := c\<rparr>
      in case outcome of
           InsertedNew \<Rightarrow>
             let s2 = s1\<lparr>next_generation := next_generation s1 + 1\<rparr>;
                 s3 = set_class_lru s2 cls (lru_insert M (class_lru s2 cls) k
                        \<lparr>inserted_at = now, generation = next_generation s2, meta_bytes = fp\<rparr>)
             in (map_class_bytes s3 cls (\<lambda>n. n + fp), outcome)
         | AlreadyExists \<Rightarrow> (refresh_recency M s1 k, outcome)
         | Rejected \<Rightarrow> (s1, outcome))"

fun batch_insert ::
  "'l block_lru \<Rightarrow> 'm meta_lru \<Rightarrow> nat \<Rightarrow> ('l, 'm) read_cache \<Rightarrow> (block_key \<times> arc_block) list \<Rightarrow>
   ('l, 'm) read_cache" where
  "batch_insert L M now s [] = s"
| "batch_insert L M now s ((k, b) # bs) =
     batch_insert L M now (fst (insert_block L M now s k b Retained)) bs"

fun batch_insert_refs ::
  "'l block_lru \<Rightarrow> 'm meta_lru \<Rightarrow> nat \<Rightarrow> ('l, 'm) read_cache \<Rightarrow> (block_key \<times> arc_block) list \<Rightarrow>
   ('l, 'm) read_cache \<times> block_key list" where
  "batch_insert_refs L M now s [] = (s, [])"
| "batch_insert_refs L M now s ((k, b) # bs) =
     (let (s1, outcome) = insert_block L M now s k b Retained;
          (s2, ks) = batch_insert_refs L M now s1 bs
      in (s2, if outcome = InsertedNew \<or> outcome = AlreadyExists then k # ks else ks))"

definition contains_keys :: "'l block_lru \<Rightarrow> ('l, 'm) read_cache \<Rightarrow> block_key list \<Rightarrow> bool list" where
  "contains_keys L s ks = map (cache_contains_key L (rc_cache s)) ks"

definition peek_blocks :: "'l block_lru \<Rightarrow> ('l, 'm) read_cache \<Rightarrow> block_key list \<Rightarrow> arc_block option list" where
  "peek_blocks L s ks = map (cache_peek L (rc_cache s)) ks"

text \<open>One lookup: \<open>cache.get\<close>, then \<open>refresh_recency\<close> on a hit.\<close>

definition get_touch ::
  "'l block_lru \<Rightarrow> 'm meta_lru \<Rightarrow> ('l, 'm) read_cache \<Rightarrow> block_key \<Rightarrow> arc_block option \<times> ('l, 'm) read_cache"
where
  "get_touch L M s k =
     (let (hit, c) = cache_get L (rc_cache s) k; s1 = s\<lparr>rc_cache := c\<rparr>
      in (hit, if hit \<noteq> None then refresh_recency M s1 k else s1))"

fun get_prefix_blocks ::
  "'l block_lru \<Rightarrow> 'm meta_lru \<Rightarrow> ('l, 'm) read_cache \<Rightarrow> block_key list \<Rightarrow>
   (nat \<times> arc_block list) \<times> ('l, 'm) read_cache" where
  "get_prefix_blocks L M s [] = ((0, []), s)"
| "get_prefix_blocks L M s (k # ks) =
     (let (hit, s1) = get_touch L M s k
      in case hit of
           None \<Rightarrow> ((0, []), s1)
         | Some b \<Rightarrow> let ((n, bs), s2) = get_prefix_blocks L M s1 ks in ((n + 1, b # bs), s2))"

fun get_blocks_aligned ::
  "'l block_lru \<Rightarrow> 'm meta_lru \<Rightarrow> ('l, 'm) read_cache \<Rightarrow> block_key list \<Rightarrow>
   arc_block option list \<times> ('l, 'm) read_cache" where
  "get_blocks_aligned L M s [] = ([], s)"
| "get_blocks_aligned L M s (k # ks) =
     (let (hit, s1) = get_touch L M s k; (bs, s2) = get_blocks_aligned L M s1 ks in (hit # bs, s2))"

fun get_blocks ::
  "'l block_lru \<Rightarrow> 'm meta_lru \<Rightarrow> ('l, 'm) read_cache \<Rightarrow> block_key list \<Rightarrow>
   (block_key \<times> arc_block) list \<times> ('l, 'm) read_cache" where
  "get_blocks L M s [] = ([], s)"
| "get_blocks L M s (k # ks) =
     (let (hit, s1) = get_touch L M s k; (bs, s2) = get_blocks L M s1 ks
      in (case hit of None \<Rightarrow> bs | Some b \<Rightarrow> (k, b) # bs, s2))"

definition resident_generations ::
  "'m meta_lru \<Rightarrow> ('l, 'm) read_cache \<Rightarrow> block_key list \<Rightarrow> (block_key \<times> u64) list" where
  "resident_generations M s ks =
     List.map_filter (\<lambda>k.
       map_option (\<lambda>m. (k, generation m))
         (case lru_peek M (rc_reclaimable s) k of Some m \<Rightarrow> Some m | None \<Rightarrow> lru_peek M (rc_retained s) k)) ks"

definition mark_reclaimable_with_generation ::
  "'l block_lru \<Rightarrow> 'm meta_lru \<Rightarrow> ('l, 'm) read_cache \<Rightarrow> block_key \<Rightarrow> u64 option \<Rightarrow>
   u64 option \<times> ('l, 'm) read_cache" where
  "mark_reclaimable_with_generation L M s k expected =
     (if \<not> cache_contains_key L (rc_cache s) k then (None, s)
      else if (case expected of
                 None \<Rightarrow> False
               | Some g \<Rightarrow> (case lru_peek M (rc_retained s) k of
                     None \<Rightarrow> True | Some m \<Rightarrow> generation m \<noteq> g))
      then (None, s)
      else let (om, m') = lru_remove M (rc_retained s) k
           in case om of
                None \<Rightarrow> (None, s\<lparr>rc_retained := m'\<rparr>)
              | Some md \<Rightarrow>
                  (Some (meta_bytes md),
                   s\<lparr>rc_retained := m',
                     rc_bytes := \<lparr>cb_reclaimable = cb_reclaimable (rc_bytes s) + meta_bytes md,
                                  cb_retained = cb_retained (rc_bytes s) - meta_bytes md\<rparr>,
                     rc_reclaimable := lru_insert M (rc_reclaimable s) k md\<rparr>))"

fun mark_reclaimable_keys ::
  "'l block_lru \<Rightarrow> 'm meta_lru \<Rightarrow> ('l, 'm) read_cache \<Rightarrow> block_key list \<Rightarrow> nat \<times> ('l, 'm) read_cache" where
  "mark_reclaimable_keys L M s [] = (0, s)"
| "mark_reclaimable_keys L M s (k # ks) =
     (let (moved, s1) = mark_reclaimable_with_generation L M s k None;
          (n, s2) = mark_reclaimable_keys L M s1 ks
      in (if moved = None then n else n + 1, s2))"

definition mark_reclaimable_hashes ::
  "'l block_lru \<Rightarrow> 'm meta_lru \<Rightarrow> ('l, 'm) read_cache \<Rightarrow> string \<Rightarrow> block_hash list \<Rightarrow> nat \<times> ('l, 'm) read_cache"
where
  "mark_reclaimable_hashes L M s ns hashes =
     mark_reclaimable_keys L M s (map (\<lambda>h. \<lparr>namespace = ns, hash = h\<rparr>) hashes)"

fun mark_reclaimable_hashes_if_generation ::
  "'l block_lru \<Rightarrow> 'm meta_lru \<Rightarrow> ('l, 'm) read_cache \<Rightarrow> string \<Rightarrow> (block_hash \<rightharpoonup> u64) \<Rightarrow> block_hash list \<Rightarrow>
   ('l, 'm) read_cache" where
  "mark_reclaimable_hashes_if_generation L M s ns gens [] = s"
| "mark_reclaimable_hashes_if_generation L M s ns gens (h # hs) =
     mark_reclaimable_hashes_if_generation L M
       (case gens h of
          None \<Rightarrow> s
        | Some g \<Rightarrow> snd (mark_reclaimable_with_generation L M s \<lparr>namespace = ns, hash = h\<rparr> (Some g)))
       ns gens hs"

text \<open>
  \<open>remove_lru\<close> pops the class until it finds a resident block. Each pop shortens the class,
  so its length bounds the loop; the fuel is that length and one more.
\<close>

fun remove_lru_loop ::
  "'l block_lru \<Rightarrow> 'm meta_lru \<Rightarrow> nat \<Rightarrow> ('l, 'm) read_cache \<Rightarrow> resident_class \<Rightarrow>
   (block_key \<times> arc_block) option \<times> ('l, 'm) read_cache" where
  "remove_lru_loop L M 0 s cls = (None, s)"
| "remove_lru_loop L M (Suc fuel) s cls =
     (let (popped, m) = lru_remove_lru M (class_lru s cls); s1 = set_class_lru s cls m
      in case popped of
           None \<Rightarrow> (None, s1)
         | Some (k, md) \<Rightarrow>
             let (ob, c) = cache_remove L (rc_cache s1) k; s2 = s1\<lparr>rc_cache := c\<rparr>
             in case ob of
                  None \<Rightarrow> remove_lru_loop L M fuel s2 cls
                | Some b \<Rightarrow> (Some (k, b), map_class_bytes s2 cls (\<lambda>n. n - meta_bytes md)))"

definition remove_lru ::
  "'l block_lru \<Rightarrow> 'm meta_lru \<Rightarrow> ('l, 'm) read_cache \<Rightarrow> resident_class \<Rightarrow>
   (block_key \<times> arc_block) option \<times> ('l, 'm) read_cache" where
  "remove_lru L M s cls = remove_lru_loop L M (Suc (lru_len M (class_lru s cls))) s cls"

text \<open>The counted loop of \<open>remove_lru_batch_from_class\<close>; \<open>n\<close> counts the rounds left.\<close>

fun remove_class_loop ::
  "'l block_lru \<Rightarrow> 'm meta_lru \<Rightarrow> (nat \<Rightarrow> nat) \<Rightarrow> resident_class \<Rightarrow> nat \<Rightarrow> nat \<Rightarrow>
   ('l, 'm) read_cache \<Rightarrow> (block_key \<times> arc_block) list \<Rightarrow>
   cache_panic + (('l, 'm) read_cache \<times> (block_key \<times> arc_block) list)" where
  "remove_class_loop L M strong_count cls batch_size 0 s removed = Inr (s, removed)"
| "remove_class_loop L M strong_count cls batch_size (Suc n) s removed =
     (if length removed = batch_size then Inr (s, removed)
      else case lru_iter M (class_lru s cls) of
             [] \<Rightarrow> Inr (s, removed)
           | (k, _) # _ \<Rightarrow>
               if is_cache_owned_only L strong_count (rc_cache s) k
               then (case remove_lru L M s cls of
                       (None, _) \<Rightarrow> Inl CandidateNotResident
                     | (Some x, s1) \<Rightarrow>
                         remove_class_loop L M strong_count cls batch_size n s1 (removed @ [x]))
               else remove_class_loop L M strong_count cls batch_size n
                      (set_class_lru s cls (snd (lru_get M (class_lru s cls) k))) removed)"

definition remove_lru_batch_from_class ::
  "'l block_lru \<Rightarrow> 'm meta_lru \<Rightarrow> (nat \<Rightarrow> nat) \<Rightarrow> resident_class \<Rightarrow> nat \<Rightarrow>
   ('l, 'm) read_cache \<Rightarrow> (block_key \<times> arc_block) list \<Rightarrow>
   cache_panic + (('l, 'm) read_cache \<times> (block_key \<times> arc_block) list)" where
  "remove_lru_batch_from_class L M strong_count cls batch_size s removed =
     remove_class_loop L M strong_count cls batch_size (lru_len M (class_lru s cls)) s removed"

definition remove_lru_batch ::
  "'l block_lru \<Rightarrow> 'm meta_lru \<Rightarrow> (nat \<Rightarrow> nat) \<Rightarrow> nat \<Rightarrow> ('l, 'm) read_cache \<Rightarrow>
   cache_panic + (('l, 'm) read_cache \<times> (block_key \<times> arc_block) list)" where
  "remove_lru_batch L M strong_count batch_size s =
     bind_res (remove_lru_batch_from_class L M strong_count Reclaimable batch_size s []) (\<lambda>(s1, removed).
       bind_res (if length removed < batch_size
                 then remove_lru_batch_from_class L M strong_count Retained batch_size s1 removed
                 else Inr (s1, removed)) (\<lambda>(s2, removed').
         Inr (s2\<lparr>pressured := (pressured s2 \<or> removed' \<noteq> [])\<rparr>, removed')))"

definition remove_all ::
  "'l block_lru \<Rightarrow> 'm meta_lru \<Rightarrow> ('l, 'm) read_cache \<Rightarrow> (block_key \<times> arc_block) list \<times> ('l, 'm) read_cache"
where
  "remove_all L M s =
     (let m1 = snd (lru_drain M (rc_reclaimable s)); m2 = snd (lru_drain M (rc_retained s));
          (removed, c) = cache_remove_all L (rc_cache s)
      in (removed, s\<lparr>rc_reclaimable := m1, rc_retained := m2, rc_cache := c,
                     rc_bytes := \<lparr>cb_reclaimable = 0, cb_retained = 0\<rparr>, pressured := False\<rparr>))"

definition backup_report_budget :: "cache_config \<Rightarrow> ('l, 'm) read_cache \<Rightarrow> u64" where
  "backup_report_budget cfg s =
     (let res = saturating_add (cb_reclaimable (rc_bytes s)) (cb_retained (rc_bytes s))
      in if \<not> pressured s \<and> saturating_mul res 100 < saturating_mul (capacity_bytes cfg) 90 then 0
         else saturating_sub (capacity_bytes cfg div 100 * backup_reclaimable_percent cfg)
                (cb_reclaimable (rc_bytes s)))"

fun candidate_loop ::
  "'l block_lru \<Rightarrow> (nat \<Rightarrow> nat) \<Rightarrow> 'l tiny_lfu_cache \<Rightarrow> u64 \<Rightarrow> nat \<Rightarrow> u64 \<Rightarrow> (block_key \<times> u64) list \<Rightarrow>
   (block_key \<times> resident_metadata) list \<Rightarrow> (block_key \<times> u64) list" where
  "candidate_loop L strong_count c max_bytes max_blocks tot cands [] = cands"
| "candidate_loop L strong_count c max_bytes max_blocks tot cands ((k, md) # xs) =
     (if max_bytes \<le> tot \<or> max_blocks \<le> length cands then cands
      else if \<not> is_cache_owned_only L strong_count c k
      then candidate_loop L strong_count c max_bytes max_blocks tot cands xs
      else candidate_loop L strong_count c max_bytes max_blocks (saturating_add tot (meta_bytes md))
             (cands @ [(k, meta_bytes md)]) xs)"

text \<open>
  \<open>max_blocks\<close> is a natural below \<open>2 ^ 64\<close>, and the saturating product with the scan
  factor 4 is written out.
\<close>

definition backup_candidates ::
  "'l block_lru \<Rightarrow> 'm meta_lru \<Rightarrow> (nat \<Rightarrow> nat) \<Rightarrow> ('l, 'm) read_cache \<Rightarrow> u64 \<Rightarrow> nat \<Rightarrow> (block_key \<times> u64) list"
where
  "backup_candidates L M strong_count s max_bytes max_blocks =
     candidate_loop L strong_count (rc_cache s) max_bytes max_blocks 0 []
       (take (min (2 ^ 64 - 1) (max_blocks * 4)) (lru_iter M (rc_retained s)))"

section \<open>Invariant\<close>

declare map_of_eq_Some_iff [simp del]

definition bytes_of :: "(block_key \<times> resident_metadata) list \<Rightarrow> u64" where
  "bytes_of xs = sum_list (map (\<lambda>x. meta_bytes (snd x)) xs)"

text \<open>
  The two classes split the resident blocks, every class entry records the footprint of its
  block, and the byte counters are the sums over the classes. \<open>A\<close> and \<open>B\<close> are the
  contents of the reclaimable and the retained class, \<open>C\<close> the resident blocks.
\<close>

definition rc_shape ::
  "(block_key \<rightharpoonup> arc_block) \<Rightarrow> (block_key \<times> resident_metadata) list \<Rightarrow>
   (block_key \<times> resident_metadata) list \<Rightarrow> class_bytes \<Rightarrow> bool" where
  "rc_shape C A B n \<longleftrightarrow>
     distinct (map fst A) \<and> distinct (map fst B) \<and>
     (\<forall>k. C k = None \<longleftrightarrow> map_of A k = None \<and> map_of B k = None) \<and>
     (\<forall>k. map_of A k = None \<or> map_of B k = None) \<and>
     (\<forall>k m b. (map_of A k = Some m \<or> map_of B k = Some m) \<and> C k = Some b \<longrightarrow>
        meta_bytes m = sealed_footprint (arc_inner b)) \<and>
     cb_reclaimable n = bytes_of A \<and> cb_retained n = bytes_of B"

definition rc_inv :: "'l block_lru \<Rightarrow> 'm meta_lru \<Rightarrow> ('l, 'm) read_cache \<Rightarrow> bool" where
  "rc_inv L M s \<longleftrightarrow>
     rc_shape (resident L (rc_cache s)) (lru_iter M (rc_reclaimable s)) (lru_iter M (rc_retained s)) (rc_bytes s)"

lemma bytes_of_simps [simp]:
  "bytes_of [] = 0" "bytes_of (x # xs) = meta_bytes (snd x) + bytes_of xs"
  "bytes_of (xs @ ys) = bytes_of xs + bytes_of ys" "bytes_of (touch k xs) = bytes_of xs"
  by (simp_all add: bytes_of_def sum_list_touch)

lemma bytes_of_remove:
  "distinct (map fst xs) \<Longrightarrow> map_of xs k = Some m \<Longrightarrow>
   bytes_of (filter (\<lambda>x. fst x \<noteq> k) xs) = bytes_of xs - meta_bytes m"
proof (induction xs)
  case (Cons x xs)
  show ?case
  proof (cases "fst x = k")
    case True
    with Cons.prems show ?thesis by (simp add: filter_neq_id)
  next
    case False
    with Cons show ?thesis by simp
  qed
qed simp

lemma fst_touch [simp]: "fst ` set (touch k xs) = fst ` set xs"
  by simp

lemma distinct_touch_iff [simp]: "distinct (map fst (touch k xs)) \<longleftrightarrow> distinct (map fst xs)"
proof -
  have "mset (map fst (touch k xs)) = mset (map fst xs)"
    unfolding touch_def by (induction xs) auto
  then show ?thesis by (metis mset_eq_imp_distinct_iff)
qed

lemma rc_shape_touch: "rc_shape C A B n \<Longrightarrow> rc_shape C (touch k A) B n \<and> rc_shape C A (touch k B) n"
  by (simp add: rc_shape_def)

lemma not_key_filter: "map_of xs k = None \<Longrightarrow> filter (\<lambda>x. fst x \<noteq> k) xs = xs"
  by (simp add: filter_neq_id map_of_eq_None_iff)

lemma map_of_snoc [simp]: "map_of xs k = None \<Longrightarrow> map_of (xs @ [(k, m)]) = (map_of xs)(k \<mapsto> m)"
  by (rule ext) (auto simp: map_add_def split: option.split)

lemma rc_shape_class:
  "rc_shape C A B n \<Longrightarrow> C k = Some b \<Longrightarrow> (map_of A k = None) \<noteq> (map_of B k = None)"
  unfolding rc_shape_def by (metis option.distinct(1))

lemma rc_shape_new:
  assumes "rc_shape C A B n" and "C k = None" and "meta_bytes m = sealed_footprint (arc_inner b)"
  shows "rc_shape (C(k \<mapsto> b)) (filter (\<lambda>x. fst x \<noteq> k) A @ [(k, m)]) B
      (n\<lparr>cb_reclaimable := cb_reclaimable n + meta_bytes m\<rparr>)"
    and "rc_shape (C(k \<mapsto> b)) A (filter (\<lambda>x. fst x \<noteq> k) B @ [(k, m)])
      (n\<lparr>cb_retained := cb_retained n + meta_bytes m\<rparr>)"
proof -
  have k: "map_of A k = None" "map_of B k = None" using assms(1,2) by (simp_all add: rc_shape_def)
  then have "k \<notin> fst ` set A" "k \<notin> fst ` set B" by (simp_all add: map_of_eq_None_iff)
  with k show "rc_shape (C(k \<mapsto> b)) (filter (\<lambda>x. fst x \<noteq> k) A @ [(k, m)]) B
      (n\<lparr>cb_reclaimable := cb_reclaimable n + meta_bytes m\<rparr>)"
    and "rc_shape (C(k \<mapsto> b)) A (filter (\<lambda>x. fst x \<noteq> k) B @ [(k, m)])
      (n\<lparr>cb_retained := cb_retained n + meta_bytes m\<rparr>)"
    using assms by (simp_all add: rc_shape_def not_key_filter del: map_of_append)
qed

lemma rc_shape_demote:
  assumes "rc_shape C A B n" and "map_of B k = Some m"
  shows "rc_shape C (filter (\<lambda>x. fst x \<noteq> k) A @ [(k, m)]) (filter (\<lambda>x. fst x \<noteq> k) B)
    \<lparr>cb_reclaimable = cb_reclaimable n + meta_bytes m, cb_retained = cb_retained n - meta_bytes m\<rparr>"
proof -
  have A: "map_of A k = None" using assms unfolding rc_shape_def by (metis option.distinct(1))
  then have "k \<notin> fst ` set A" by (simp add: map_of_eq_None_iff)
  moreover have "C k \<noteq> None" using assms by (simp add: rc_shape_def)
  moreover have "C k = Some b \<Longrightarrow> meta_bytes m = sealed_footprint (arc_inner b)" for b
    using assms unfolding rc_shape_def by blast
  ultimately show ?thesis using assms A
    by (auto simp: rc_shape_def not_key_filter map_of_filter_neq bytes_of_remove distinct_map_filter
        simp del: map_of_append)
qed

lemma rc_shape_evict:
  "rc_shape C ((k, m) # A) B n \<Longrightarrow>
   rc_shape (C(k := None)) A B (n\<lparr>cb_reclaimable := cb_reclaimable n - meta_bytes m\<rparr>)"
  "rc_shape C A ((k, m) # B) n \<Longrightarrow>
   rc_shape (C(k := None)) A B (n\<lparr>cb_retained := cb_retained n - meta_bytes m\<rparr>)"
  by (auto simp: rc_shape_def map_of_eq_None_iff split: if_splits)

subsection \<open>Every operation keeps it\<close>

text \<open>What a lookup or a refresh may change: the order of the class lists, nothing else.\<close>

definition same_contents ::
  "'l block_lru \<Rightarrow> 'm meta_lru \<Rightarrow> ('l, 'm) read_cache \<Rightarrow> ('l, 'm) read_cache \<Rightarrow> bool" where
  "same_contents L M s s' \<longleftrightarrow>
     resident L (rc_cache s') = resident L (rc_cache s) \<and>
     map_of (lru_iter M (rc_reclaimable s')) = map_of (lru_iter M (rc_reclaimable s)) \<and>
     map_of (lru_iter M (rc_retained s')) = map_of (lru_iter M (rc_retained s)) \<and>
     next_generation s' = next_generation s \<and> rc_bytes s' = rc_bytes s \<and> pressured s' = pressured s"

lemma same_contents_refl [simp]: "same_contents L M s s"
  by (simp add: same_contents_def)

lemma same_contents_trans: "same_contents L M a b \<Longrightarrow> same_contents L M b c \<Longrightarrow> same_contents L M a c"
  by (simp add: same_contents_def)

lemma refresh_recency_spec:
  assumes "lru_laws M"
  shows "same_contents L M s (refresh_recency M s k)"
    and "rc_inv L M s \<Longrightarrow> rc_inv L M (refresh_recency M s k)"
  using lru_lawsD(4)[OF assms] rc_shape_touch
  by (auto simp: refresh_recency_def same_contents_def rc_inv_def Let_def case_prod_beta)

lemma get_touch_spec:
  assumes "lru_laws L" and "lru_laws M"
  shows "fst (get_touch L M s k) = resident L (rc_cache s) k"
    and "same_contents L M s (snd (get_touch L M s k))"
    and "rc_inv L M s \<Longrightarrow> rc_inv L M (snd (get_touch L M s k))"
proof -
  let ?s1 = "s\<lparr>rc_cache := snd (cache_get L (rc_cache s) k)\<rparr>"
  have s1: "same_contents L M s ?s1" "rc_inv L M s \<Longrightarrow> rc_inv L M ?s1"
    by (simp_all add: same_contents_def rc_inv_def cache_views(5)[OF assms(1)])
  have g: "get_touch L M s k =
      (resident L (rc_cache s) k,
       if resident L (rc_cache s) k \<noteq> None then refresh_recency M ?s1 k else ?s1)"
    by (simp add: get_touch_def case_prod_beta cache_views(4)[OF assms(1)] Let_def)
  then show "fst (get_touch L M s k) = resident L (rc_cache s) k" by simp
  show "same_contents L M s (snd (get_touch L M s k))"
    using g s1(1) refresh_recency_spec(1)[OF assms(2), of L ?s1 k] same_contents_trans by auto
  show "rc_inv L M s \<Longrightarrow> rc_inv L M (snd (get_touch L M s k))"
    using g s1(2) refresh_recency_spec(2)[OF assms(2), of L ?s1 k] by auto
qed

lemma insert_block_inv:
  assumes L: "lru_laws L" and M: "lru_laws M" and inv: "rc_inv L M s"
  shows "rc_inv L M (fst (insert_block L M now s k b cls))"
proof -
  obtain c out where ci: "cache_insert L (rc_cache s) k b = (c, out)" by fastforce
  from L ci show ?thesis
  proof (cases rule: cache_insert_cases)
    case (Exists b')
    then have "rc_inv L M (s\<lparr>rc_cache := c\<rparr>)" using inv by (simp add: rc_inv_def resident_def)
    then show ?thesis
      using Exists ci refresh_recency_spec(2)[OF M] by (simp add: insert_block_def Let_def)
  next
    case (Reject f victim b' rest)
    then show ?thesis using ci inv by (simp add: insert_block_def Let_def rc_inv_def resident_def)
  next
    case New
    have r: "resident L c = (resident L (rc_cache s))(k \<mapsto> b)"
      using New(3) by (simp add: resident_def lru_lawsD(7)[OF L])
    let ?m = "\<lparr>inserted_at = now, generation = next_generation s + 1,
               meta_bytes = sealed_footprint (arc_inner b)\<rparr>"
    note sh = rc_shape_new[OF inv[unfolded rc_inv_def] New(2), of ?m b]
    show ?thesis using New(1) ci sh r
      by (cases cls) (simp_all add: insert_block_def Let_def rc_inv_def lru_lawsD(7)[OF M])
  qed
qed

lemma batch_insert_inv:
  assumes "lru_laws L" and "lru_laws M"
  shows "rc_inv L M s \<Longrightarrow> rc_inv L M (batch_insert L M now s bs)"
    and "rc_inv L M s \<Longrightarrow> rc_inv L M (fst (batch_insert_refs L M now s bs))"
  by (induction bs arbitrary: s)
    (auto simp: insert_block_inv[OF assms] Let_def case_prod_beta)

definition demoted :: "'m meta_lru \<Rightarrow> ('l, 'm) read_cache \<Rightarrow> block_key \<Rightarrow> resident_metadata \<Rightarrow> ('l, 'm) read_cache"
where
  "demoted M s k m =
     s\<lparr>rc_retained := snd (lru_remove M (rc_retained s) k),
       rc_bytes := \<lparr>cb_reclaimable = cb_reclaimable (rc_bytes s) + meta_bytes m,
                    cb_retained = cb_retained (rc_bytes s) - meta_bytes m\<rparr>,
       rc_reclaimable := lru_insert M (rc_reclaimable s) k m\<rparr>"

lemma mark_reclaimable_eq:
  assumes "lru_laws L" and "lru_laws M"
  shows "mark_reclaimable_with_generation L M s k expected =
    (if resident L (rc_cache s) k = None then (None, s)
     else case map_of (lru_iter M (rc_retained s)) k of
       None \<Rightarrow> (None, if expected = None then s\<lparr>rc_retained := snd (lru_remove M (rc_retained s) k)\<rparr> else s)
     | Some m \<Rightarrow> if expected = None \<or> expected = Some (generation m)
                 then (Some (meta_bytes m), demoted M s k m) else (None, s))"
  unfolding mark_reclaimable_with_generation_def cache_views(1)[OF assms(1)] lru_lawsD(5)[OF assms(2)]
  by (cases expected; cases "map_of (lru_iter M (rc_retained s)) k")
    (simp_all add: case_prod_beta lru_lawsD(8)[OF assms(2)] demoted_def)

lemma mark_reclaimable_spec:
  assumes L: "lru_laws L" and M: "lru_laws M" and inv: "rc_inv L M s"
    and mk: "mark_reclaimable_with_generation L M s k expected = (moved, s')"
  shows "rc_inv L M s' \<and> rc_cache s' = rc_cache s \<and>
    (case map_of (lru_iter M (rc_retained s)) k of
       None \<Rightarrow> moved = None \<and> same_contents L M s s'
     | Some m \<Rightarrow>
         if expected = None \<or> expected = Some (generation m)
         then moved = Some (meta_bytes m) \<and> map_of (lru_iter M (rc_retained s')) k = None \<and>
              map_of (lru_iter M (rc_reclaimable s')) k = Some m
         else moved = None \<and> s' = s)"
proof (cases "map_of (lru_iter M (rc_retained s)) k")
  case None
  then have "rc_inv L M (s\<lparr>rc_retained := snd (lru_remove M (rc_retained s) k)\<rparr>)"
      "same_contents L M s (s\<lparr>rc_retained := snd (lru_remove M (rc_retained s) k)\<rparr>)"
    using inv by (simp_all add: rc_inv_def lru_lawsD(9)[OF M] not_key_filter same_contents_def)
  with None mk inv show ?thesis by (auto simp: mark_reclaimable_eq[OF L M] split: if_splits)
next
  case (Some m)
  then have "resident L (rc_cache s) k \<noteq> None" using inv by (simp add: rc_inv_def rc_shape_def)
  moreover have "rc_inv L M (demoted M s k m)"
    using rc_shape_demote[OF inv[unfolded rc_inv_def] Some]
    by (simp add: rc_inv_def demoted_def lru_lawsD(7,9)[OF M])
  moreover have "map_of (lru_iter M (rc_retained (demoted M s k m))) k = None"
      "map_of (lru_iter M (rc_reclaimable (demoted M s k m))) k = Some m"
      "rc_cache (demoted M s k m) = rc_cache s"
    by (simp_all add: demoted_def lru_lawsD(7,9)[OF M] map_of_filter_neq)
  ultimately show ?thesis using Some mk inv by (auto simp: mark_reclaimable_eq[OF L M] split: if_splits)
qed

subsection \<open>Pressure eviction\<close>

definition class_items ::
  "'m meta_lru \<Rightarrow> ('l, 'm) read_cache \<Rightarrow> resident_class \<Rightarrow> (block_key \<times> resident_metadata) list" where
  "class_items M s cls = lru_iter M (class_lru s cls)"

fun other_class :: "resident_class \<Rightarrow> resident_class" where
  "other_class Reclaimable = Retained"
| "other_class Retained = Reclaimable"

lemma class_items_resident:
  "rc_inv L M s \<Longrightarrow> (k, m) \<in> set (class_items M s cls) \<Longrightarrow> resident L (rc_cache s) k \<noteq> None"
  by (cases cls) (auto simp: rc_inv_def rc_shape_def class_items_def map_of_eq_None_iff simp del: not_None_eq
      intro!: rev_image_eqI)

lemma class_items_distinct: "rc_inv L M s \<Longrightarrow> distinct (map fst (class_items M s cls))"
  by (cases cls) (simp_all add: rc_inv_def rc_shape_def class_items_def)

lemma remove_lru_head:
  assumes L: "lru_laws L" and M: "lru_laws M" and inv: "rc_inv L M s"
    and items: "class_items M s cls = (k, m) # rest"
  obtains b s' where "resident L (rc_cache s) k = Some b" "remove_lru L M s cls = (Some (k, b), s')"
    "rc_inv L M s'" "resident L (rc_cache s') = (resident L (rc_cache s))(k := None)"
    "class_items M s' cls = rest" "class_items M s' (other_class cls) = class_items M s (other_class cls)"
    "pressured s' = pressured s"
proof -
  obtain b where b: "resident L (rc_cache s) k = Some b"
    using class_items_resident[OF inv, of k m cls] items by auto
  define m' where "m' = snd (lru_remove_lru M (class_lru s cls))"
  define c where "c = snd (cache_remove L (rc_cache s) k)"
  have pop: "lru_remove_lru M (class_lru s cls) = (Some (k, m), m')" "lru_iter M m' = rest"
    using items lru_lawsD(10,11)[OF M, of "class_lru s cls"]
    by (simp_all add: class_items_def m'_def prod_eq_iff)
  have rem: "cache_remove L (rc_cache s) k = (Some b, c)" "resident L c = (resident L (rc_cache s))(k := None)"
    using b cache_views(6,7)[OF L, of "rc_cache s" k] by (simp_all add: c_def prod_eq_iff)
  define s' where "s' = map_class_bytes ((set_class_lru s cls m')\<lparr>rc_cache := c\<rparr>) cls (\<lambda>n. n - meta_bytes m)"
  have "rc_cache (set_class_lru s cls m') = rc_cache s" by (cases cls) simp_all
  then have "remove_lru L M s cls = (Some (k, b), s')"
    using pop(1) rem(1) by (simp add: remove_lru_def s'_def)
  moreover have "rc_inv L M s'" using inv items pop(2) rem(2) rc_shape_evict
    by (cases cls) (simp_all add: rc_inv_def s'_def class_items_def)
  moreover have "resident L (rc_cache s') = (resident L (rc_cache s))(k := None)"
      "class_items M s' cls = rest" "class_items M s' (other_class cls) = class_items M s (other_class cls)"
      "pressured s' = pressured s"
    using rem(2) pop(2) by (cases cls; simp add: s'_def class_items_def)+
  ultimately show thesis using b by (intro that)
qed

lemma rotate_pinned:
  assumes M: "lru_laws M" and inv: "rc_inv L M s" and items: "class_items M s cls = (k, m) # rest"
  defines "s' \<equiv> set_class_lru s cls (snd (lru_get M (class_lru s cls) k))"
  shows "rc_inv L M s'" "rc_cache s' = rc_cache s" "class_items M s' cls = rest @ [(k, m)]"
    "class_items M s' (other_class cls) = class_items M s (other_class cls)" "pressured s' = pressured s"
proof -
  have t: "lru_iter M (snd (lru_get M (class_lru s cls) k)) = rest @ [(k, m)]"
    using items class_items_distinct[OF inv, of cls] lru_lawsD(4)[OF M, of "class_lru s cls" k]
    by (simp add: class_items_def touch_head)
  show "rc_inv L M s'" using inv rc_shape_touch
    by (cases cls) (simp_all add: s'_def rc_inv_def lru_lawsD(4)[OF M])
  show "rc_cache s' = rc_cache s" "class_items M s' cls = rest @ [(k, m)]"
    "class_items M s' (other_class cls) = class_items M s (other_class cls)" "pressured s' = pressured s"
    using t by (cases cls; simp add: s'_def class_items_def)+
qed

text \<open>A block of the class that nobody but the cache owns.\<close>

definition unpinned :: "(nat \<Rightarrow> nat) \<Rightarrow> (block_key \<rightharpoonup> arc_block) \<Rightarrow> block_key \<times> 'a \<Rightarrow> bool" where
  "unpinned strong_count C x \<longleftrightarrow> (\<exists>b. C (fst x) = Some b \<and> strong_count (arc_id b) = 1)"

definition victims :: "(block_key \<rightharpoonup> arc_block) \<Rightarrow> (block_key \<times> 'a) list \<Rightarrow> (block_key \<times> arc_block) list" where
  "victims C xs = map (\<lambda>x. (fst x, the (C (fst x)))) xs"

lemma victims_keys: "fst ` set (victims C xs) = fst ` set xs"
  by (simp add: victims_def image_image)

lemma restrict_map_all [simp]: "m |` UNIV = m"
  by (simp add: restrict_map_def)

text \<open>
  What one pass over a class leaves behind: the visited part \<open>Q1\<close> of its entries \<open>Q\<close>
  has lost its unpinned blocks, in order, and its pinned ones have moved behind the rest.
\<close>

definition class_evicted ::
  "'l block_lru \<Rightarrow> 'm meta_lru \<Rightarrow> (nat \<Rightarrow> nat) \<Rightarrow> resident_class \<Rightarrow> nat \<Rightarrow> (block_key \<rightharpoonup> arc_block) \<Rightarrow>
   (block_key \<times> resident_metadata) list \<Rightarrow> (block_key \<times> resident_metadata) list \<Rightarrow>
   (block_key \<times> resident_metadata) list \<Rightarrow> nat \<Rightarrow> ('l, 'm) read_cache \<Rightarrow> ('l, 'm) read_cache \<Rightarrow> bool" where
  "class_evicted L M strong_count cls batch_size C P Q1 Q2 n s s' \<longleftrightarrow>
     rc_inv L M s' \<and> class_items M s' cls = Q2 @ P @ filter (\<lambda>x. \<not> unpinned strong_count C x) Q1 \<and>
     class_items M s' (other_class cls) = class_items M s (other_class cls) \<and>
     resident L (rc_cache s') = resident L (rc_cache s) |` (- fst ` set (filter (unpinned strong_count C) Q1)) \<and>
     n + length (filter (unpinned strong_count C) Q1) \<le> batch_size \<and>
     (Q2 = [] \<or> n + length (filter (unpinned strong_count C) Q1) = batch_size) \<and>
     pressured s' = pressured s"

lemma class_evicted_victim:
  assumes "class_evicted L M sc cls bs C P Q1 Q2 (Suc n) s1 s'" and "unpinned sc C x"
    and "resident L (rc_cache s1) = (resident L (rc_cache s))(fst x := None)"
    and "class_items M s1 (other_class cls) = class_items M s (other_class cls)" and "pressured s1 = pressured s"
  shows "class_evicted L M sc cls bs C P (x # Q1) Q2 n s s'"
proof -
  have "(resident L (rc_cache s))(fst x := None) |` (- fst ` set (filter (unpinned sc C) Q1)) =
      resident L (rc_cache s) |` (- insert (fst x) (fst ` set (filter (unpinned sc C) Q1)))"
    by (auto simp: restrict_map_def fun_eq_iff)
  with assms show ?thesis by (simp add: class_evicted_def)
qed

lemma class_evicted_pinned:
  assumes "class_evicted L M sc cls bs C (P @ [x]) Q1 Q2 n s1 s'" and "\<not> unpinned sc C x"
    and "rc_cache s1 = rc_cache s"
    and "class_items M s1 (other_class cls) = class_items M s (other_class cls)" and "pressured s1 = pressured s"
  shows "class_evicted L M sc cls bs C P (x # Q1) Q2 n s s'"
  using assms by (simp add: class_evicted_def)

lemma remove_class_loop_spec:
  assumes L: "lru_laws L" and M: "lru_laws M" and "rc_inv L M s"
    and "class_items M s cls = Q @ P" and "\<And>x. x \<in> set Q \<Longrightarrow> resident L (rc_cache s) (fst x) = C (fst x)"
    and "length removed \<le> bs"
  shows "\<exists>s' Q1 Q2. Q = Q1 @ Q2 \<and>
    remove_class_loop L M sc cls bs (length Q) s removed =
      Inr (s', removed @ victims C (filter (unpinned sc C) Q1)) \<and>
    class_evicted L M sc cls bs C P Q1 Q2 (length removed) s s'"
  using assms(3-)
proof (induction Q arbitrary: s P removed)
  case Nil
  then show ?case by (intro exI[of _ s]) (simp add: victims_def class_evicted_def)
next
  case (Cons x Q)
  obtain k m where x: "x = (k, m)" by fastforce
  have items: "class_items M s cls = (k, m) # Q @ P" using Cons.prems(2) x by simp
  have dist: "fst y \<noteq> k" if "y \<in> set Q" for y
    using class_items_distinct[OF Cons.prems(1), of cls] items that by auto
  have Ck: "C k = resident L (rc_cache s) k" using Cons.prems(3)[of x] x by simp
  have own: "is_cache_owned_only L sc (rc_cache s) k \<longleftrightarrow> unpinned sc C x"
    by (simp add: cache_views(3)[OF L] unpinned_def x Ck)
  have it: "lru_iter M (class_lru s cls) = (k, m) # Q @ P" using items by (simp add: class_items_def)
  show ?case
  proof (cases "length removed = bs")
    case True
    then show ?thesis using Cons.prems
      by (intro exI[of _ s] exI[of _ "[]"] exI[of _ "x # Q"]) (simp add: victims_def class_evicted_def)
  next
    case room: False
    show ?thesis
    proof (cases "unpinned sc C x")
      case True
      from L M Cons.prems(1) items obtain b s1 where R:
        "resident L (rc_cache s) k = Some b" "remove_lru L M s cls = (Some (k, b), s1)" "rc_inv L M s1"
        "resident L (rc_cache s1) = (resident L (rc_cache s))(k := None)" "class_items M s1 cls = Q @ P"
        "class_items M s1 (other_class cls) = class_items M s (other_class cls)" "pressured s1 = pressured s"
        by (rule remove_lru_head)
      have ag: "resident L (rc_cache s1) (fst y) = C (fst y)" if "y \<in> set Q" for y
        using R(4) dist[OF that] Cons.prems(3)[of y] that by simp
      have "length (removed @ [(k, b)]) \<le> bs" using room Cons.prems(4) by simp
      from Cons.IH[OF R(3,5) ag this] obtain s' Q1 Q2 where IH: "Q = Q1 @ Q2"
        "remove_class_loop L M sc cls bs (length Q) s1 (removed @ [(k, b)]) =
          Inr (s', (removed @ [(k, b)]) @ victims C (filter (unpinned sc C) Q1))"
        "class_evicted L M sc cls bs C P Q1 Q2 (length (removed @ [(k, b)])) s1 s'" by blast
      have "class_evicted L M sc cls bs C P (x # Q1) Q2 (length removed) s s'"
        using IH(3) R(4,6,7) True by (intro class_evicted_victim[of _ _ _ _ _ _ _ _ _ _ s1]) (simp_all add: x)
      moreover have "remove_class_loop L M sc cls bs (length (x # Q)) s removed =
          Inr (s', removed @ victims C (filter (unpinned sc C) (x # Q1)))"
        using IH(2) R(1,2) True room own it by (simp add: victims_def x Ck)
      ultimately show ?thesis using IH(1) by (intro exI[of _ s'] exI[of _ "x # Q1"] exI[of _ Q2]) simp
    next
      case False
      let ?s1 = "set_class_lru s cls (snd (lru_get M (class_lru s cls) k))"
      note R = rotate_pinned[OF M Cons.prems(1) items]
      have ag: "resident L (rc_cache ?s1) (fst y) = C (fst y)" if "y \<in> set Q" for y
        using R(2) Cons.prems(3)[of y] that by simp
      have "class_items M ?s1 cls = Q @ (P @ [(k, m)])" using R(3) by simp
      from Cons.IH[OF R(1) this ag Cons.prems(4)] obtain s' Q1 Q2 where IH: "Q = Q1 @ Q2"
        "remove_class_loop L M sc cls bs (length Q) ?s1 removed =
          Inr (s', removed @ victims C (filter (unpinned sc C) Q1))"
        "class_evicted L M sc cls bs C (P @ [(k, m)]) Q1 Q2 (length removed) ?s1 s'" by blast
      have "class_evicted L M sc cls bs C P (x # Q1) Q2 (length removed) s s'"
        using IH(3) R(2,4,5) False by (intro class_evicted_pinned[of _ _ _ _ _ _ _ _ _ _ _ ?s1]) (simp_all add: x)
      moreover have "remove_class_loop L M sc cls bs (length (x # Q)) s removed =
          Inr (s', removed @ victims C (filter (unpinned sc C) (x # Q1)))"
        using IH(2) False room own it by simp
      ultimately show ?thesis using IH(1) by (intro exI[of _ s'] exI[of _ "x # Q1"] exI[of _ Q2]) simp
    qed
  qed
qed

lemma remove_class_spec:
  assumes "lru_laws L" and "lru_laws M" and "rc_inv L M s" and "length removed \<le> bs"
    and "\<And>x. x \<in> set (class_items M s cls) \<Longrightarrow> resident L (rc_cache s) (fst x) = C (fst x)"
  shows "\<exists>s' Q1 Q2. class_items M s cls = Q1 @ Q2 \<and>
    remove_lru_batch_from_class L M sc cls bs s removed =
       Inr (s', removed @ victims C (filter (unpinned sc C) Q1)) \<and>
    class_evicted L M sc cls bs C [] Q1 Q2 (length removed) s s'"
proof -
  have "class_items M s cls = class_items M s cls @ []" by simp
  from remove_class_loop_spec[OF assms(1-3) this assms(5,4), of sc]
  show ?thesis
    by (simp add: remove_lru_batch_from_class_def lru_lawsD(14)[OF assms(2)] class_items_def)
qed

lemma rc_inv_classes:
  "rc_inv L M s \<Longrightarrow> map_of (lru_iter M (rc_reclaimable s)) k = None \<or> map_of (lru_iter M (rc_retained s)) k = None"
  "rc_inv L M s \<Longrightarrow> resident L (rc_cache s) k = None \<longleftrightarrow>
     map_of (lru_iter M (rc_reclaimable s)) k = None \<and> map_of (lru_iter M (rc_retained s)) k = None"
  by (simp_all add: rc_inv_def rc_shape_def)

lemma classes_disjoint:
  assumes "rc_inv L M s" and "x \<in> set (class_items M s Reclaimable)" and "y \<in> set (class_items M s Retained)"
  shows "fst x \<noteq> fst y"
proof
  assume eq: "fst x = fst y"
  have "fst x \<in> fst ` set (lru_iter M (rc_reclaimable s))" "fst x \<in> fst ` set (lru_iter M (rc_retained s))"
    using assms(2,3) imageI[of x "set (lru_iter M (rc_reclaimable s))" fst]
      imageI[of y "set (lru_iter M (rc_retained s))" fst] eq by (simp_all add: class_items_def)
  then have "map_of (lru_iter M (rc_reclaimable s)) (fst x) \<noteq> None" "map_of (lru_iter M (rc_retained s)) (fst x) \<noteq> None"
    by (simp_all add: map_of_eq_None_iff)
  then show False using rc_inv_classes(1)[OF assms(1), of "fst x"] by argo
qed

lemma resident_class_items:
  assumes "rc_inv L M s" and "resident L (rc_cache s) k = Some b"
  shows "k \<in> fst ` set (class_items M s Reclaimable) \<union> fst ` set (class_items M s Retained)"
proof (rule ccontr)
  assume "\<not> ?thesis"
  then have "map_of (lru_iter M (rc_reclaimable s)) k = None" "map_of (lru_iter M (rc_retained s)) k = None"
    by (simp_all add: map_of_eq_None_iff class_items_def)
  then show False using rc_inv_classes(2)[OF assms(1), of k] assms(2) by simp
qed

text \<open>
  The shape of a whole eviction: \<open>A1\<close> and \<open>B1\<close> are the visited parts of the reclaimable
  and the retained class, oldest first.
\<close>

definition batch_evicted ::
  "'l block_lru \<Rightarrow> 'm meta_lru \<Rightarrow> (nat \<Rightarrow> nat) \<Rightarrow> nat \<Rightarrow> ('l, 'm) read_cache \<Rightarrow> ('l, 'm) read_cache \<Rightarrow>
   (block_key \<times> resident_metadata) list \<Rightarrow> (block_key \<times> resident_metadata) list \<Rightarrow>
   (block_key \<times> resident_metadata) list \<Rightarrow> (block_key \<times> resident_metadata) list \<Rightarrow> bool" where
  "batch_evicted L M sc n s s' A1 A2 B1 B2 \<longleftrightarrow>
     (let C = resident L (rc_cache s); free = filter (unpinned sc C) in
      class_items M s Reclaimable = A1 @ A2 \<and> class_items M s Retained = B1 @ B2 \<and> rc_inv L M s' \<and>
      resident L (rc_cache s') = C |` (- fst ` set (free (A1 @ B1))) \<and>
      class_items M s' Reclaimable = A2 @ filter (\<lambda>x. \<not> unpinned sc C x) A1 \<and>
      length (free (A1 @ B1)) \<le> n \<and> (A2 = [] \<or> B1 = []) \<and>
      (A2 @ B2 = [] \<or> length (free (A1 @ B1)) = n))"

lemma pressured_irrelevant:
  "rc_inv L M (s\<lparr>pressured := p\<rparr>) = rc_inv L M s" "class_items M (s\<lparr>pressured := p\<rparr>) cls = class_items M s cls"
  by (simp add: rc_inv_def, cases cls) (simp_all add: class_items_def)

lemma remove_lru_batch_shape:
  assumes L: "lru_laws L" and M: "lru_laws M" and inv: "rc_inv L M s"
  shows "\<exists>s' A1 A2 B1 B2. batch_evicted L M sc n s s' A1 A2 B1 B2 \<and>
    remove_lru_batch L M sc n s =
      Inr (s', victims (resident L (rc_cache s)) (filter (unpinned sc (resident L (rc_cache s))) (A1 @ B1)))"
proof -
  define C where "C = resident L (rc_cache s)"
  obtain s1 A1 A2 where 1: "class_items M s Reclaimable = A1 @ A2"
    "remove_lru_batch_from_class L M sc Reclaimable n s [] = Inr (s1, victims C (filter (unpinned sc C) A1))"
    "class_evicted L M sc Reclaimable n C [] A1 A2 0 s s1"
    using remove_class_spec[OF L M inv, of "[]" n Reclaimable C sc] by (auto simp: C_def)
  let ?p = "\<lambda>t xs. t\<lparr>pressured := (pressured t \<or> victims C xs \<noteq> [])\<rparr>"
  show ?thesis
  proof (cases "length (filter (unpinned sc C) A1) < n")
    case False
    let ?s' = "?p s1 (filter (unpinned sc C) A1)"
    have "batch_evicted L M sc n s ?s' A1 A2 [] (class_items M s Retained)"
      using 1(1,3) False
      by (simp add: batch_evicted_def class_evicted_def C_def pressured_irrelevant)
    moreover have "remove_lru_batch L M sc n s = Inr (?s', victims C (filter (unpinned sc C) A1))"
      using 1(2) False by (simp add: remove_lru_batch_def victims_def)
    ultimately show ?thesis by (intro exI[of _ ?s'] exI[of _ A1] exI[of _ A2] exI[of _ "[]"] exI) (simp add: C_def)
  next
    case True
    have A2: "A2 = []" and inv1: "rc_inv L M s1"
      and it: "class_items M s1 Retained = class_items M s Retained"
      and r1: "resident L (rc_cache s1) = C |` (- fst ` set (filter (unpinned sc C) A1))"
      using 1(3) True by (auto simp: class_evicted_def C_def)
    have agree: "resident L (rc_cache s1) (fst x) = C (fst x)" if "x \<in> set (class_items M s1 Retained)" for x
    proof -
      have "fst y \<noteq> fst x" if "y \<in> set A1" for y
        using classes_disjoint[OF inv, of y x] 1(1) \<open>x \<in> _\<close> it that by simp
      then have "fst x \<notin> fst ` set (filter (unpinned sc C) A1)" by force
      then show ?thesis by (simp add: r1)
    qed
    have "length (victims C (filter (unpinned sc C) A1)) \<le> n" using True by (simp add: victims_def)
    from remove_class_spec[OF L M inv1 this, of Retained, OF agree, of sc] obtain s2 B1 B2 where 2: "class_items M s1 Retained = B1 @ B2"
      "remove_lru_batch_from_class L M sc Retained n s1 (victims C (filter (unpinned sc C) A1)) =
        Inr (s2, victims C (filter (unpinned sc C) A1) @ victims C (filter (unpinned sc C) B1))"
      "class_evicted L M sc Retained n C [] B1 B2 (length (victims C (filter (unpinned sc C) A1))) s1 s2" by blast
    let ?s' = "?p s2 (filter (unpinned sc C) (A1 @ B1))"
    have "resident L (rc_cache s2) = C |` (- fst ` set (filter (unpinned sc C) (A1 @ B1)))"
      using 2(3) by (simp add: class_evicted_def r1 image_Un Int_commute Collect_disj_eq conj_disj_distribR)
    then have "batch_evicted L M sc n s ?s' A1 A2 B1 B2"
      using 1(1,3) 2(1,3) it A2 by (simp add: batch_evicted_def class_evicted_def C_def pressured_irrelevant victims_def)
    moreover have "remove_lru_batch L M sc n s = Inr (?s', victims C (filter (unpinned sc C) (A1 @ B1)))"
      using 1(2) 2(2) True by (simp add: remove_lru_batch_def victims_def)
    ultimately show ?thesis by (intro exI[of _ ?s'] exI[of _ A1] exI[of _ A2] exI[of _ B1] exI[of _ B2]) (simp add: C_def)
  qed
qed

section \<open>Properties\<close>

text \<open>
  The states a cache can reach: any sequence of the methods that change it, with any clock
  and any owners of the blocks.
\<close>

inductive rc_reach :: "'l block_lru \<Rightarrow> 'm meta_lru \<Rightarrow> ('l, 'm) read_cache \<Rightarrow> bool" for L M where
  reach_new: "rc_reach L M (read_cache_new M (cache_new_unbounded L lfu mk cap hint))"
| reach_insert: "rc_reach L M s \<Longrightarrow> rc_reach L M (batch_insert L M now s bs)"
| reach_insert_refs: "rc_reach L M s \<Longrightarrow> rc_reach L M (fst (batch_insert_refs L M now s bs))"
| reach_prefix: "rc_reach L M s \<Longrightarrow> rc_reach L M (snd (get_prefix_blocks L M s ks))"
| reach_aligned: "rc_reach L M s \<Longrightarrow> rc_reach L M (snd (get_blocks_aligned L M s ks))"
| reach_get: "rc_reach L M s \<Longrightarrow> rc_reach L M (snd (get_blocks L M s ks))"
| reach_mark: "rc_reach L M s \<Longrightarrow> rc_reach L M (snd (mark_reclaimable_keys L M s ks))"
| reach_mark_hashes: "rc_reach L M s \<Longrightarrow> rc_reach L M (snd (mark_reclaimable_hashes L M s ns hs))"
| reach_mark_generation:
    "rc_reach L M s \<Longrightarrow> rc_reach L M (mark_reclaimable_hashes_if_generation L M s ns gens hs)"
| reach_evict: "rc_reach L M s \<Longrightarrow> remove_lru_batch L M strong_count n s = Inr (s', removed) \<Longrightarrow> rc_reach L M s'"
| reach_clear: "rc_reach L M s \<Longrightarrow> rc_reach L M (snd (remove_all L M s))"

lemma get_prefix_spec:
  assumes "lru_laws L" and "lru_laws M"
  shows "fst (get_prefix_blocks L M s ks) =
      (length (map_while (resident L (rc_cache s)) ks), map_while (resident L (rc_cache s)) ks) \<and>
    same_contents L M s (snd (get_prefix_blocks L M s ks)) \<and>
    (rc_inv L M s \<longrightarrow> rc_inv L M (snd (get_prefix_blocks L M s ks)))"
proof (induction ks arbitrary: s)
  case (Cons k ks)
  note g = get_touch_spec[OF assms, of s k]
  let ?s1 = "snd (get_touch L M s k)"
  have r: "resident L (rc_cache ?s1) = resident L (rc_cache s)" using g(2) by (simp add: same_contents_def)
  show ?case
    using Cons.IH[of ?s1] g(2,3) same_contents_trans[OF g(2)] r
    by (cases "resident L (rc_cache s) k") (auto simp: case_prod_beta g(1) Let_def)
qed simp

lemma get_blocks_aligned_spec:
  assumes "lru_laws L" and "lru_laws M"
  shows "fst (get_blocks_aligned L M s ks) = map (resident L (rc_cache s)) ks \<and>
    same_contents L M s (snd (get_blocks_aligned L M s ks)) \<and>
    (rc_inv L M s \<longrightarrow> rc_inv L M (snd (get_blocks_aligned L M s ks)))"
proof (induction ks arbitrary: s)
  case (Cons k ks)
  note g = get_touch_spec[OF assms, of s k]
  let ?s1 = "snd (get_touch L M s k)"
  have r: "resident L (rc_cache ?s1) = resident L (rc_cache s)" using g(2) by (simp add: same_contents_def)
  show ?case using Cons.IH[of ?s1] g(3) same_contents_trans[OF g(2)] r
    by (auto simp: case_prod_beta g(1) Let_def)
qed simp

lemma get_blocks_inv:
  assumes "lru_laws L" and "lru_laws M"
  shows "rc_inv L M s \<Longrightarrow> rc_inv L M (snd (get_blocks L M s ks))"
  by (induction ks arbitrary: s) (simp_all add: get_touch_spec[OF assms] case_prod_beta Let_def)

lemma mark_reclaimable_inv:
  assumes "lru_laws L" and "lru_laws M" and "rc_inv L M s"
  shows "rc_inv L M (snd (mark_reclaimable_with_generation L M s k g))"
  using mark_reclaimable_spec[OF assms, of k g] by (metis prod.collapse)

lemma mark_keys_inv:
  assumes "lru_laws L" and "lru_laws M"
  shows "rc_inv L M s \<Longrightarrow> rc_inv L M (snd (mark_reclaimable_keys L M s ks))"
    and "rc_inv L M s \<Longrightarrow> rc_inv L M (mark_reclaimable_hashes_if_generation L M s ns gens hs)"
proof -
  show "rc_inv L M s \<Longrightarrow> rc_inv L M (snd (mark_reclaimable_keys L M s ks))"
    by (induction ks arbitrary: s) (simp_all add: mark_reclaimable_inv[OF assms] case_prod_beta Let_def)
  show "rc_inv L M s \<Longrightarrow> rc_inv L M (mark_reclaimable_hashes_if_generation L M s ns gens hs)"
    by (induction hs arbitrary: s) (simp_all add: mark_reclaimable_inv[OF assms] split: option.split)
qed

lemma remove_all_inv:
  assumes "lru_laws L" and "lru_laws M"
  shows "rc_inv L M (snd (remove_all L M s))"
  by (simp add: remove_all_def rc_inv_def rc_shape_def case_prod_beta Let_def cache_views(9)[OF assms(1)]
      lru_lawsD(13)[OF assms(2)])

lemma rc_reach_inv:
  assumes L: "lru_laws L" and M: "lru_laws M"
  shows "rc_reach L M s \<Longrightarrow> rc_inv L M s"
proof (induction rule: rc_reach.induct)
  case (reach_new lfu mk cap hint)
  then show ?case
    by (simp add: rc_inv_def rc_shape_def read_cache_new_def cache_new_unbounded_def resident_def
        lru_lawsD(1)[OF L] lru_lawsD(1)[OF M])
next
  case (reach_evict s strong_count n s' removed)
  then show ?case using remove_lru_batch_shape[OF L M, of s strong_count n] by (auto simp: batch_evicted_def Let_def)
qed (simp_all add: batch_insert_inv[OF L M] get_prefix_spec[OF L M] get_blocks_aligned_spec[OF L M]
    get_blocks_inv[OF L M] mark_keys_inv[OF L M] mark_reclaimable_hashes_def remove_all_inv[OF L M])

lemma class_footprints:
  assumes "rc_inv L M s" and "x \<in> set (class_items M s cls)"
  shows "meta_bytes (snd x) = sealed_footprint (arc_inner (the (resident L (rc_cache s) (fst x))))"
proof -
  obtain b where b: "resident L (rc_cache s) (fst x) = Some b"
    using class_items_resident[OF assms(1), of "fst x" "snd x" cls] assms(2) by auto
  have "map_of (class_items M s cls) (fst x) = Some (snd x)"
    using assms(2) class_items_distinct[OF assms(1), of cls] by (simp add: map_of_eq_Some_iff)
  then have "map_of (lru_iter M (rc_reclaimable s)) (fst x) = Some (snd x) \<or>
      map_of (lru_iter M (rc_retained s)) (fst x) = Some (snd x)"
    by (cases cls) (simp_all add: class_items_def)
  with b assms(1) show ?thesis unfolding rc_inv_def rc_shape_def by auto
qed

text \<open>
  C5. In every reachable state the two replacement classes split the resident blocks: a block
  is resident exactly when it is in one of them, it is never in both, and each class counter
  is the sum of the footprints of the blocks in that class (modulo \<open>2 ^ 64\<close>).
\<close>

theorem class_accounting:
  assumes "lru_laws L" and "lru_laws M" and "rc_reach L M s"
  shows "(\<forall>k. resident L (rc_cache s) k \<noteq> None \<longleftrightarrow>
      (k \<in> fst ` set (class_items M s Reclaimable)) \<noteq> (k \<in> fst ` set (class_items M s Retained))) \<and>
    fst ` set (class_items M s Reclaimable) \<inter> fst ` set (class_items M s Retained) = {} \<and>
    cb_reclaimable (rc_bytes s) = sum_list (map (\<lambda>x. sealed_footprint (arc_inner
      (the (resident L (rc_cache s) (fst x))))) (class_items M s Reclaimable)) \<and>
    cb_retained (rc_bytes s) = sum_list (map (\<lambda>x. sealed_footprint (arc_inner
      (the (resident L (rc_cache s) (fst x))))) (class_items M s Retained))"
proof -
  have inv: "rc_inv L M s" by (rule rc_reach_inv[OF assms])
  have dis: "fst ` set (class_items M s Reclaimable) \<inter> fst ` set (class_items M s Retained) = {}"
    using classes_disjoint[OF inv] by fastforce
  have res: "resident L (rc_cache s) k \<noteq> None \<longleftrightarrow>
      k \<in> fst ` set (class_items M s Reclaimable) \<union> fst ` set (class_items M s Retained)" for k
    using resident_class_items[OF inv, of k] class_items_resident[OF inv, of k] by fastforce
  have sums: "bytes_of (class_items M s cls) = sum_list (map (\<lambda>x. sealed_footprint (arc_inner
      (the (resident L (rc_cache s) (fst x))))) (class_items M s cls))" for cls
    unfolding bytes_of_def using class_footprints[OF inv] by (metis (mono_tags, lifting) map_eq_conv)
  have "cb_reclaimable (rc_bytes s) = bytes_of (class_items M s Reclaimable)"
      "cb_retained (rc_bytes s) = bytes_of (class_items M s Retained)"
    using inv by (simp_all add: rc_inv_def rc_shape_def class_items_def)
  then show ?thesis using dis res sums by (metis (no_types, lifting) Un_iff disjoint_iff)
qed


text \<open>
  The read cache is an index searched by prefix: a hit is classified, with its footprint
  recorded in its class.
\<close>

definition rc_look ::
  "'l block_lru \<times> 'm meta_lru \<times> ('l, 'm) read_cache \<Rightarrow> block_key \<Rightarrow> arc_block option" where
  "rc_look x k = (case x of (L, M, s) \<Rightarrow> resident L (rc_cache s) k)"

interpretation rc_index: prefix_index rc_look
  "\<lambda>(L, M, s). lru_laws L \<and> lru_laws M \<and> rc_reach L M s"
  "\<lambda>(L, M, s) k b. \<exists>cls m. (k, m) \<in> set (class_items M s cls) \<and> meta_bytes m = sealed_footprint (arc_inner b)"
proof
  fix x :: "'l block_lru \<times> 'm meta_lru \<times> ('l, 'm) read_cache" and k b
  obtain L M s where x: "x = (L, M, s)" by (cases x)
  assume "case x of (L, M, s) \<Rightarrow> lru_laws L \<and> lru_laws M \<and> rc_reach L M s" and "rc_look x k = Some b"
  then have inv: "rc_inv L M s" and b: "resident L (rc_cache s) k = Some b"
    using rc_reach_inv[of L M s] by (simp_all add: x rc_look_def)
  obtain cls m where "(k, m) \<in> set (class_items M s cls)" using resident_class_items[OF inv b] by force
  show "(case x of (L, M, s) \<Rightarrow> \<lambda>k b. \<exists>cls m. (k, m) \<in> set (class_items M s cls) \<and>
      meta_bytes m = sealed_footprint (arc_inner b)) k b"
    using class_footprints[OF inv \<open>(k, m) \<in> _\<close>] b \<open>(k, m) \<in> _\<close> by (auto simp: x)
qed

text \<open>
  C32. \<open>get_prefix_blocks\<close> returns the blocks of the longest fully resident prefix of the
  keys, in order, each with the footprint its class has recorded, and changes neither the
  contents of the cache nor its accounting.
\<close>

theorem prefix_lookup_exact:
  assumes "lru_laws L" and "lru_laws M" and "rc_reach L M s"
    and "get_prefix_blocks L M s ks = ((hit, bs), s')"
  shows "length bs = hit \<and> hit \<le> length ks \<and>
    (\<forall>i < hit. resident L (rc_cache s) (ks ! i) = Some (bs ! i) \<and>
       (\<exists>cls m. (ks ! i, m) \<in> set (class_items M s cls) \<and>
          meta_bytes m = sealed_footprint (arc_inner (bs ! i)))) \<and>
    (hit < length ks \<longrightarrow> resident L (rc_cache s) (ks ! hit) = None) \<and>
    same_contents L M s s'"
proof -
  have look: "rc_look (L, M, s) = resident L (rc_cache s)" by (simp add: rc_look_def fun_eq_iff)
  have out: "hit = length bs" "bs = map_while (rc_look (L, M, s)) ks" "same_contents L M s s'"
    using get_prefix_spec[OF assms(1,2), of s ks] assms(4) by (auto simp: look)
  then have "\<exists>cls m. (ks ! i, m) \<in> set (class_items M s cls) \<and>
      meta_bytes m = sealed_footprint (arc_inner (bs ! i))" if "i < hit" for i
    using rc_index.prefix_hits_guaranteed[of "(L, M, s)" i ks] assms that by simp
  moreover have "resident L (rc_cache s) (ks ! i) = Some (bs ! i)" if "i < hit" for i
    using map_while_nth[of i "rc_look (L, M, s)" ks] out that by (simp add: look)
  moreover have "hit < length ks \<longrightarrow> resident L (rc_cache s) (ks ! hit) = None"
    using map_while_stops[of "rc_look (L, M, s)" ks] out(1,2) by (simp add: look)
  ultimately show ?thesis using out by simp
qed


subsection \<open>Backup candidates\<close>

lemma candidate_loop_spec:
  assumes "lru_laws L"
  shows "\<exists>zs. candidate_loop L sc c max_bytes max_blocks tot cands xs = cands @ map (\<lambda>x. (fst x, meta_bytes (snd x))) zs \<and>
    subseq zs xs \<and> (\<forall>x \<in> set zs. unpinned sc (resident L c) x) \<and>
    (length cands \<le> max_blocks \<longrightarrow> length cands + length zs \<le> max_blocks) \<and>
    (\<forall>i < length zs. foldl saturating_add tot (map (\<lambda>x. meta_bytes (snd x)) (take i zs)) < max_bytes)"
proof (induction xs arbitrary: tot cands)
  case Nil
  then show ?case by (intro exI[of _ "[]"]) simp
next
  case (Cons x xs)
  obtain k md where x: "x = (k, md)" by fastforce
  have own: "is_cache_owned_only L sc c k \<longleftrightarrow> unpinned sc (resident L c) x"
    by (simp add: cache_views(3)[OF assms] unpinned_def x)
  consider "max_bytes \<le> tot \<or> max_blocks \<le> length cands"
    | "\<not> (max_bytes \<le> tot \<or> max_blocks \<le> length cands)" "\<not> unpinned sc (resident L c) x"
    | "\<not> (max_bytes \<le> tot \<or> max_blocks \<le> length cands)" "unpinned sc (resident L c) x" by blast
  then show ?case
  proof cases
    case 1
    then show ?thesis by (intro exI[of _ "[]"]) (simp add: x)
  next
    case 2
    then show ?thesis using Cons.IH[of tot cands] own by (auto simp: x intro: list_emb_Cons)
  next
    case 3
    obtain zs where zs: "candidate_loop L sc c max_bytes max_blocks (saturating_add tot (meta_bytes md))
        (cands @ [(k, meta_bytes md)]) xs = (cands @ [(k, meta_bytes md)]) @ map (\<lambda>x. (fst x, meta_bytes (snd x))) zs"
      "subseq zs xs" "\<forall>x \<in> set zs. unpinned sc (resident L c) x"
      "length (cands @ [(k, meta_bytes md)]) \<le> max_blocks \<longrightarrow>
         length (cands @ [(k, meta_bytes md)]) + length zs \<le> max_blocks"
      "\<forall>i < length zs. foldl saturating_add (saturating_add tot (meta_bytes md))
         (map (\<lambda>x. meta_bytes (snd x)) (take i zs)) < max_bytes"
      using Cons.IH by blast
    have "foldl saturating_add tot (map (\<lambda>x. meta_bytes (snd x)) (take i (x # zs))) < max_bytes"
      if "i < length (x # zs)" for i
      using that zs(5) 3(1) by (cases i) (auto simp: x not_le)
    then show ?thesis using zs 3 own by (intro exI[of _ "x # zs"]) (auto simp: x)
  qed
qed


section \<open>Witnesses\<close>

definition wkey :: "u8 \<Rightarrow> block_key" where
  "wkey n = \<lparr>namespace = ''m'', hash = [n]\<rparr>"

definition warc :: "nat \<Rightarrow> u64 \<Rightarrow> arc_block" where
  "warc i n = \<lparr>arc_id = i, arc_inner = \<lparr>sealed_slots = [], sealed_footprint = n, sealed_numas = []\<rparr>\<rparr>"

definition wmeta :: "u64 \<Rightarrow> u64 \<Rightarrow> resident_metadata" where
  "wmeta g n = \<lparr>inserted_at = 5, generation = g, meta_bytes = n\<rparr>"

lemma wkey_eq [simp]: "wkey a = wkey b \<longleftrightarrow> a = b"
  by (simp add: wkey_def)

text \<open>Two retained blocks; the first is held by somebody else.\<close>

definition wcache :: "((block_key \<times> arc_block) list, (block_key \<times> resident_metadata) list) read_cache" where
  "wcache =
     \<lparr>rc_cache = \<lparr>cache_lru = [(wkey 1, warc 1 8), (wkey 2, warc 2 16)], cache_freq = None\<rparr>,
      rc_reclaimable = [], rc_retained = [(wkey 1, wmeta 1 8), (wkey 2, wmeta 2 16)], next_generation = 2,
      rc_bytes = \<lparr>cb_reclaimable = 0, cb_retained = 24\<rparr>, pressured = False\<rparr>"

definition wowners :: "nat \<Rightarrow> nat" where
  "wowners i = (if i = 1 then 2 else 1)"

lemma wcache_reach: "rc_reach list_lru list_lru wcache"
proof -
  let ?s0 = "read_cache_new list_lru (cache_new_unbounded list_lru False (\<lambda>n. tiny_lfu_new [] 0) 0 None)"
  have "batch_insert list_lru list_lru 5 ?s0 [(wkey 1, warc 1 8), (wkey 2, warc 2 16)] = wcache"
    by (simp add: read_cache_new_def cache_new_unbounded_def list_lru_def insert_block_def cache_insert_def
        lru_norm_def wcache_def warc_def wmeta_def)
  then show ?thesis using reach_insert[OF reach_new, of list_lru list_lru 5] by metis
qed

lemma wcache_views:
  "resident list_lru (rc_cache wcache) = [wkey 2 \<mapsto> warc 2 16, wkey 1 \<mapsto> warc 1 8]"
  "class_items list_lru wcache Reclaimable = []"
  "class_items list_lru wcache Retained = [(wkey 1, wmeta 1 8), (wkey 2, wmeta 2 16)]"
  by (simp_all add: wcache_def resident_def class_items_def list_lru_def lru_norm_def)

theorem class_accounting_witness:
  "cb_retained (rc_bytes wcache) =
     sum_list (map (\<lambda>x. sealed_footprint (arc_inner (the (resident list_lru (rc_cache wcache) (fst x)))))
       (class_items list_lru wcache Retained)) \<and>
   cb_retained (rc_bytes wcache) = 24"
  using class_accounting[OF list_lru_laws list_lru_laws wcache_reach] by (simp add: wcache_def)


theorem prefix_lookup_exact_witness:
  "\<exists>s'. get_prefix_blocks list_lru list_lru wcache [wkey 1, wkey 3] = ((1, [warc 1 8]), s') \<and>
     same_contents list_lru list_lru wcache s'"
proof -
  let ?g = "get_prefix_blocks list_lru list_lru wcache [wkey 1, wkey 3]"
  have "fst ?g = (1, [warc 1 8])"
    using get_prefix_spec[OF list_lru_laws list_lru_laws, of wcache "[wkey 1, wkey 3]"]
    by (simp add: wcache_views(1))
  then have "?g = ((1, [warc 1 8]), snd ?g)" by (simp add: prod_eq_iff)
  from prefix_lookup_exact[OF list_lru_laws list_lru_laws wcache_reach this] this show ?thesis by blast
qed



end
