(* ===== verification/Write_Path.thy ===== *)
theory Write_Path
  imports Read_Cache
begin

text \<open>
  The save path: building insert entries from a raw batch (\<open>pegaflow-core/src/offload.rs\<close>,
  \<open>build_insert_entries\<close> and its two strategies) and the insert worker
  (\<open>storage/write_path.rs\<close>) that collects slots into inflight blocks, seals complete ones
  and publishes them to the read cache, the SSD writer and the MetaServer client. The
  iteration order of the grouping \<open>HashMap\<close> is an argument. The upgraded dependencies are
  the read cache and two flags; \<open>fresh\<close> numbers the new \<open>Arc\<close>s.
\<close>

section \<open>Insert entries\<close>

record raw_save_layer =
  layer_slot :: nat
  padded_block_size :: usize
  layer_blocks :: "raw_block list"
  layer_hashes :: "block_hash list"

record raw_save_batch =
  save_namespace :: string
  save_total_slots :: nat
  save_numa :: numa_node
  save_layers :: "raw_save_layer list"

type_synonym slot_inserts = "(nat \<times> raw_block) list"
type_synonym insert_entries = "(block_key \<times> slot_inserts) list"

datatype save_panic =
    BlockIndexOutOfRange
  | BlockPanic block_panic

definition can_use_ordered_fast_path :: "raw_save_layer list \<Rightarrow> bool" where
  "can_use_ordered_fast_path layers =
     (case layers of
        [] \<Rightarrow> False
      | l # _ \<Rightarrow> list_all (\<lambda>l'. layer_hashes l' = layer_hashes l) layers)"

text \<open>Pushing one layer's blocks onto the per-block slot lists, by position.\<close>

fun push_blocks ::
  "nat \<Rightarrow> raw_block list \<Rightarrow> slot_inserts list \<Rightarrow> save_panic + slot_inserts list" where
  "push_blocks sid [] ps = Inr ps"
| "push_blocks sid (b # bs) [] = Inl BlockIndexOutOfRange"
| "push_blocks sid (b # bs) (p # ps) =
     bind_res (push_blocks sid bs ps) (\<lambda>ps'. Inr ((p @ [(sid, b)]) # ps'))"

fun push_layers :: "raw_save_layer list \<Rightarrow> slot_inserts list \<Rightarrow> save_panic + slot_inserts list" where
  "push_layers [] ps = Inr ps"
| "push_layers (l # ls) ps = bind_res (push_blocks (layer_slot l) (layer_blocks l) ps) (push_layers ls)"

definition build_ordered_insert_entries :: "string \<Rightarrow> raw_save_layer list \<Rightarrow> save_panic + insert_entries" where
  "build_ordered_insert_entries ns layers =
     (let hashes = (case layers of [] \<Rightarrow> [] | l # _ \<Rightarrow> layer_hashes l)
      in bind_res (push_layers layers (replicate (length hashes) [])) (\<lambda>ps.
           Inr (map (\<lambda>(h, p). (\<lparr>namespace = ns, hash = h\<rparr>, p)) (zip hashes ps))))"

definition layer_pairs :: "raw_save_layer \<Rightarrow> (block_hash \<times> (nat \<times> raw_block)) list" where
  "layer_pairs l = map (\<lambda>(b, h). (h, (layer_slot l, b))) (zip (layer_blocks l) (layer_hashes l))"

definition build_hashed_insert_entries ::
  "block_hash list \<Rightarrow> string \<Rightarrow> raw_save_layer list \<Rightarrow> insert_entries" where
  "build_hashed_insert_entries iteration ns layers =
     (let g = foldl entry_push Map.empty (concat (map layer_pairs layers))
      in map (\<lambda>h. (\<lparr>namespace = ns, hash = h\<rparr>, the (g h))) iteration)"

definition batch_totals :: "raw_save_layer list \<Rightarrow> u64 \<times> nat" where
  "batch_totals layers =
     foldl (\<lambda>(bytes, n) l. (bytes + saturating_mul (padded_block_size l) (of_nat (length (layer_hashes l))),
                             n + length (layer_hashes l))) (0, 0) layers"

definition build_insert_entries ::
  "block_hash list \<Rightarrow> raw_save_batch \<Rightarrow> save_panic + (insert_entries \<times> u64 \<times> nat)" where
  "build_insert_entries iteration b =
     bind_res (if can_use_ordered_fast_path (save_layers b)
               then build_ordered_insert_entries (save_namespace b) (save_layers b)
               else Inr (build_hashed_insert_entries iteration (save_namespace b) (save_layers b)))
       (\<lambda>es. Inr (es, batch_totals (save_layers b)))"

section \<open>The insert worker\<close>

type_synonym inflight_map = "block_key \<rightharpoonup> inflight_block"

text \<open>The slot loop: stops at the insertion that completes the block.\<close>

fun insert_slots ::
  "inflight_block \<Rightarrow> numa_node \<Rightarrow> slot_inserts \<Rightarrow> bool \<Rightarrow> u64 \<Rightarrow>
   block_panic + (inflight_block \<times> bool \<times> u64)" where
  "insert_slots b numa [] completed added = Inr (b, completed, added)"
| "insert_slots b numa ((i, r) # xs) completed added =
     bind_res (insert_slot b i r numa) (\<lambda>(b', res).
       case res of
         Inserted c fp \<Rightarrow>
           if c then Inr (b', True, saturating_add added fp)
           else insert_slots b' numa xs False (saturating_add added fp)
       | Duplicate \<Rightarrow> insert_slots b' numa xs completed added)"

definition insert_partial_slots ::
  "nat \<Rightarrow> inflight_map \<Rightarrow> block_key \<Rightarrow> slot_inserts \<Rightarrow> nat \<Rightarrow> numa_node \<Rightarrow> u64 \<times> u64 \<Rightarrow>
   block_panic + (inflight_map \<times> sealed_block option \<times> u64 \<times> u64)" where
  "insert_partial_slots now inflight k xs n numa acct =
     (let (added, gone) = acct;
          b = (case inflight k of None \<Rightarrow> inflight_new n now | Some ib \<Rightarrow> ib)
      in if total_slots b \<noteq> n then Inr (inflight, None, added, gone)
         else bind_res (insert_slots b numa xs False added) (\<lambda>(b', completed, added').
           if completed
           then bind_res (seal b') (\<lambda>s.
                  Inr (inflight(k := None), Some s, added', saturating_add gone (footprint b')))
           else Inr (inflight(k \<mapsto> b'), None, added', gone)))"

record batch_state =
  bs_inflight :: inflight_map
  bs_sealed :: "(block_key \<times> sealed_block) list"
  bs_added :: u64
  bs_removed :: u64
  bs_fast :: nat

definition process_entry ::
  "(block_key \<Rightarrow> bool) \<Rightarrow> nat \<Rightarrow> nat \<Rightarrow> numa_node \<Rightarrow> batch_state \<Rightarrow> block_key \<times> slot_inserts \<Rightarrow>
   block_panic + batch_state" where
  "process_entry present now n numa st e =
     (let (k, xs) = e;
          slow = bind_res (insert_partial_slots now (bs_inflight st) k xs n numa (bs_added st, bs_removed st))
            (\<lambda>(inflight, sealed, added, gone).
              Inr (st\<lparr>bs_inflight := inflight, bs_added := added, bs_removed := gone,
                      bs_sealed := bs_sealed st @ (case sealed of None \<Rightarrow> [] | Some s \<Rightarrow> [(k, s)])\<rparr>))
      in if present k then Inr st
         else if bs_inflight st k = None
         then (case from_ordered_slot_inserts xs n numa of
                 Inr s \<Rightarrow> Inr (st\<lparr>bs_sealed := bs_sealed st @ [(k, s)], bs_fast := bs_fast st + 1\<rparr>)
               | Inl _ \<Rightarrow> slow)
         else slow)"

fun process_entries ::
  "(block_key \<Rightarrow> bool) \<Rightarrow> nat \<Rightarrow> nat \<Rightarrow> numa_node \<Rightarrow> batch_state \<Rightarrow> insert_entries \<Rightarrow> block_panic + batch_state" where
  "process_entries present now n numa st [] = Inr st"
| "process_entries present now n numa st (e # es) =
     bind_res (process_entry present now n numa st e) (\<lambda>st'. process_entries present now n numa st' es)"

record ('l, 'm) insert_deps =
  deps_cache :: "('l, 'm) read_cache"
  deps_ssd :: bool
  deps_meta :: bool

text \<open>What \<open>send_backing_batches\<close> hands on: the SSD batch and the registrations.\<close>

record published =
  pub_ssd :: "(block_key \<times> arc_block) list"
  pub_meta :: "(block_hash \<times> u64) list"

definition send_backing_batches ::
  "('l, 'm) insert_deps \<Rightarrow> (block_key \<times> arc_block) list \<Rightarrow> (block_key \<times> u64) list \<Rightarrow> published" where
  "send_backing_batches d blocks regs =
     (if blocks = [] \<or> (\<not> deps_ssd d \<and> \<not> deps_meta d) then \<lparr>pub_ssd = [], pub_meta = []\<rparr>
      else \<lparr>pub_ssd = (if deps_ssd d then blocks else []),
            pub_meta = (if deps_meta d then map (\<lambda>(k, g). (hash k, g)) regs else [])\<rparr>)"

definition process_insert_batch ::
  "'l block_lru \<Rightarrow> 'm meta_lru \<Rightarrow> nat \<Rightarrow> nat \<Rightarrow> inflight_map \<Rightarrow> ('l, 'm) insert_deps option \<Rightarrow>
   insert_entries \<Rightarrow> nat \<Rightarrow> numa_node \<Rightarrow>
   block_panic + (inflight_map \<times> ('l, 'm) insert_deps option \<times> published \<times> batch_state)" where
  "process_insert_batch L M now fresh inflight deps es n numa =
     (let present = (\<lambda>k. case deps of None \<Rightarrow> False
                        | Some d \<Rightarrow> hd (contains_keys L (deps_cache d) [k]));
          st0 = \<lparr>bs_inflight = inflight, bs_sealed = [], bs_added = 0, bs_removed = 0, bs_fast = 0\<rparr>
      in bind_res (process_entries present now n numa st0 es) (\<lambda>st.
           case deps of
             None \<Rightarrow> Inr (bs_inflight st, None, \<lparr>pub_ssd = [], pub_meta = []\<rparr>, st)
           | Some d \<Rightarrow>
               if bs_sealed st = [] then Inr (bs_inflight st, Some d, \<lparr>pub_ssd = [], pub_meta = []\<rparr>, st)
               else let blocks = map (\<lambda>(i, (k, s)). (k, \<lparr>arc_id = i, arc_inner = s\<rparr>))
                                   (enumerate fresh (bs_sealed st));
                        (rc, resident_keys) = batch_insert_refs L M now (deps_cache d) blocks;
                        regs = resident_generations M rc resident_keys;
                        d' = d\<lparr>deps_cache := rc\<rparr>
                    in Inr (bs_inflight st, Some d', send_backing_batches d' blocks regs, st)))"

definition gc_inflight :: "nat \<Rightarrow> nat \<Rightarrow> inflight_map \<Rightarrow> inflight_map" where
  "gc_inflight now max_age inflight =
     (\<lambda>k. case inflight k of None \<Rightarrow> None | Some b \<Rightarrow> if max_age < age now b then None else Some b)"

section \<open>The two strategies agree\<close>

lemma push_blocks_eq:
  "length bs = length ps \<Longrightarrow>
   push_blocks sid bs ps = Inr (map (\<lambda>(b, p). p @ [(sid, b)]) (zip bs ps))"
  by (induction bs ps rule: list_induct2) simp_all

lemma push_layers_eq:
  assumes "\<forall>l \<in> set layers. length (layer_blocks l) = length ps"
  shows "push_layers layers ps =
    Inr (map (\<lambda>i. ps ! i @ map (\<lambda>l. (layer_slot l, layer_blocks l ! i)) layers) [0..<length ps])"
  using assms
proof (induction layers arbitrary: ps)
  case Nil
  then show ?case by (simp add: map_nth)
next
  case (Cons l ls)
  let ?ps = "map (\<lambda>(b, p). p @ [(layer_slot l, b)]) (zip (layer_blocks l) ps)"
  have len: "length (layer_blocks l) = length ps" using Cons.prems by simp
  have "push_layers (l # ls) ps = push_layers ls ?ps" using len by (simp add: push_blocks_eq)
  also have "\<dots> = Inr (map (\<lambda>i. ?ps ! i @ map (\<lambda>l. (layer_slot l, layer_blocks l ! i)) ls) [0..<length ?ps])"
    using Cons.prems len by (intro Cons.IH) simp
  finally show ?case using len by simp
qed

lemma filter_upt_eq: "filter (\<lambda>j. j = i) [0..<n] = (if i < n then [i] else [])"
  by (induction n) auto

lemma layer_pairs_at:
  assumes "distinct H" and "layer_hashes l = H" and "length (layer_blocks l) = length H" and "i < length H"
  shows "filter (\<lambda>x. fst x = H ! i) (layer_pairs l) = [(H ! i, (layer_slot l, layer_blocks l ! i))]"
proof -
  have "layer_pairs l = map (\<lambda>j. (H ! j, (layer_slot l, layer_blocks l ! j))) [0..<length H]"
    unfolding layer_pairs_def using assms(2,3) by (intro nth_equalityI) simp_all
  moreover have "filter (\<lambda>j. H ! j = H ! i) [0..<length H] = [i]"
  proof -
    have "filter (\<lambda>j. H ! j = H ! i) [0..<length H] = filter (\<lambda>j. j = i) [0..<length H]"
      using assms(1,4) by (intro filter_cong) (auto simp: nth_eq_iff_index_eq)
    also have "\<dots> = [i]" using assms(4) by (simp add: filter_upt_eq)
    finally show ?thesis .
  qed
  ultimately show ?thesis by (simp add: filter_map comp_def)
qed

text \<open>
  C26. For layers that share one list of distinct hashes, the ordered fast path builds the
  same entries as the hash-map fallback does when it visits the hashes in save order, and it
  never indexes out of range; every entry lists one slot per layer, in layer order.
\<close>

theorem ordered_entries_equal_hashed:
  assumes "layers \<noteq> []" and "distinct H"
    and "\<forall>l \<in> set layers. layer_hashes l = H \<and> length (layer_blocks l) = length H"
  shows "can_use_ordered_fast_path layers \<and>
    build_ordered_insert_entries ns layers = Inr (build_hashed_insert_entries H ns layers) \<and>
    build_hashed_insert_entries H ns layers =
      map (\<lambda>i. (\<lparr>namespace = ns, hash = H ! i\<rparr>, map (\<lambda>l. (layer_slot l, layer_blocks l ! i)) layers))
        [0..<length H]"
proof -
  let ?slots = "\<lambda>i. map (\<lambda>l. (layer_slot l, layer_blocks l ! i)) layers"
  obtain l ls where l: "layers = l # ls" using assms(1) by (cases layers) auto
  have "can_use_ordered_fast_path layers"
    using assms(3) by (auto simp: can_use_ordered_fast_path_def l list_all_iff)
  moreover have "build_ordered_insert_entries ns layers =
      Inr (map (\<lambda>i. (\<lparr>namespace = ns, hash = H ! i\<rparr>, ?slots i)) [0..<length H])"
  proof -
    have "push_layers layers (replicate (length H) []) = Inr (map ?slots [0..<length H])"
      using push_layers_eq[of layers "replicate (length H) []"] assms(3) by simp
    moreover have "map (\<lambda>(h, p). (\<lparr>namespace = ns, hash = h\<rparr>, p)) (zip H (map ?slots [0..<length H])) =
        map (\<lambda>i. (\<lparr>namespace = ns, hash = H ! i\<rparr>, ?slots i)) [0..<length H]"
      by (intro nth_equalityI) simp_all
    ultimately show ?thesis using assms(3) by (simp add: build_ordered_insert_entries_def l)
  qed
  moreover have "the (foldl entry_push Map.empty (concat (map layer_pairs layers)) (H ! i)) = ?slots i"
    if "i < length H" for i
  proof -
    have "filter (\<lambda>x. fst x = H ! i) (concat (map layer_pairs layers)) =
        map (\<lambda>l. (H ! i, (layer_slot l, layer_blocks l ! i))) layers"
      using assms(3) by (induction layers) (auto simp: layer_pairs_at[OF assms(2) _ _ that])
    then show ?thesis using assms(1) by (simp add: entry_push_fold comp_def)
  qed
  then have "build_hashed_insert_entries H ns layers =
      map (\<lambda>i. (\<lparr>namespace = ns, hash = H ! i\<rparr>, ?slots i)) [0..<length H]"
    unfolding build_hashed_insert_entries_def Let_def by (intro nth_equalityI) simp_all
  ultimately show ?thesis by simp
qed

section \<open>Sealing does not depend on the path\<close>

text \<open>
  The inflight block that has received the distinct in-range slots \<open>ys\<close>: a function of the
  set of insertions, not of their order.
\<close>

definition filled_with :: "nat \<Rightarrow> nat \<Rightarrow> numa_node \<Rightarrow> slot_inserts \<Rightarrow> inflight_block" where
  "filled_with n now numa ys =
     \<lparr>slots = map (map_of ys) [0..<n], remaining = n - length ys, total_slots = n,
      footprint = sum_list (map (\<lambda>y. raw_footprint (snd y)) ys), created_at = now,
      slot_numas = map (\<lambda>i. if i \<in> fst ` set ys then numa else numa_unknown) [0..<n]\<rparr>"

lemma filled_with_Nil: "filled_with n now numa [] = inflight_new n now"
  by (simp add: filled_with_def inflight_new_def map_replicate_const)

lemma distinct_in_range_length:
  assumes "distinct (map fst ys)" and "fst ` set ys \<subseteq> {..<n}"
  shows "length ys \<le> n"
  using card_mono[OF _ assms(2)] distinct_card[OF assms(1)] by simp

lemma insert_slot_filled_with:
  assumes "distinct (map fst (ys @ [(i, r)]))" and "fst ` set (ys @ [(i, r)]) \<subseteq> {..<n}"
  shows "insert_slot (filled_with n now numa ys) i r numa =
    Inr (filled_with n now numa (ys @ [(i, r)]), Inserted (length ys + 1 = n) (raw_footprint r))"
proof -
  have i: "i < n" "i \<notin> fst ` set ys" using assms by auto
  have len: "length ys + 1 \<le> n" using distinct_in_range_length[OF assms] by simp
  have none: "map_of ys i = None" using i(2) by (simp add: map_of_eq_None_iff)
  have "(map (map_of ys) [0..<n])[i := Some r] = map (map_of (ys @ [(i, r)])) [0..<n]"
    using none by (intro nth_equalityI) (auto simp: nth_list_update map_add_def split: option.split)
  moreover have "(map (\<lambda>j. if j \<in> fst ` set ys then numa else numa_unknown) [0..<n])[i := numa] =
      map (\<lambda>j. if j \<in> fst ` set (ys @ [(i, r)]) then numa else numa_unknown) [0..<n]"
    using i(1) by (intro nth_equalityI) (simp_all add: nth_list_update)
  ultimately show ?thesis using i none len
    by (auto simp: insert_slot_def filled_with_def Let_def)
qed

lemma insert_slots_filled_with:
  assumes "distinct (map fst (ys @ xs))" and "fst ` set (ys @ xs) \<subseteq> {..<n}" and "length ys < n"
  shows "\<exists>added'. insert_slots (filled_with n now numa ys) numa xs False added =
    Inr (filled_with n now numa (ys @ xs), length (ys @ xs) = n, added')"
  using assms
proof (induction xs arbitrary: ys added)
  case (Cons x xs)
  obtain i r where x: "x = (i, r)" by fastforce
  have len: "length (ys @ x # xs) \<le> n" using distinct_in_range_length[OF Cons.prems(1,2)] .
  have ins: "insert_slot (filled_with n now numa ys) i r numa =
      Inr (filled_with n now numa (ys @ [(i, r)]), Inserted (length ys + 1 = n) (raw_footprint r))"
    using Cons.prems by (intro insert_slot_filled_with) (auto simp: x)
  show ?case
  proof (cases "length ys + 1 = n")
    case True
    then have "length xs = 0" using len by (simp del: length_0_conv)
    then show ?thesis using True ins by (simp add: x)
  next
    case False
    have "\<exists>added'. insert_slots (filled_with n now numa (ys @ [(i, r)])) numa xs False
        (saturating_add added (raw_footprint r)) =
      Inr (filled_with n now numa ((ys @ [(i, r)]) @ xs), length ((ys @ [(i, r)]) @ xs) = n, added')"
      using Cons.prems False by (intro Cons.IH) (auto simp: x)
    then show ?thesis using ins False by (auto simp: x)
  qed
qed simp

lemma seal_filled_with:
  assumes "distinct (map fst xs)" and "fst ` set xs = {..<n}"
  shows "seal (filled_with n now numa xs) =
    Inr \<lparr>sealed_slots = map (\<lambda>i. the (map_of xs i)) [0..<n],
         sealed_footprint = sum_list (map (\<lambda>y. raw_footprint (snd y)) xs),
         sealed_numas = replicate n numa\<rparr>"
proof -
  have "map (map_of xs) [0..<n] = map Some (map (\<lambda>i. the (map_of xs i)) [0..<n])"
  proof -
    have "map_of xs i \<noteq> None" if "i < n" for i using assms(2) that by (simp add: map_of_eq_None_iff)
    then show ?thesis by simp
  qed
  then have "expect_all (map (map_of xs) [0..<n]) = Inr (map (\<lambda>i. the (map_of xs i)) [0..<n])"
    by (simp only: expect_all_Inr)
  moreover have "map (\<lambda>i. if i \<in> fst ` set xs then numa else numa_unknown) [0..<n] = replicate n numa"
    using assms(2) by (intro nth_equalityI) simp_all
  ultimately show ?thesis by (simp add: seal_def filled_with_def)
qed

lemma sum_footprints_eq:
  assumes "sum_list (map (\<lambda>b. unat (raw_footprint b)) bs) < 2 ^ 64"
  shows "sum_footprints bs = sum_list (map raw_footprint bs)"
proof -
  have "unat acc + sum_list (map (\<lambda>b. unat (raw_footprint b)) bs) < 2 ^ 64 \<Longrightarrow>
      foldl (\<lambda>acc b. saturating_add acc (raw_footprint b)) acc bs = acc + sum_list (map raw_footprint bs)" for acc
  proof (induction bs arbitrary: acc)
    case (Cons b bs)
    then have "unat acc + unat (raw_footprint b) < 2 ^ 64" by simp
    then have "saturating_add acc (raw_footprint b) = acc + raw_footprint b"
        "unat (acc + raw_footprint b) = unat acc + unat (raw_footprint b)"
      by (simp_all add: saturating_add_def checked_add_def unat_add_fits)
    then show ?case using Cons.IH[of "acc + raw_footprint b"] Cons.prems by (simp add: add.assoc)
  qed simp
  from this[of 0] assms show ?thesis by (simp add: sum_footprints_def)
qed

definition in_slot_order :: "nat \<Rightarrow> slot_inserts \<Rightarrow> slot_inserts" where
  "in_slot_order n xs = map (\<lambda>i. (i, the (map_of xs i))) [0..<n]"

lemma in_slot_order_mset:
  assumes "distinct (map fst xs)" and "fst ` set xs = {..<n}"
  shows "mset (in_slot_order n xs) = mset xs"
proof -
  have "set (in_slot_order n xs) = set xs"
  proof (intro set_eqI iffI)
    fix x assume "x \<in> set (in_slot_order n xs)"
    then obtain i where i: "i < n" "x = (i, the (map_of xs i))" by (auto simp: in_slot_order_def)
    then have "map_of xs i \<noteq> None" using assms(2) by (simp add: map_of_eq_None_iff)
    then show "x \<in> set xs" using i by (auto dest: map_of_SomeD)
  next
    fix x assume x: "x \<in> set xs"
    then have "map_of xs (fst x) = Some (snd x)" "fst x < n"
      using assms by (auto simp: map_of_eq_Some_iff)
    then show "x \<in> set (in_slot_order n xs)" by (auto simp: in_slot_order_def image_iff intro!: bexI[of _ "fst x"])
  qed
  moreover have "distinct (in_slot_order n xs)" by (simp add: in_slot_order_def distinct_map inj_on_def)
  moreover have "distinct xs" using assms(1) by (simp add: distinct_map)
  ultimately show ?thesis using set_eq_iff_mset_eq_distinct by blast
qed

text \<open>
  C25. A complete set of slots seals to the same block on both paths and in any order: adding
  the slots one by one to a fresh inflight block yields the block that the ordered fast path
  builds from the slots sorted by id, and leaves nothing inflight.
\<close>

theorem seal_path_independent:
  assumes "0 < n" and "distinct (map fst xs)" and "fst ` set xs = {..<n}" and "inflight k = None"
    and "sum_list (map (\<lambda>x. unat (raw_footprint (snd x))) xs) < 2 ^ 64"
  shows "\<exists>s added gone. insert_partial_slots now inflight k xs n numa acct = Inr (inflight, Some s, added, gone) \<and>
    from_ordered_slot_inserts (in_slot_order n xs) n numa = Inr s"
proof -
  let ?s = "\<lparr>sealed_slots = map (\<lambda>i. the (map_of xs i)) [0..<n],
      sealed_footprint = sum_list (map (\<lambda>y. raw_footprint (snd y)) xs), sealed_numas = replicate n numa\<rparr>"
  have len: "length xs = n" using assms(2,3) distinct_card[OF assms(2)] by simp
  obtain added gone where acct: "acct = (added, gone)" by fastforce
  obtain added' where ins: "insert_slots (filled_with n now numa []) numa xs False added =
      Inr (filled_with n now numa xs, True, added')"
    using insert_slots_filled_with[of "[]" xs n now numa added] assms(1-3) len by auto
  have "inflight(k := None) = inflight" using assms(4) by auto
  then have slow: "insert_partial_slots now inflight k xs n numa acct =
      Inr (inflight, Some ?s, added', saturating_add gone (footprint (filled_with n now numa xs)))"
    using ins[unfolded filled_with_Nil] seal_filled_with[OF assms(2,3), of now numa] assms(4)
    by (simp add: insert_partial_slots_def acct inflight_new_def)
  have perm: "mset (in_slot_order n xs) = mset xs" by (rule in_slot_order_mset[OF assms(2,3)])
  have sums: "sum_list (map f (in_slot_order n xs)) = sum_list (map f xs)" for f :: "_ \<Rightarrow> 'b :: comm_monoid_add"
    using perm by (metis mset_map sum_mset_sum_list)
  have "sum_footprints (map snd (in_slot_order n xs)) = sum_list (map (\<lambda>y. raw_footprint (snd y)) xs)"
    using sum_footprints_eq[of "map snd (in_slot_order n xs)"] assms(5)
      sums[of "\<lambda>x. unat (raw_footprint (snd x))"] sums[of "\<lambda>x. raw_footprint (snd x)"]
    by (simp add: comp_def)
  then have "from_ordered_slot_inserts (in_slot_order n xs) n numa = Inr ?s"
    by (simp add: from_ordered_slot_inserts_def in_slot_order_def comp_def map_idI)
  with slow show ?thesis by blast
qed

section \<open>The worker keeps its blocks well-formed\<close>

definition inflight_inv :: "inflight_map \<Rightarrow> bool" where
  "inflight_inv m \<longleftrightarrow> (\<forall>k b. m k = Some b \<longrightarrow> inflight_wf b \<and> 0 < remaining b)"

definition sealed_ok :: "nat \<Rightarrow> sealed_block \<Rightarrow> bool" where
  "sealed_ok n s \<longleftrightarrow> length (sealed_slots s) = n \<and> length (sealed_numas s) = n"

lemma insert_slots_ok:
  assumes "inflight_wf b" and "0 < remaining b" and "\<forall>x \<in> set xs. fst x < total_slots b"
  shows "\<exists>b' c a. insert_slots b numa xs False added = Inr (b', c, a) \<and> inflight_wf b' \<and>
    total_slots b' = total_slots b \<and> (c \<longleftrightarrow> remaining b' = 0)"
  using assms
proof (induction xs arbitrary: b added)
  case (Cons x xs)
  obtain i r where x: "x = (i, r)" by fastforce
  have i: "i < total_slots b" using Cons.prems(3) x by simp
  from Cons.prems(1) i show ?case
  proof (cases rule: insert_slot_cases[where r = r and numa = numa])
    case (Dup r')
    then show ?thesis using Cons.IH[of b added] Cons.prems by (simp add: x)
  next
    case (New b1)
    have wf: "inflight_wf b1" using insert_slot_wf[OF Cons.prems(1) i New(2)] .
    show ?thesis
    proof (cases "remaining b1 = 0")
      case True
      then show ?thesis using New wf by (simp add: x)
    next
      case False
      then show ?thesis
        using Cons.IH[of b1 "saturating_add added (raw_footprint r)"] Cons.prems(3) New wf by (simp add: x)
    qed
  qed
qed simp

lemma seal_ok:
  assumes "inflight_wf b" and "remaining b = 0"
  shows "\<exists>s. seal b = Inr s \<and> sealed_ok (total_slots b) s"
proof -
  obtain s where s: "seal b = Inr s" using seal_Inr_iff[OF assms(1)] assms(2) by blast
  then obtain rs where "expect_all (slots b) = Inr rs" "s = \<lparr>sealed_slots = rs, sealed_footprint = footprint b,
      sealed_numas = slot_numas b\<rparr>" by (auto simp: seal_def res_simps)
  then show ?thesis using s assms(1) by (auto simp: expect_all_Inr inflight_wf_def sealed_ok_def)
qed

lemma insert_partial_slots_ok:
  assumes "inflight_inv m" and "0 < n" and "\<forall>x \<in> set xs. fst x < n"
  shows "\<exists>m' os a g. insert_partial_slots now m k xs n numa acct = Inr (m', os, a, g) \<and> inflight_inv m' \<and>
    (\<forall>s. os = Some s \<longrightarrow> sealed_ok n s)"
proof -
  obtain added gone where acct: "acct = (added, gone)" by fastforce
  let ?b = "case m k of None \<Rightarrow> inflight_new n now | Some ib \<Rightarrow> ib"
  have b: "inflight_wf ?b" "0 < remaining ?b"
    using assms(1,2) by (auto simp: inflight_inv_def inflight_new_def[of n now, THEN arg_cong[where f = remaining]]
        split: option.split)
  show ?thesis
  proof (cases "total_slots ?b = n")
    case False
    then show ?thesis using assms(1) by (simp add: insert_partial_slots_def acct)
  next
    case True
    obtain b' c a where ins: "insert_slots ?b numa xs False added = Inr (b', c, a)" "inflight_wf b'"
        "total_slots b' = n" "c \<longleftrightarrow> remaining b' = 0"
      using insert_slots_ok[OF b, of xs numa added] assms(3) True by auto
    show ?thesis
    proof (cases c)
      case True
      then show ?thesis
        using \<open>total_slots ?b = n\<close> ins seal_ok[of b'] assms(1)
        by (auto simp: insert_partial_slots_def acct inflight_inv_def)
    next
      case False
      then show ?thesis
        using \<open>total_slots ?b = n\<close> ins assms(1)
        by (auto simp: insert_partial_slots_def acct inflight_inv_def)
    qed
  qed
qed

lemma process_entry_ok:
  assumes "inflight_inv (bs_inflight st)" and "0 < n" and "\<forall>x \<in> set (snd e). fst x < n"
    and "\<forall>x \<in> set (bs_sealed st). sealed_ok n (snd x)"
  shows "\<exists>st'. process_entry present now n numa st e = Inr st' \<and> inflight_inv (bs_inflight st') \<and>
    (\<forall>x \<in> set (bs_sealed st'). sealed_ok n (snd x))"
proof -
  obtain k xs where e: "e = (k, xs)" by fastforce
  obtain m' os a g where slow: "insert_partial_slots now (bs_inflight st) k xs n numa (bs_added st, bs_removed st) =
      Inr (m', os, a, g)" "inflight_inv m'" "\<And>s. os = Some s \<Longrightarrow> sealed_ok n s"
    using insert_partial_slots_ok[OF assms(1,2), of xs now k numa "(bs_added st, bs_removed st)"] assms(3) e by auto
  have fast: "sealed_ok n s" if "from_ordered_slot_inserts xs n numa = Inr s" for s
    using that by (auto simp: from_ordered_slot_inserts_def sealed_ok_def split: if_splits)
  show ?thesis
    using slow fast assms(1,4)
    by (cases "present k"; cases "bs_inflight st k"; cases "from_ordered_slot_inserts xs n numa"; cases os)
      (auto simp: process_entry_def e)
qed

lemma process_entries_ok:
  assumes "inflight_inv (bs_inflight st)" and "0 < n" and "\<forall>e \<in> set es. \<forall>x \<in> set (snd e). fst x < n"
    and "\<forall>x \<in> set (bs_sealed st). sealed_ok n (snd x)"
  shows "\<exists>st'. process_entries present now n numa st es = Inr st' \<and> inflight_inv (bs_inflight st') \<and>
    (\<forall>x \<in> set (bs_sealed st'). sealed_ok n (snd x))"
  using assms
proof (induction es arbitrary: st)
  case (Cons e es)
  obtain st' where st': "process_entry present now n numa st e = Inr st'" "inflight_inv (bs_inflight st')"
      "\<forall>x \<in> set (bs_sealed st'). sealed_ok n (snd x)"
    using process_entry_ok[of st n e present now numa] Cons.prems by auto
  then show ?case using Cons.IH[of st'] Cons.prems(2,3) by simp
qed simp

lemma resident_generations_sound:
  assumes "lru_laws M" and "(k, g) \<in> set (resident_generations M s ks)"
  shows "\<exists>cls m. (k, m) \<in> set (class_items M s cls) \<and> generation m = g"
proof -
  obtain m where m: "(case lru_peek M (rc_reclaimable s) k of Some m \<Rightarrow> Some m
      | None \<Rightarrow> lru_peek M (rc_retained s) k) = Some m" "generation m = g"
    using assms(2) by (auto simp: resident_generations_def List.map_filter_def)
  then have "map_of (class_items M s Reclaimable) k = Some m \<or> map_of (class_items M s Retained) k = Some m"
    by (simp add: class_items_def lru_lawsD(5)[OF assms(1)] split: option.splits)
  then show ?thesis using m(2) map_of_SomeD by metis
qed

text \<open>
  C7. The insert worker processes every batch whose slot ids are in range without panic. Its
  inflight blocks stay well-formed and incomplete; every block handed to the SSD writer is
  complete, with one NUMA node per slot; every hash registered with the MetaServer is
  resident with the registered generation; and the read cache keeps its accounting.
\<close>

theorem insert_batch_publishes_complete_blocks:
  assumes "lru_laws L" and "lru_laws M" and "rc_inv L M (deps_cache d)"
    and "inflight_inv inflight" and "0 < n" and "\<forall>e \<in> set es. \<forall>x \<in> set (snd e). fst x < n"
  shows "\<exists>inflight' d' pub st. process_insert_batch L M now fresh inflight (Some d) es n numa =
      Inr (inflight', Some d', pub, st) \<and>
    inflight_inv inflight' \<and> rc_inv L M (deps_cache d') \<and>
    (\<forall>(k, a) \<in> set (pub_ssd pub). length (sealed_slots (arc_inner a)) = n \<and>
       length (sealed_numas (arc_inner a)) = n) \<and>
    (\<forall>(h, g) \<in> set (pub_meta pub). \<exists>k cls m. hash k = h \<and>
       (k, m) \<in> set (class_items M (deps_cache d') cls) \<and> generation m = g)"
proof -
  let ?present = "\<lambda>k. hd (contains_keys L (deps_cache d) [k])"
  let ?st0 = "\<lparr>bs_inflight = inflight, bs_sealed = [], bs_added = 0, bs_removed = 0, bs_fast = 0\<rparr>"
  obtain st where st: "process_entries ?present now n numa ?st0 es = Inr st" "inflight_inv (bs_inflight st)"
      "\<forall>x \<in> set (bs_sealed st). sealed_ok n (snd x)"
    using process_entries_ok[of ?st0 n es ?present now numa] assms(4-6) by auto
  show ?thesis
  proof (cases "bs_sealed st = []")
    case True
    then show ?thesis using st assms(3) by (simp add: process_insert_batch_def)
  next
    case False
    define blocks where "blocks = map (\<lambda>(i, (k, s)). (k, \<lparr>arc_id = i, arc_inner = s\<rparr>)) (enumerate fresh (bs_sealed st))"
    obtain rc ks where rc: "batch_insert_refs L M now (deps_cache d) blocks = (rc, ks)" by fastforce
    let ?d' = "d\<lparr>deps_cache := rc\<rparr>"
    let ?pub = "send_backing_batches ?d' blocks (resident_generations M rc ks)"
    have "process_insert_batch L M now fresh inflight (Some d) es n numa =
        Inr (bs_inflight st, Some ?d', ?pub, st)"
      using st(1) False rc by (simp add: process_insert_batch_def blocks_def Let_def)
    moreover have "rc_inv L M rc" using batch_insert_inv(2)[OF assms(1-3), of now blocks] rc by simp
    moreover have "sealed_ok n (arc_inner a)" if mem: "(k, a) \<in> set blocks" for k a
    proof -
      obtain j s where j: "(j, (k, s)) \<in> set (enumerate fresh (bs_sealed st))" "a = \<lparr>arc_id = j, arc_inner = s\<rparr>"
        using mem unfolding blocks_def by auto
      then have "bs_sealed st ! (j - fresh) = (k, s)" "j - fresh < length (bs_sealed st)"
        by (auto simp: in_set_enumerate_eq)
      then have "(k, s) \<in> set (bs_sealed st)" by (metis nth_mem)
      then show ?thesis using st(3) j(2) by fastforce
    qed
    moreover have "\<exists>k cls m. hash k = h \<and> (k, m) \<in> set (class_items M rc cls) \<and> generation m = g"
      if "(h, g) \<in> set (pub_meta ?pub)" for h g
      using that resident_generations_sound[OF assms(2), of _ g rc ks]
      by (auto simp: send_backing_batches_def split: if_splits)
    moreover have "set (pub_ssd ?pub) \<subseteq> set blocks" by (auto simp: send_backing_batches_def)
    ultimately show ?thesis using st(2)
      by (intro exI[of _ "bs_inflight st"] exI[of _ ?d'] exI[of _ ?pub] exI[of _ st])
        (fastforce simp: sealed_ok_def)
  qed
qed

section \<open>Witnesses\<close>

definition wlayer :: "nat \<Rightarrow> raw_save_layer" where
  "wlayer i = \<lparr>layer_slot = i, padded_block_size = 512, layer_blocks = [example_raw 512, example_raw 256],
              layer_hashes = [[1], [2]]\<rparr>"

theorem ordered_entries_equal_hashed_witness:
  "build_ordered_insert_entries ''m'' [wlayer 0, wlayer 1] =
     Inr (build_hashed_insert_entries [[1], [2]] ''m'' [wlayer 0, wlayer 1]) \<and>
   length (build_hashed_insert_entries [[1], [2]] ''m'' [wlayer 0, wlayer 1]) = 2"
proof -
  have "[wlayer 0, wlayer 1] \<noteq> []" "distinct [[1 :: u8], [2]]"
      "\<forall>l \<in> set [wlayer 0, wlayer 1]. layer_hashes l = [[1], [2]] \<and> length (layer_blocks l) = length [[1 :: u8], [2]]"
    by (simp_all add: wlayer_def)
  from ordered_entries_equal_hashed[OF this, of "''m''"] show ?thesis by simp
qed

theorem seal_path_independent_witness:
  "\<exists>s added gone. insert_partial_slots 0 Map.empty (wkey 1) [(1, example_raw 256), (0, example_raw 512)] 2 0 (0, 0) =
      Inr (Map.empty, Some s, added, gone) \<and>
    from_ordered_slot_inserts [(0, example_raw 512), (1, example_raw 256)] 2 0 = Inr s"
proof -
  let ?xs = "[(1 :: nat, example_raw 256), (0, example_raw 512)]"
  have "0 < (2 :: nat)" "distinct (map fst ?xs)" "fst ` set ?xs = {..<2}"
      "Map.empty (wkey 1) = (None :: inflight_block option)"
      "sum_list (map (\<lambda>x. unat (raw_footprint (snd x))) ?xs) < 2 ^ 64"
    by (auto simp: example_raw_def raw_block_new_def raw_footprint_def less_2_cases_iff)
  from seal_path_independent[of 2 ?xs Map.empty "wkey 1" 0 0 "(0, 0)", OF this]
  show ?thesis by (simp add: in_slot_order_def upt_rec)
qed

theorem insert_batch_publishes_complete_blocks_witness:
  "\<exists>inflight' d' pub st. process_insert_batch list_lru list_lru 7 3 Map.empty
      (Some \<lparr>deps_cache = wcache, deps_ssd = True, deps_meta = True\<rparr>) [(wkey 3, [(0, example_raw 512)])] 1 0 =
      Inr (inflight', Some d', pub, st) \<and> inflight_inv inflight' \<and>
    (\<forall>(k, a) \<in> set (pub_ssd pub). length (sealed_slots (arc_inner a)) = 1)"
proof -
  let ?d = "\<lparr>deps_cache = wcache, deps_ssd = True, deps_meta = True\<rparr>"
  have "rc_inv list_lru list_lru (deps_cache ?d)"
    using rc_reach_inv[OF list_lru_laws list_lru_laws wcache_reach] by simp
  moreover have "inflight_inv Map.empty" by (simp add: inflight_inv_def)
  moreover have "0 < (1 :: nat)" "\<forall>e \<in> set [(wkey 3, [(0 :: nat, example_raw 512)])]. \<forall>x \<in> set (snd e). fst x < 1"
    by simp_all
  ultimately show ?thesis
    using insert_batch_publishes_complete_blocks[OF list_lru_laws list_lru_laws, of ?d Map.empty 1
        "[(wkey 3, [(0, example_raw 512)])]" 7 3 0] by (simp only: split_beta) blast
qed

end
