(* ===== verification/Pd_Wire.thy ===== *)
theory Pd_Wire
  imports Pega_Prelude
begin

text \<open>
  The handshake of the prefill/decode KV push (\<open>pegaflow-pd-wire/src/lib.rs\<close>): its data, the
  completion immediates and the validation that both ends run. JSON parsing and printing is
  the \<open>serde_json\<close> crate, an argument of \<open>from_json\<close> and \<open>to_json\<close>; \<open>serde_roundtrip\<close> states
  that parsing undoes printing. The messages of errors are not modelled, their kinds are.
\<close>

section \<open>Data\<close>

definition fail_imm_flag :: u32 where "fail_imm_flag = 0x80000000"
definition abort_imm_flag :: u32 where "abort_imm_flag = 0x40000000"
definition imm_flag_bits :: u32 where "imm_flag_bits = fail_imm_flag OR abort_imm_flag"
definition max_imm_id :: u32 where "max_imm_id = NOT imm_flag_bits"

definition fail_imm :: "u32 \<Rightarrow> u32" where
  "fail_imm i = i XOR fail_imm_flag"

definition abort_imm :: "u32 \<Rightarrow> u32" where
  "abort_imm i = i XOR abort_imm_flag"

datatype wire_error =
    InvalidJson | SerializationFailed
  | EmptyRequestId | InvalidTp | ZeroBlockSize
  | ReservedFlagBits | ImmsNotDistinct | SignalWithoutFlag
  | EmptyLayerName | NoBlockIds | EmptyBlockIds | IdsNotIncreasing
  | NoRegions | RegionOrder | RegionRange | RegionStride | DuplicateLayer

record mr_desc =
  mr_ptr :: u64
  addr_rkey_list :: "(string \<times> u64) list"

record region =
  region_idx :: u32
  base_addr :: u64
  block_len :: u64
  region_stride :: "u64 option"

definition block_stride :: "region \<Rightarrow> u64" where
  "block_stride r = (case region_stride r of Some s \<Rightarrow> s | None \<Rightarrow> block_len r)"

record layer =
  layer_name :: string
  layer_idx :: u64
  layer_ids :: "u64 list option"
  regions :: "region list"
  layer_mr :: "mr_desc option"

record handshake =
  request_id :: string
  engine_id :: string
  tp_rank :: u32
  tp_size :: u32
  block_size :: u64
  shared_ids :: "u64 list option"
  layers :: "layer list"
  imm_id :: u32
  fail_override :: "u32 option"
  abort_override :: "u32 option"
  expected_imm_count :: u32

section \<open>Operations\<close>

text \<open>A missing or null count means one; zero is rejected while parsing.\<close>

definition de_expected_imm_count :: "u32 option \<Rightarrow> wire_error + u32" where
  "de_expected_imm_count v =
     (let n = (case v of None \<Rightarrow> 1 | Some n \<Rightarrow> n) in if n = 0 then Inl InvalidJson else Inr n)"

definition layer_block_ids :: "handshake \<Rightarrow> layer \<Rightarrow> u64 list option" where
  "layer_block_ids h l = (case layer_ids l of Some ids \<Rightarrow> Some ids | None \<Rightarrow> shared_ids h)"

definition fail_imm_id :: "handshake \<Rightarrow> u32" where
  "fail_imm_id h = (case fail_override h of Some i \<Rightarrow> i | None \<Rightarrow> fail_imm (imm_id h))"

definition abort_imm_id :: "handshake \<Rightarrow> u32" where
  "abort_imm_id h = (case abort_override h of Some i \<Rightarrow> i | None \<Rightarrow> abort_imm (imm_id h))"

definition validate_imm_ids :: "handshake \<Rightarrow> wire_error + unit" where
  "validate_imm_ids h =
     (let i = imm_id h; fail = fail_imm_id h; abort = abort_imm_id h in
      if i AND imm_flag_bits \<noteq> 0 then Inl ReservedFlagBits
      else if fail = i \<or> abort = i \<or> abort = fail then Inl ImmsNotDistinct
      else if fail AND imm_flag_bits = 0 then Inl SignalWithoutFlag
      else if abort AND imm_flag_bits = 0 then Inl SignalWithoutFlag
      else Inr ())"

fun strictly_increasing :: "u64 list \<Rightarrow> bool" where
  "strictly_increasing (a # b # xs) = (a < b \<and> strictly_increasing (b # xs))"
| "strictly_increasing _ = True"

fun validate_regions :: "nat \<Rightarrow> region list \<Rightarrow> wire_error + unit" where
  "validate_regions position [] = Inr ()"
| "validate_regions position (r # rs) =
     (if unat (region_idx r) \<noteq> position then Inl RegionOrder
      else if base_addr r = 0 \<or> block_len r = 0 then Inl RegionRange
      else if block_stride r < block_len r then Inl RegionStride
      else validate_regions (position + 1) rs)"

definition validate_layer :: "handshake \<Rightarrow> layer \<Rightarrow> wire_error + unit" where
  "validate_layer h l =
     (if layer_name l = [] then Inl EmptyLayerName
      else bind_res (ok_or (layer_block_ids h l) NoBlockIds) (\<lambda>ids.
        if ids = [] then Inl EmptyBlockIds
        else if \<not> strictly_increasing ids then Inl IdsNotIncreasing
        else if regions l = [] then Inl NoRegions
        else validate_regions 0 (regions l)))"

fun validate_layers :: "handshake \<Rightarrow> u64 set \<Rightarrow> layer list \<Rightarrow> wire_error + unit" where
  "validate_layers h seen [] = Inr ()"
| "validate_layers h seen (l # ls) =
     bind_res (validate_layer h l) (\<lambda>_.
       if layer_idx l \<in> seen then Inl DuplicateLayer
       else validate_layers h (insert (layer_idx l) seen) ls)"

definition validate :: "handshake \<Rightarrow> wire_error + unit" where
  "validate h =
     (if request_id h = [] then Inl EmptyRequestId
      else if tp_size h = 0 \<or> tp_rank h \<ge> tp_size h then Inl InvalidTp
      else if block_size h = 0 then Inl ZeroBlockSize
      else bind_res (validate_imm_ids h) (\<lambda>_. validate_layers h {} (layers h)))"

text \<open>
  The parser hands the raw count to \<open>de_expected_imm_count\<close> and builds the handshake from
  the value that returns.
\<close>

type_synonym json_parser = "string \<Rightarrow> (u32 option \<times> (u32 \<Rightarrow> handshake)) option"
type_synonym json_printer = "handshake \<Rightarrow> string option"

definition from_json :: "json_parser \<Rightarrow> string \<Rightarrow> wire_error + handshake" where
  "from_json parse j =
     bind_res (ok_or (parse j) InvalidJson) (\<lambda>(count, build).
       bind_res (de_expected_imm_count count) (\<lambda>n.
         bind_res (validate (build n)) (\<lambda>_. Inr (build n))))"

definition to_json :: "json_printer \<Rightarrow> handshake \<Rightarrow> wire_error + string" where
  "to_json print h = bind_res (validate h) (\<lambda>_. ok_or (print h) SerializationFailed)"

definition serde_roundtrip :: "json_parser \<Rightarrow> json_printer \<Rightarrow> bool" where
  "serde_roundtrip parse print \<longleftrightarrow> (\<forall>h j. print h = Some j \<longrightarrow>
     (\<exists>build. parse j = Some (Some (expected_imm_count h), build) \<and> build (expected_imm_count h) = h))"

section \<open>What validation accepts\<close>

definition region_ok :: "nat \<Rightarrow> region \<Rightarrow> bool" where
  "region_ok i r \<longleftrightarrow> unat (region_idx r) = i \<and> base_addr r \<noteq> 0 \<and> block_len r \<noteq> 0 \<and> block_len r \<le> block_stride r"

definition layer_ok :: "handshake \<Rightarrow> layer \<Rightarrow> bool" where
  "layer_ok h l \<longleftrightarrow> layer_name l \<noteq> [] \<and> regions l \<noteq> [] \<and>
     (\<exists>ids. layer_block_ids h l = Some ids \<and> ids \<noteq> [] \<and> sorted_wrt (<) ids) \<and>
     (\<forall>i < length (regions l). region_ok i (regions l ! i))"

definition imms_ok :: "handshake \<Rightarrow> bool" where
  "imms_ok h \<longleftrightarrow> imm_id h AND imm_flag_bits = 0 \<and>
     fail_imm_id h AND imm_flag_bits \<noteq> 0 \<and> abort_imm_id h AND imm_flag_bits \<noteq> 0 \<and>
     fail_imm_id h \<noteq> abort_imm_id h"

definition schema_ok :: "handshake \<Rightarrow> bool" where
  "schema_ok h \<longleftrightarrow> request_id h \<noteq> [] \<and> tp_rank h < tp_size h \<and> block_size h \<noteq> 0 \<and> imms_ok h \<and>
     (\<forall>l \<in> set (layers h). layer_ok h l) \<and> distinct (map layer_idx (layers h))"

lemma strictly_increasing_sorted: "strictly_increasing xs \<longleftrightarrow> sorted_wrt (<) xs"
proof (induction xs rule: strictly_increasing.induct)
  case (1 a b xs)
  then show ?case by (auto dest: order.strict_trans)
qed auto

lemma validate_regions_iff:
  "validate_regions n rs = Inr () \<longleftrightarrow> (\<forall>i < length rs. region_ok (n + i) (rs ! i))"
proof (induction n rs rule: validate_regions.induct)
  case (2 p r rs)
  have "(\<forall>i < length (r # rs). region_ok (p + i) ((r # rs) ! i)) \<longleftrightarrow>
      region_ok p r \<and> (\<forall>i < length rs. region_ok (p + 1 + i) (rs ! i))"
    by (auto simp: All_less_Suc2)
  then show ?case using 2 by (auto simp: region_ok_def not_less)
qed simp

lemma validate_layer_iff: "validate_layer h l = Inr () \<longleftrightarrow> layer_ok h l"
  by (auto simp: validate_layer_def layer_ok_def res_simps strictly_increasing_sorted validate_regions_iff)

lemma validate_layers_iff:
  "validate_layers h seen ls = Inr () \<longleftrightarrow>
     (\<forall>l \<in> set ls. layer_ok h l) \<and> distinct (map layer_idx ls) \<and> seen \<inter> layer_idx ` set ls = {}"
  by (induction ls arbitrary: seen) (auto simp: res_simps validate_layer_iff)

lemma validate_imm_ids_iff: "validate_imm_ids h = Inr () \<longleftrightarrow> imms_ok h"
  unfolding validate_imm_ids_def imms_ok_def Let_def by auto

lemma validate_iff: "validate h = Inr () \<longleftrightarrow> schema_ok h"
  by (auto simp: validate_def schema_ok_def res_simps validate_imm_ids_iff validate_layers_iff not_le)



section \<open>Immediates\<close>

lemma fail_imm_involutive: "fail_imm (fail_imm i) = i"
  by (simp add: fail_imm_def xor.assoc)

lemma abort_imm_involutive: "abort_imm (abort_imm i) = i"
  by (simp add: abort_imm_def xor.assoc)

lemma flag_tests:
  assumes "i AND imm_flag_bits = (0 :: u32)"
  shows "fail_imm i AND imm_flag_bits = fail_imm_flag" and "abort_imm i AND imm_flag_bits = abort_imm_flag"
proof -
  have "(i XOR f) AND imm_flag_bits = (i AND imm_flag_bits) XOR (f AND imm_flag_bits)" for f
    by (rule bit_word_eqI) (auto simp: bit_simps)
  moreover have "fail_imm_flag AND imm_flag_bits = fail_imm_flag" "abort_imm_flag AND imm_flag_bits = abort_imm_flag"
    by (simp_all add: imm_flag_bits_def fail_imm_flag_def abort_imm_flag_def)
  ultimately show "fail_imm i AND imm_flag_bits = fail_imm_flag" "abort_imm i AND imm_flag_bits = abort_imm_flag"
    using assms by (simp_all add: fail_imm_def abort_imm_def)
qed

lemma flags_differ: "fail_imm_flag \<noteq> abort_imm_flag" "fail_imm_flag \<noteq> 0" "abort_imm_flag \<noteq> 0"
  by (simp_all add: fail_imm_flag_def abort_imm_flag_def)


section \<open>Witnesses\<close>

definition whandshake :: handshake where
  "whandshake = \<lparr>request_id = ''r'', engine_id = ''e'', tp_rank = 0, tp_size = 1, block_size = 16,
     shared_ids = Some [3, 5],
     layers = [\<lparr>layer_name = ''l'', layer_idx = 0, layer_ids = None,
       regions = [\<lparr>region_idx = 0, base_addr = 4096, block_len = 64, region_stride = None\<rparr>], layer_mr = None\<rparr>],
     imm_id = 7, fail_override = None, abort_override = None, expected_imm_count = 1\<rparr>"

definition wprint :: json_printer where
  "wprint h = (if h = whandshake then Some ''x'' else None)"

definition wparse :: json_parser where
  "wparse j = (if j = ''x'' then Some (Some 1, \<lambda>n. whandshake\<lparr>expected_imm_count := n\<rparr>) else None)"

lemma wserde: "serde_roundtrip wparse wprint"
  by (simp add: serde_roundtrip_def wprint_def wparse_def whandshake_def)

lemma whandshake_ok: "schema_ok whandshake"
  by (simp add: schema_ok_def imms_ok_def layer_ok_def region_ok_def layer_block_ids_def whandshake_def
      fail_imm_id_def abort_imm_id_def fail_imm_def abort_imm_def imm_flag_bits_def fail_imm_flag_def
      abort_imm_flag_def block_stride_def)

lemma whandshake_count: "expected_imm_count whandshake \<noteq> 0" "wprint whandshake = Some ''x''"
  by (simp_all add: whandshake_def wprint_def)


lemma wparsed: "from_json wparse ''x'' = Inr whandshake"
  using whandshake_ok validate_iff[of whandshake]
  by (simp add: from_json_def wparse_def de_expected_imm_count_def whandshake_def)



end
