(* ===== verification/Hll.thy ===== *)
theory Hll
  imports Pega_Prelude
begin

text \<open>
  HyperLogLog sketches and the sliding-window tracker (\<open>pegaflow-common/src/hll.rs\<close>). The
  registers are bytes; a leading-zero count that no longer fits a byte stops the model with
  \<open>RhoOverflow\<close> (a debug build panics there). Instants and durations are natural numbers of
  nanoseconds, request counts are natural numbers. The floating-point estimate of the
  cardinality is not modelled: \<open>tracker_metric\<close> returns the registers it is computed from.
\<close>

section \<open>Sketches\<close>

datatype hll_panic =
    BucketBits nat | RhoOverflow | RegisterIndex | MergeBits | SlotDurationZero
  | NoWindows | WindowTooShort | DuplicateWindow

record hll =
  registers :: "u8 list"
  bucket_bits :: nat
  lz_mask :: u32

definition min_bucket_bits :: nat where "min_bucket_bits = 4"
definition max_bucket_bits :: nat where "max_bucket_bits = 18"

definition hll_new :: "nat \<Rightarrow> hll_panic + hll" where
  "hll_new b =
     (if min_bucket_bits \<le> b \<and> b \<le> max_bucket_bits
      then Inr \<lparr>registers = replicate (2 ^ b) 0, bucket_bits = b, lz_mask = push_bit (32 - b) 1 - 1\<rparr>
      else Inl (BucketBits b))"

fun zeros_below :: "'a::len word \<Rightarrow> nat \<Rightarrow> nat" where
  "zeros_below w 0 = 0"
| "zeros_below w (Suc n) = (if bit w n then 0 else Suc (zeros_below w n))"

definition leading_zeros :: "'a::len word \<Rightarrow> nat" where
  "leading_zeros w = zeros_below w LENGTH('a)"

definition byte_or_zero :: "u8 list \<Rightarrow> nat \<Rightarrow> u8" where
  "byte_or_zero h i = (if i < length h then h ! i else 0)"

definition u32_from_be_bytes :: "u8 \<Rightarrow> u8 \<Rightarrow> u8 \<Rightarrow> u8 \<Rightarrow> u32" where
  "u32_from_be_bytes a b c d =
     push_bit 24 (ucast a) OR push_bit 16 (ucast b) OR push_bit 8 (ucast c) OR ucast d"

definition bucket_index :: "u8 list \<Rightarrow> nat \<Rightarrow> nat" where
  "bucket_index h b =
     unat (drop_bit (24 - b) (u32_from_be_bytes 0 (byte_or_zero h 0) (byte_or_zero h 1) (byte_or_zero h 2)))"

fun clz_tail :: "nat \<Rightarrow> u8 list \<Rightarrow> hll_panic + nat" where
  "clz_tail count [] = Inr count"
| "clz_tail count (x # xs) =
     (if x \<noteq> 0
      then (if count + leading_zeros x < 256 then Inr (count + leading_zeros x) else Inl RhoOverflow)
      else if count + 8 < 256 then clz_tail (count + 8) xs else Inl RhoOverflow)"

definition count_leading_zeros :: "u8 list \<Rightarrow> nat \<Rightarrow> u32 \<Rightarrow> hll_panic + nat" where
  "count_leading_zeros h b lzm =
     (let masked = u32_from_be_bytes (byte_or_zero h 0) (byte_or_zero h 1) (byte_or_zero h 2) (byte_or_zero h 3) AND lzm
      in if masked \<noteq> 0
         then (if b \<le> leading_zeros masked then Inr (leading_zeros masked - b) else Inl RhoOverflow)
         else clz_tail (32 - b) (drop 4 h))"

definition rho :: "hll \<Rightarrow> u8 list \<Rightarrow> hll_panic + nat" where
  "rho s h = bind_res (count_leading_zeros h (bucket_bits s) (lz_mask s)) (\<lambda>n.
     if n + 1 < 256 then Inr (n + 1) else Inl RhoOverflow)"

definition hll_insert :: "hll \<Rightarrow> u8 list \<Rightarrow> hll_panic + hll" where
  "hll_insert s h =
     (let i = bucket_index h (bucket_bits s) in
      bind_res (rho s h) (\<lambda>r.
        if i < length (registers s)
        then Inr (if of_nat r > registers s ! i then s\<lparr>registers := (registers s)[i := of_nat r]\<rparr> else s)
        else Inl RegisterIndex))"

definition hll_merge :: "hll \<Rightarrow> hll \<Rightarrow> hll_panic + hll" where
  "hll_merge a b =
     (if bucket_bits a \<noteq> bucket_bits b then Inl MergeBits
      else Inr (a\<lparr>registers := map2 (\<lambda>x y. if y > x then y else x) (registers a) (registers b) @
                    drop (length (registers b)) (registers a)\<rparr>))"

definition hll_clear :: "hll \<Rightarrow> hll" where
  "hll_clear s = s\<lparr>registers := replicate (length (registers s)) 0\<rparr>"

definition union_registers :: "hll \<Rightarrow> hll \<Rightarrow> u8 list" where
  "union_registers a b = map2 max (registers a) (registers b)"

section \<open>The tracker\<close>

record window_slot =
  slot_hll :: hll
  slot_start :: nat
  request_count :: nat

record hll_tracker =
  slots :: "window_slot list"
  merged :: hll
  merged_dirty :: bool
  slot_duration :: nat
  window_duration :: nat
  tracker_bits :: nat

definition tracker_new :: "nat \<Rightarrow> nat \<Rightarrow> nat \<Rightarrow> hll_panic + hll_tracker" where
  "tracker_new slot window b =
     bind_res (hll_new b) (\<lambda>m. Inr \<lparr>slots = [], merged = m, merged_dirty = False, slot_duration = slot,
       window_duration = window, tracker_bits = b\<rparr>)"

definition need_new_slot :: "nat \<Rightarrow> hll_tracker \<Rightarrow> bool" where
  "need_new_slot now t = (slots t = [] \<or> now - slot_start (last (slots t)) \<ge> slot_duration t)"

definition aligned_start :: "nat \<Rightarrow> hll_tracker \<Rightarrow> hll_panic + nat" where
  "aligned_start now t =
     (if slots t = [] then Inr now
      else if slot_duration t = 0 then Inl SlotDurationZero
      else let periods = (now - slot_start (last (slots t))) div slot_duration t
           in Inr (slot_start (last (slots t)) + slot_duration t * (periods mod 2 ^ 32)))"

definition push_slot :: "nat \<Rightarrow> hll_tracker \<Rightarrow> hll_panic + hll_tracker" where
  "push_slot now t =
     bind_res (aligned_start now t) (\<lambda>start. bind_res (hll_new (tracker_bits t)) (\<lambda>s.
       Inr (t\<lparr>merged_dirty := True, slots := slots t @ [\<lparr>slot_hll = s, slot_start = start, request_count = 0\<rparr>]\<rparr>)))"

fun insert_all :: "hll \<Rightarrow> u8 list list \<Rightarrow> hll_panic + hll" where
  "insert_all s [] = Inr s"
| "insert_all s (h # hs) = bind_res (hll_insert s h) (\<lambda>s. insert_all s hs)"

definition record_hashes_with_total :: "nat \<Rightarrow> u8 list list \<Rightarrow> nat \<Rightarrow> hll_tracker \<Rightarrow> hll_panic + hll_tracker" where
  "record_hashes_with_total now hs n t =
     (if n = 0 then Inr t
      else bind_res (if need_new_slot now t then push_slot now t else Inr t) (\<lambda>t.
        let slot = last (slots t) in
        bind_res (insert_all (slot_hll slot) hs) (\<lambda>s.
          Inr (t\<lparr>slots := butlast (slots t) @
                 [slot\<lparr>slot_hll := s, request_count := request_count slot + n\<rparr>]\<rparr>))))"

definition record_hashes :: "nat \<Rightarrow> u8 list list \<Rightarrow> hll_tracker \<Rightarrow> hll_panic + hll_tracker" where
  "record_hashes now hs t = record_hashes_with_total now hs (length hs) t"

definition record_hash :: "nat \<Rightarrow> u8 list \<Rightarrow> hll_tracker \<Rightarrow> hll_panic + hll_tracker" where
  "record_hash now h t = record_hashes_with_total now [h] 1 t"

fun expire_loop :: "nat \<Rightarrow> nat \<Rightarrow> window_slot list \<Rightarrow> bool \<Rightarrow> window_slot list \<times> bool" where
  "expire_loop now window [] dirty = ([], dirty)"
| "expire_loop now window (s # ss) dirty =
     (if now - slot_start s \<ge> window then expire_loop now window ss True else (s # ss, dirty))"

definition expire_old_slots :: "nat \<Rightarrow> hll_tracker \<Rightarrow> hll_tracker" where
  "expire_old_slots now t =
     (case expire_loop now (window_duration t) (slots t) (merged_dirty t) of
        (ss, dirty) \<Rightarrow> t\<lparr>slots := ss, merged_dirty := dirty\<rparr>)"

fun merge_all :: "hll \<Rightarrow> window_slot list \<Rightarrow> hll_panic + hll" where
  "merge_all m [] = Inr m"
| "merge_all m (s # ss) = bind_res (hll_merge m (slot_hll s)) (\<lambda>m. merge_all m ss)"

definition ensure_merged :: "hll_tracker \<Rightarrow> hll_panic + hll_tracker" where
  "ensure_merged t =
     (if \<not> merged_dirty t then Inr t
      else bind_res (merge_all (hll_clear (merged t)) (take (length (slots t) - 1) (slots t))) (\<lambda>m.
        Inr (t\<lparr>merged := m, merged_dirty := False\<rparr>)))"

record hll_metric =
  metric_registers :: "u8 list option" \<comment> \<open>what the cardinality is estimated from\<close>
  total_requests :: nat
  window_slot_count :: nat

definition tracker_metric :: "nat \<Rightarrow> hll_tracker \<Rightarrow> hll_panic + (hll_tracker \<times> hll_metric)" where
  "tracker_metric now t =
     bind_res (ensure_merged (expire_old_slots now t)) (\<lambda>t.
       Inr (t, \<lparr>metric_registers = (if slots t = [] then None
                  else Some (union_registers (merged t) (slot_hll (last (slots t))))),
                total_requests = sum_list (map request_count (slots t)),
                window_slot_count = length (slots t)\<rparr>))"

section \<open>Several windows\<close>

definition derive_slot_duration :: "nat \<Rightarrow> nat \<Rightarrow> nat" where
  "derive_slot_duration sec window = min (max (window div 24) (60 * sec)) (3600 * sec)"

fun build_trackers :: "nat \<Rightarrow> nat \<Rightarrow> (string \<times> nat) list \<Rightarrow> hll_panic + (string \<times> hll_tracker) list" where
  "build_trackers sec b [] = Inr []"
| "build_trackers sec b ((label, window) # ws) =
     bind_res (tracker_new (derive_slot_duration sec window) window b) (\<lambda>t.
       bind_res (build_trackers sec b ws) (\<lambda>ts. Inr ((label, t) # ts)))"

definition multi_new :: "nat \<Rightarrow> (string \<times> nat) list \<Rightarrow> nat \<Rightarrow> hll_panic + (string \<times> hll_tracker) list" where
  "multi_new sec ws b =
     (if ws = [] then Inl NoWindows
      else if \<not> list_all (\<lambda>w. snd w \<ge> 60 * sec) ws then Inl WindowTooShort
      else if \<not> distinct (map snd ws) then Inl DuplicateWindow
      else build_trackers sec b ws)"

fun multi_record :: "nat \<Rightarrow> u8 list list \<Rightarrow> nat \<Rightarrow> (string \<times> hll_tracker) list \<Rightarrow> hll_panic + (string \<times> hll_tracker) list" where
  "multi_record now hs n [] = Inr []"
| "multi_record now hs n ((label, t) # ts) =
     bind_res (record_hashes_with_total now hs n t) (\<lambda>t.
       bind_res (multi_record now hs n ts) (\<lambda>ts. Inr ((label, t) # ts)))"

fun multi_metrics :: "nat \<Rightarrow> (string \<times> hll_tracker) list \<Rightarrow> hll_panic + ((string \<times> hll_tracker) list \<times> (string \<times> hll_metric) list)" where
  "multi_metrics now [] = Inr ([], [])"
| "multi_metrics now ((label, t) # ts) =
     bind_res (tracker_metric now t) (\<lambda>(t, m).
       bind_res (multi_metrics now ts) (\<lambda>(ts, ms). Inr ((label, t) # ts, (label, m) # ms)))"

definition u64_le_bytes :: "u64 \<Rightarrow> u8 list" where
  "u64_le_bytes x = map (\<lambda>i. ucast (drop_bit (8 * i) x)) [0..<8]"

definition u64_be_bytes :: "u64 \<Rightarrow> u8 list" where
  "u64_be_bytes x = rev (u64_le_bytes x)"

definition splitmix64 :: "u64 \<Rightarrow> u64" where
  "splitmix64 x =
     (let x = x + 0x9e3779b97f4a7c15;
          x = (x XOR drop_bit 30 x) * 0xbf58476d1ce4e5b9;
          x = (x XOR drop_bit 27 x) * 0x94d049bb133111eb
      in x XOR drop_bit 31 x)"

definition namespaced_hash :: "u8 list \<Rightarrow> u8 list \<Rightarrow> u8 list" where
  "namespaced_hash namespace h =
     u64_be_bytes (splitmix64 (fold (\<lambda>x acc. (acc XOR ucast x) * 0x100000001b3)
       (u64_le_bytes (of_nat (length namespace)) @ namespace @ h) 0xcbf29ce484222325))"

definition record_namespaced_misses ::
  "nat \<Rightarrow> u8 list \<Rightarrow> nat \<Rightarrow> u8 list list \<Rightarrow> (string \<times> hll_tracker) list \<Rightarrow> hll_panic + (string \<times> hll_tracker) list" where
  "record_namespaced_misses now namespace n misses ts =
     (if n = 0 then Inr ts else multi_record now (map (namespaced_hash namespace) misses) n ts)"

section \<open>No panics on block hashes\<close>

text \<open>Hashes of at most 32 bytes (SHA-256) never overflow the byte that counts zeros.\<close>

definition mask_of :: "nat \<Rightarrow> u32" where
  "mask_of b = push_bit (32 - b) 1 - 1"

definition bits_ok :: "nat \<Rightarrow> bool" where
  "bits_ok b \<longleftrightarrow> 4 \<le> b \<and> b \<le> 18"

definition rho_of :: "nat \<Rightarrow> u8 list \<Rightarrow> nat" where
  "rho_of b h = (case count_leading_zeros h b (mask_of b) of Inl _ \<Rightarrow> 0 | Inr n \<Rightarrow> n + 1)"

lemma zeros_below_le: "zeros_below w n \<le> n"
  by (induction n) auto

lemma zeros_below_ge: "(\<And>k. m \<le> k \<Longrightarrow> k < n \<Longrightarrow> \<not> bit w k) \<Longrightarrow> m \<le> n \<Longrightarrow> n - m \<le> zeros_below w n"
proof (induction n)
  case (Suc n)
  show ?case
  proof (cases "m = Suc n")
    case False
    then have "m \<le> n" using Suc.prems(2) by simp
    then have "\<not> bit w n" "n - m \<le> zeros_below w n" using Suc.prems(1) Suc.IH by auto
    then show ?thesis using \<open>m \<le> n\<close> by simp
  qed simp
qed simp

lemma mask_of_eq: "mask_of b = mask (32 - b)"
  by (simp add: mask_of_def mask_eq_exp_minus_1 push_bit_eq_mult)

lemma clz_tail_ok: "count + 8 * length xs < 256 \<Longrightarrow> \<exists>n. clz_tail count xs = Inr n \<and> n \<le> count + 8 * length xs"
proof (induction xs arbitrary: count)
  case (Cons x xs)
  have "leading_zeros x \<le> 8" using zeros_below_le[of x 8] by (simp add: leading_zeros_def)
  then show ?case using Cons.prems Cons.IH[of "count + 8"] by fastforce
qed simp

lemma count_leading_zeros_ok:
  assumes "bits_ok b" and "length h \<le> 32"
  shows "\<exists>n. count_leading_zeros h b (mask_of b) = Inr n \<and> n + 1 < 256"
proof -
  let ?w = "u32_from_be_bytes (byte_or_zero h 0) (byte_or_zero h 1) (byte_or_zero h 2) (byte_or_zero h 3) AND mask_of b"
  have "32 - (32 - b) \<le> zeros_below ?w 32"
    by (rule zeros_below_ge) (auto simp: mask_of_eq bit_simps)
  then have lz: "b \<le> leading_zeros ?w" "leading_zeros ?w \<le> 32"
    using assms(1) zeros_below_le[of ?w 32] by (auto simp: leading_zeros_def bits_ok_def)
  have "32 - b + 8 * length (drop 4 h) < 255" using assms by (auto simp: bits_ok_def)
  then obtain n where "clz_tail (32 - b) (drop 4 h) = Inr n" "n + 1 < 256"
    using clz_tail_ok[of "32 - b" "drop 4 h"] by fastforce
  then show ?thesis using lz unfolding count_leading_zeros_def Let_def by auto
qed

lemma rho_of_bounds: "bits_ok b \<Longrightarrow> length h \<le> 32 \<Longrightarrow> rho_of b h < 256"
  using count_leading_zeros_ok[of b h] by (auto simp: rho_of_def)

lemma bucket_index_less:
  assumes "bits_ok b"
  shows "bucket_index h b < 2 ^ b"
proof -
  let ?x = "u32_from_be_bytes 0 (byte_or_zero h 0) (byte_or_zero h 1) (byte_or_zero h 2)"
  have "take_bit 24 ?x = ?x"
    by (rule bit_word_eqI) (auto simp: u32_from_be_bytes_def bit_simps dest: bit_imp_le_length)
  then have "unat ?x < 2 ^ 24" by (metis take_bit_nat_less_exp unsigned_take_bit_eq)
  then have "unat ?x < 2 ^ (24 - b) * 2 ^ b" using assms by (simp add: bits_ok_def flip: power_add)
  then have "unat ?x div 2 ^ (24 - b) < 2 ^ b" by (simp add: less_mult_imp_div_less mult.commute)
  moreover have "unat (drop_bit n ?x) = unat ?x div 2 ^ n" for n unfolding unat_drop_bit_eq by (rule drop_bit_eq_div)
  ultimately show ?thesis unfolding bucket_index_def by simp
qed

section \<open>A sketch is a function of the set of its hashes\<close>

definition bucket_max :: "nat \<Rightarrow> u8 list set \<Rightarrow> nat \<Rightarrow> nat" where
  "bucket_max b S i = Max (insert 0 (rho_of b ` {h \<in> S. bucket_index h b = i}))"

definition sketch :: "nat \<Rightarrow> u8 list set \<Rightarrow> u8 list" where
  "sketch b S = map (\<lambda>i. of_nat (bucket_max b S i)) [0..<2 ^ b]"

definition hashes_ok :: "u8 list set \<Rightarrow> bool" where
  "hashes_ok S \<longleftrightarrow> finite S \<and> (\<forall>h \<in> S. length h \<le> 32)"

definition is_sketch :: "nat \<Rightarrow> u8 list set \<Rightarrow> hll \<Rightarrow> bool" where
  "is_sketch b S s \<longleftrightarrow> bucket_bits s = b \<and> lz_mask s = mask_of b \<and> registers s = sketch b S \<and> hashes_ok S"

lemma length_sketch [simp]: "length (sketch b S) = 2 ^ b"
  by (simp add: sketch_def)

lemma register_bound:
  assumes "bits_ok b" and "hashes_ok S"
  shows "bucket_max b S i < 256"
  unfolding bucket_max_def using assms rho_of_bounds by (subst Max_less_iff) (auto simp: hashes_ok_def)

lemma of_nat_u8_less: "m < 256 \<Longrightarrow> n < 256 \<Longrightarrow> (of_nat m :: u8) < of_nat n \<longleftrightarrow> m < n"
  by (simp add: word_less_nat_alt unsigned_of_nat take_bit_nat_eq_self)

lemma sketch_empty: "sketch b {} = replicate (2 ^ b) 0"
  by (simp add: sketch_def bucket_max_def map_replicate_trivial)

lemma hll_new_sketch: "bits_ok b \<Longrightarrow> \<exists>s. hll_new b = Inr s \<and> is_sketch b {} s"
  by (simp add: hll_new_def bits_ok_def min_bucket_bits_def max_bucket_bits_def is_sketch_def mask_of_def
      sketch_empty hashes_ok_def)

lemma bucket_max_insert:
  assumes "finite S"
  shows "bucket_max b (insert h S) i =
     (if bucket_index h b = i then max (rho_of b h) (bucket_max b S i) else bucket_max b S i)"
proof -
  have "{g \<in> insert h S. bucket_index g b = i} =
      (if bucket_index h b = i then insert h {g \<in> S. bucket_index g b = i} else {g \<in> S. bucket_index g b = i})" by auto
  then have "insert 0 (rho_of b ` {g \<in> insert h S. bucket_index g b = i}) =
      (if bucket_index h b = i then insert (rho_of b h) (insert 0 (rho_of b ` {g \<in> S. bucket_index g b = i}))
       else insert 0 (rho_of b ` {g \<in> S. bucket_index g b = i}))"
    by (simp add: insert_commute)
  then show ?thesis using assms by (simp only: bucket_max_def) (auto simp: Max_insert)
qed

lemma bucket_max_union:
  assumes "finite A" and "finite B"
  shows "bucket_max b (A \<union> B) i = max (bucket_max b A i) (bucket_max b B i)"
proof -
  have "insert 0 (rho_of b ` {g \<in> A \<union> B. bucket_index g b = i}) =
      insert 0 (rho_of b ` {g \<in> A. bucket_index g b = i}) \<union> insert 0 (rho_of b ` {g \<in> B. bucket_index g b = i})" by auto
  then show ?thesis using assms by (simp only: bucket_max_def) (subst Max_Un; auto)
qed

lemma hll_insert_sketch:
  assumes "bits_ok b" and "is_sketch b S s" and "length h \<le> 32"
  shows "\<exists>s'. hll_insert s h = Inr s' \<and> is_sketch b (insert h S) s'"
proof -
  let ?i = "bucket_index h b"
  have s: "bucket_bits s = b" "lz_mask s = mask_of b" "registers s = sketch b S" "hashes_ok S"
    using assms(2) by (auto simp: is_sketch_def)
  have ok: "hashes_ok (insert h S)" using s(4) assms(3) by (simp add: hashes_ok_def)
  have r: "rho s h = Inr (rho_of b h)" using count_leading_zeros_ok[OF assms(1,3)] s by (auto simp: rho_def rho_of_def)
  have i: "?i < 2 ^ b" by (rule bucket_index_less[OF assms(1)])
  have M: "bucket_max b (insert h S) j = (if j = ?i then max (rho_of b h) (bucket_max b S j) else bucket_max b S j)" for j
    using s(4) by (simp add: bucket_max_insert hashes_ok_def)
  have less: "(of_nat (bucket_max b S ?i) :: u8) < of_nat (rho_of b h) \<longleftrightarrow> bucket_max b S ?i < rho_of b h"
    by (rule of_nat_u8_less[OF register_bound[OF assms(1) s(4)] rho_of_bounds[OF assms(1,3)]])
  have "sketch b (insert h S) =
      (if of_nat (rho_of b h) > sketch b S ! ?i then (sketch b S)[?i := of_nat (rho_of b h)] else sketch b S)"
    using i less by (intro nth_equalityI) (auto simp: sketch_def M nth_list_update max_def)
  then show ?thesis using r i s ok by (simp add: hll_insert_def Let_def is_sketch_def)
qed

lemma insert_all_sketch:
  "bits_ok b \<Longrightarrow> is_sketch b S s \<Longrightarrow> \<forall>h \<in> set hs. length h \<le> 32 \<Longrightarrow>
   \<exists>s'. insert_all s hs = Inr s' \<and> is_sketch b (S \<union> set hs) s'"
proof (induction hs arbitrary: S s)
  case (Cons h hs)
  obtain s1 where s1: "hll_insert s h = Inr s1" "is_sketch b (insert h S) s1"
    using hll_insert_sketch[OF Cons.prems(1,2)] Cons.prems(3) by auto
  then show ?case using Cons.IH[OF Cons.prems(1) s1(2)] Cons.prems(3) by auto
qed simp

lemma sketch_union:
  assumes "bits_ok b" and "hashes_ok A" and "hashes_ok B"
  shows "map2 max (sketch b A) (sketch b B) = sketch b (A \<union> B)"
    and "map2 (\<lambda>x y. if y > x then y else x) (sketch b A) (sketch b B) = sketch b (A \<union> B)"
proof -
  have M: "bucket_max b (A \<union> B) i = max (bucket_max b A i) (bucket_max b B i)" for i
    using assms(2,3) by (simp add: bucket_max_union hashes_ok_def)
  have "(of_nat (max m n) :: u8) = max (of_nat m) (of_nat n)" if "m < 256" "n < 256" for m n
    using of_nat_u8_less[OF that] of_nat_u8_less[OF that(2,1)] by (auto simp: max_def not_less le_less)
  note mx = this[OF register_bound[OF assms(1,2)] register_bound[OF assms(1,3)]]
  show 1: "map2 max (sketch b A) (sketch b B) = sketch b (A \<union> B)"
    by (intro nth_equalityI) (auto simp: sketch_def M mx)
  have "(\<lambda>x y :: u8. if y > x then y else x) = max" by (auto simp: max_def fun_eq_iff not_less le_less)
  then show "map2 (\<lambda>x y. if y > x then y else x) (sketch b A) (sketch b B) = sketch b (A \<union> B)" using 1 by simp
qed

lemma hll_merge_sketch:
  assumes "bits_ok b" and "is_sketch b A x" and "is_sketch b B y"
  shows "\<exists>z. hll_merge x y = Inr z \<and> is_sketch b (A \<union> B) z"
  using assms sketch_union(2)[of b A B]
  by (auto simp: hll_merge_def is_sketch_def hashes_ok_def)

section \<open>The tracker refines a window of sets\<close>

text \<open>
  The abstract tracker keeps, per slot, its start, the set of hashes recorded in it and the
  number of requests; its metric is computed from the union of the sets that are still in the
  window.
\<close>

type_synonym abs_slot = "nat \<times> u8 list set \<times> nat"

definition abs_start :: "abs_slot \<Rightarrow> nat" where "abs_start a = fst a"
definition abs_hashes :: "abs_slot \<Rightarrow> u8 list set" where "abs_hashes a = fst (snd a)"
definition abs_count :: "abs_slot \<Rightarrow> nat" where "abs_count a = snd (snd a)"

lemmas abs_defs = abs_start_def abs_hashes_def abs_count_def

definition spec_record :: "nat \<Rightarrow> nat \<Rightarrow> u8 list list \<Rightarrow> nat \<Rightarrow> abs_slot list \<Rightarrow> abs_slot list" where
  "spec_record slot now hs n As =
     (if n = 0 then As
      else let start = (if As = [] then now
                        else abs_start (last As) + slot * (((now - abs_start (last As)) div slot) mod 2 ^ 32));
               As = (if As = [] \<or> now - abs_start (last As) \<ge> slot then As @ [(start, {}, 0)] else As)
           in butlast As @ [(abs_start (last As), abs_hashes (last As) \<union> set hs, abs_count (last As) + n)])"

definition spec_live :: "nat \<Rightarrow> nat \<Rightarrow> abs_slot list \<Rightarrow> abs_slot list" where
  "spec_live window now As = dropWhile (\<lambda>a. now - abs_start a \<ge> window) As"

definition slot_rel :: "nat \<Rightarrow> window_slot \<Rightarrow> abs_slot \<Rightarrow> bool" where
  "slot_rel b s a \<longleftrightarrow> is_sketch b (abs_hashes a) (slot_hll s) \<and> slot_start s = abs_start a \<and> request_count s = abs_count a"

definition hashes_in :: "abs_slot list \<Rightarrow> u8 list set" where
  "hashes_in As = \<Union> (abs_hashes ` set As)"

definition tracker_rel :: "nat \<Rightarrow> nat \<Rightarrow> nat \<Rightarrow> hll_tracker \<Rightarrow> abs_slot list \<Rightarrow> bool" where
  "tracker_rel b slot window t As \<longleftrightarrow>
     list_all2 (slot_rel b) (slots t) As \<and> slot_duration t = slot \<and> window_duration t = window \<and> tracker_bits t = b \<and>
     (\<exists>S. is_sketch b S (merged t)) \<and>
     (\<not> merged_dirty t \<longrightarrow> is_sketch b (hashes_in (butlast As)) (merged t))"

lemma last_rel: "list_all2 P xs ys \<Longrightarrow> xs \<noteq> [] \<Longrightarrow> P (last xs) (last ys)"
  by (metis last_conv_nth length_0_conv list_all2_conv_all_nth diff_less length_greater_0_conv zero_less_one)

lemma butlast_rel: "list_all2 P xs ys \<Longrightarrow> list_all2 P (butlast xs) (butlast ys)"
  by (simp add: butlast_conv_take list_all2_lengthD list_all2_takeI)

lemma need_new_slot_rel:
  "tracker_rel b slot window t As \<Longrightarrow> need_new_slot now t \<longleftrightarrow> As = [] \<or> now - abs_start (last As) \<ge> slot"
  using last_rel[of "slot_rel b" "slots t" As]
  by (cases "slots t = []"; cases "As = []") (auto simp: tracker_rel_def need_new_slot_def slot_rel_def)

lemma push_slot_rel:
  assumes "bits_ok b" and "0 < slot" and "tracker_rel b slot window t As"
  shows "\<exists>t'. push_slot now t = Inr t' \<and> slots t' \<noteq> [] \<and>
    tracker_rel b slot window t' (As @ [(if As = [] then now
      else abs_start (last As) + slot * (((now - abs_start (last As)) div slot) mod 2 ^ 32), {}, 0)])"
proof -
  let ?start = "if As = [] then now
      else abs_start (last As) + slot * (((now - abs_start (last As)) div slot) mod 2 ^ 32)"
  have rel: "list_all2 (slot_rel b) (slots t) As" "slot_duration t = slot" "tracker_bits t = b"
    using assms(3) by (auto simp: tracker_rel_def)
  have start: "aligned_start now t = Inr ?start"
  proof (cases "slots t = []")
    case True
    then show ?thesis using rel(1) by (simp add: aligned_start_def)
  next
    case False
    then have "As \<noteq> []" "slot_start (last (slots t)) = abs_start (last As)"
      using rel(1) last_rel[OF rel(1)] by (auto simp: slot_rel_def)
    then show ?thesis using False assms(2) rel(2) by (simp add: aligned_start_def Let_def)
  qed
  obtain s where s: "hll_new b = Inr s" "is_sketch b {} s" using hll_new_sketch[OF assms(1)] by blast
  have "list_all2 (slot_rel b) (slots t @ [\<lparr>slot_hll = s, slot_start = ?start, request_count = 0\<rparr>]) (As @ [(?start, {}, 0)])"
    using s(2) by (intro list_all2_appendI rel(1)) (simp add: slot_rel_def abs_defs)
  then show ?thesis using assms(3) rel s(1) start
    by (auto simp: push_slot_def tracker_rel_def)
qed

lemma record_last_rel:
  assumes "bits_ok b" and "tracker_rel b slot window t As" and "slots t \<noteq> []" and "\<forall>h \<in> set hs. length h \<le> 32"
  shows "\<exists>s. insert_all (slot_hll (last (slots t))) hs = Inr s \<and>
    tracker_rel b slot window (t\<lparr>slots := butlast (slots t) @
        [(last (slots t))\<lparr>slot_hll := s, request_count := request_count (last (slots t)) + n\<rparr>]\<rparr>)
      (butlast As @ [(abs_start (last As), abs_hashes (last As) \<union> set hs, abs_count (last As) + n)])"
proof -
  have rel: "list_all2 (slot_rel b) (slots t) As" using assms(2) by (simp add: tracker_rel_def)
  have l: "slot_rel b (last (slots t)) (last As)" by (rule last_rel[OF rel assms(3)])
  then obtain s where s: "insert_all (slot_hll (last (slots t))) hs = Inr s" "is_sketch b (abs_hashes (last As) \<union> set hs) s"
    using insert_all_sketch[OF assms(1) _ assms(4)] by (auto simp: slot_rel_def)
  have "list_all2 (slot_rel b)
      (butlast (slots t) @ [(last (slots t))\<lparr>slot_hll := s, request_count := request_count (last (slots t)) + n\<rparr>])
      (butlast As @ [(abs_start (last As), abs_hashes (last As) \<union> set hs, abs_count (last As) + n)])"
    using l s(2) by (intro list_all2_appendI butlast_rel[OF rel]) (simp add: slot_rel_def abs_defs)
  then show ?thesis using assms(2) s(1) by (auto simp: tracker_rel_def)
qed

lemma record_refines:
  assumes "bits_ok b" and "0 < slot" and "tracker_rel b slot window t As" and "\<forall>h \<in> set hs. length h \<le> 32"
  shows "\<exists>t'. record_hashes_with_total now hs n t = Inr t' \<and> tracker_rel b slot window t' (spec_record slot now hs n As)"
proof (cases "n = 0")
  case True
  then show ?thesis using assms(3) by (simp add: record_hashes_with_total_def spec_record_def)
next
  case False
  let ?new = "As = [] \<or> now - abs_start (last As) \<ge> slot"
  let ?start = "if As = [] then now
      else abs_start (last As) + slot * (((now - abs_start (last As)) div slot) mod 2 ^ 32)"
  let ?As = "if ?new then As @ [(?start, {}, 0)] else As"
  have "\<exists>t1. (if need_new_slot now t then push_slot now t else Inr t) = Inr t1 \<and> slots t1 \<noteq> [] \<and>
      tracker_rel b slot window t1 ?As"
  proof (cases ?new)
    case True
    then show ?thesis using push_slot_rel[OF assms(1-3), of now] need_new_slot_rel[OF assms(3), of now]
      unfolding if_P[OF True] by simp
  next
    case False
    moreover have "slots t \<noteq> []" using False assms(3) by (auto simp: tracker_rel_def)
    ultimately show ?thesis using need_new_slot_rel[OF assms(3), of now] assms(3) by simp
  qed
  then obtain t1 where t1: "(if need_new_slot now t then push_slot now t else Inr t) = Inr t1" "slots t1 \<noteq> []"
      "tracker_rel b slot window t1 ?As" by blast
  have spec: "spec_record slot now hs n As =
      butlast ?As @ [(abs_start (last ?As), abs_hashes (last ?As) \<union> set hs, abs_count (last ?As) + n)]"
    using False unfolding spec_record_def Let_def by simp
  show ?thesis using record_last_rel[OF assms(1) t1(3,2) assms(4), of n] t1(1) False
    unfolding spec record_hashes_with_total_def Let_def by auto
qed

lemma expire_loop_eq:
  "expire_loop now window ss dirty = (dropWhile (\<lambda>s. now - slot_start s \<ge> window) ss,
     dirty \<or> dropWhile (\<lambda>s. now - slot_start s \<ge> window) ss \<noteq> ss)"
proof (induction ss arbitrary: dirty)
  case (Cons s ss)
  have "dropWhile P xs \<noteq> y # xs" for P and y :: window_slot and xs
    using length_dropWhile_le[of P xs] by (metis Suc_n_not_le_n length_Cons)
  then show ?case using Cons by auto
qed simp

lemma dropWhile_rel:
  "list_all2 (slot_rel b) ss As \<Longrightarrow>
   list_all2 (slot_rel b) (dropWhile (\<lambda>s. now - slot_start s \<ge> window) ss) (spec_live window now As) \<and>
   (dropWhile (\<lambda>s. now - slot_start s \<ge> window) ss = ss \<longrightarrow> spec_live window now As = As)"
proof (induction rule: list_all2_induct)
  case (Cons s ss a As)
  have "dropWhile P xs \<noteq> y # xs" for P and y :: window_slot and xs
    using length_dropWhile_le[of P xs] by (metis Suc_n_not_le_n length_Cons)
  then show ?case using Cons by (auto simp: spec_live_def slot_rel_def)
qed (simp add: spec_live_def)

lemma expire_rel:
  assumes "tracker_rel b slot window t As"
  shows "tracker_rel b slot window (expire_old_slots now t) (spec_live window now As)"
  using assms dropWhile_rel[of b "slots t" As window now]
  by (auto simp: tracker_rel_def expire_old_slots_def expire_loop_eq)

lemma merge_all_sketch:
  "bits_ok b \<Longrightarrow> is_sketch b S m \<Longrightarrow> list_all2 (slot_rel b) ss As \<Longrightarrow>
   \<exists>m'. merge_all m ss = Inr m' \<and> is_sketch b (S \<union> hashes_in As) m'"
proof (induction ss arbitrary: S m As)
  case (Cons s ss)
  obtain a As' where As: "As = a # As'" "slot_rel b s a" "list_all2 (slot_rel b) ss As'"
    using Cons.prems(3) by (auto simp: list_all2_Cons1)
  obtain m1 where m1: "hll_merge m (slot_hll s) = Inr m1" "is_sketch b (S \<union> abs_hashes a) m1"
    using hll_merge_sketch[OF Cons.prems(1,2)] As(2) by (auto simp: slot_rel_def)
  then show ?case using Cons.IH[OF Cons.prems(1) m1(2) As(3)] As(1) by (auto simp: hashes_in_def Un_assoc)
qed (simp add: hashes_in_def)

lemma ensure_merged_rel:
  assumes "bits_ok b" and "tracker_rel b slot window t As"
  shows "\<exists>t'. ensure_merged t = Inr t' \<and> tracker_rel b slot window t' As \<and> slots t' = slots t \<and>
    is_sketch b (hashes_in (butlast As)) (merged t')"
proof (cases "merged_dirty t")
  case False
  then show ?thesis using assms(2) by (simp add: ensure_merged_def tracker_rel_def)
next
  case True
  have rel: "list_all2 (slot_rel b) (butlast (slots t)) (butlast As)"
    using assms(2) by (intro butlast_rel) (simp add: tracker_rel_def)
  have "is_sketch b {} (hll_clear (merged t))"
    using assms(2) by (auto simp: tracker_rel_def is_sketch_def hll_clear_def sketch_empty hashes_ok_def)
  from merge_all_sketch[OF assms(1) this rel] obtain m where
    "merge_all (hll_clear (merged t)) (take (length (slots t) - 1) (slots t)) = Inr m" "is_sketch b (hashes_in (butlast As)) m"
    by (auto simp: butlast_conv_take)
  then show ?thesis using assms(2) True by (auto simp: ensure_merged_def tracker_rel_def)
qed

lemma metric_refines:
  assumes "bits_ok b" and "tracker_rel b slot window t As" and live_def: "live = spec_live window now As"
  shows "\<exists>t' m. tracker_metric now t = Inr (t', m) \<and> tracker_rel b slot window t' live \<and>
    metric_registers m = (if live = [] then None else Some (sketch b (hashes_in live))) \<and>
    total_requests m = sum_list (map abs_count live) \<and> window_slot_count m = length live"
proof -
  obtain t1 where t1: "ensure_merged (expire_old_slots now t) = Inr t1" "tracker_rel b slot window t1 live"
      "is_sketch b (hashes_in (butlast live)) (merged t1)"
    using ensure_merged_rel[OF assms(1) expire_rel[OF assms(2)]] unfolding live_def by blast
  have rel: "list_all2 (slot_rel b) (slots t1) live" using t1(2) by (simp add: tracker_rel_def)
  have "union_registers (merged t1) (slot_hll (last (slots t1))) = sketch b (hashes_in live)" if ne: "live \<noteq> []"
  proof -
    have "slots t1 \<noteq> []" using rel ne by auto
    then have "is_sketch b (abs_hashes (last live)) (slot_hll (last (slots t1)))"
      using last_rel[OF rel] by (simp add: slot_rel_def)
    moreover have "hashes_in live = hashes_in (butlast live) \<union> abs_hashes (last live)"
      using ne by (metis (no_types) Sup_insert Un_commute append_butlast_last_id hashes_in_def image_insert list.simps(15) rotate1.simps(2) set_rotate1)
    ultimately show ?thesis using t1(3) sketch_union(1)[OF assms(1)] by (auto simp: union_registers_def is_sketch_def)
  qed
  moreover have "sum_list (map request_count (slots t1)) = sum_list (map abs_count live)"
    using rel by (induction rule: list_all2_induct) (auto simp: slot_rel_def)
  moreover have "slots t1 = [] \<longleftrightarrow> live = []" "length (slots t1) = length live"
    using rel by (auto dest: list_all2_lengthD)
  ultimately show ?thesis using t1 by (auto simp: tracker_metric_def)
qed

section \<open>Histories\<close>

datatype tracker_op = TRecord nat "u8 list list" nat | TMetric nat

fun tracker_run :: "tracker_op list \<Rightarrow> hll_tracker \<Rightarrow> hll_panic + hll_tracker" where
  "tracker_run [] t = Inr t"
| "tracker_run (TRecord now hs n # ops) t = bind_res (record_hashes_with_total now hs n t) (tracker_run ops)"
| "tracker_run (TMetric now # ops) t = bind_res (tracker_metric now t) (\<lambda>(t, _). tracker_run ops t)"

fun spec_run :: "nat \<Rightarrow> nat \<Rightarrow> tracker_op list \<Rightarrow> abs_slot list \<Rightarrow> abs_slot list" where
  "spec_run slot window [] As = As"
| "spec_run slot window (TRecord now hs n # ops) As = spec_run slot window ops (spec_record slot now hs n As)"
| "spec_run slot window (TMetric now # ops) As = spec_run slot window ops (spec_live window now As)"

fun op_hashes :: "tracker_op \<Rightarrow> u8 list list" where
  "op_hashes (TRecord now hs n) = hs"
| "op_hashes (TMetric now) = []"

lemma tracker_run_refines:
  "bits_ok b \<Longrightarrow> 0 < slot \<Longrightarrow> tracker_rel b slot window t As \<Longrightarrow> \<forall>op \<in> set ops. \<forall>h \<in> set (op_hashes op). length h \<le> 32 \<Longrightarrow>
   \<exists>t'. tracker_run ops t = Inr t' \<and> tracker_rel b slot window t' (spec_run slot window ops As)"
proof (induction ops arbitrary: t As)
  case (Cons op ops)
  show ?case
  proof (cases op)
    case (TRecord now hs n)
    then obtain t1 where "record_hashes_with_total now hs n t = Inr t1" "tracker_rel b slot window t1 (spec_record slot now hs n As)"
      using record_refines[OF Cons.prems(1-3), of hs now n] Cons.prems(4) by auto
    then show ?thesis using Cons.IH[OF Cons.prems(1,2)] Cons.prems(4) TRecord by auto
  next
    case (TMetric now)
    then obtain t1 m where "tracker_metric now t = Inr (t1, m)" "tracker_rel b slot window t1 (spec_live window now As)"
      using metric_refines[OF Cons.prems(1,3) refl] by blast
    then show ?thesis using Cons.IH[OF Cons.prems(1,2)] Cons.prems(4) TMetric by auto
  qed
qed simp

text \<open>
  C16. The sliding-window tracker, with its cached merge of the finished slots and its dirty
  flag, refines a window of sets: after any history of recordings and snapshots it has not
  panicked, and the next snapshot is computed from exactly the sketch of the union of all
  hashes recorded in the slots still in the window, with their exact number of requests.
\<close>

theorem hll_tracker_refines:
  assumes "4 \<le> b" and "b \<le> 18" and "0 < slot"
    and "\<forall>op \<in> set ops. \<forall>h \<in> set (op_hashes op). length h \<le> 32"
  shows "\<exists>t0 t t' m. tracker_new slot window b = Inr t0 \<and> tracker_run ops t0 = Inr t \<and>
    tracker_metric now t = Inr (t', m) \<and>
    metric_registers m = (let live = spec_live window now (spec_run slot window ops [])
      in if live = [] then None else Some (sketch b (hashes_in live))) \<and>
    total_requests m = sum_list (map abs_count (spec_live window now (spec_run slot window ops [])))"
proof -
  have b: "bits_ok b" using assms(1,2) by (simp add: bits_ok_def)
  obtain s where s: "hll_new b = Inr s" "is_sketch b {} s" using hll_new_sketch[OF b] by blast
  then have "tracker_rel b slot window \<lparr>slots = [], merged = s, merged_dirty = False, slot_duration = slot,
      window_duration = window, tracker_bits = b\<rparr> []"
    by (auto simp: tracker_rel_def hashes_in_def)
  from tracker_run_refines[OF b assms(3) this assms(4)] obtain t where
    "tracker_run ops \<lparr>slots = [], merged = s, merged_dirty = False, slot_duration = slot,
      window_duration = window, tracker_bits = b\<rparr> = Inr t" "tracker_rel b slot window t (spec_run slot window ops [])" by blast
  then show ?thesis using metric_refines[OF b _ refl, of slot window t _ now] s unfolding Let_def
    by (fastforce simp: tracker_new_def)
qed

section \<open>Witness\<close>

theorem hll_tracker_refines_witness:
  "\<exists>t0 t t' m. tracker_new 10 100 4 = Inr t0 \<and> tracker_run [TRecord 0 [[1, 2, 3, 4, 5]] 1, TRecord 25 [] 3] t0 = Inr t \<and>
     tracker_metric 40 t = Inr (t', m) \<and> total_requests m = 4"
proof -
  have "4 \<le> (4 :: nat)" "(4 :: nat) \<le> 18" "0 < (10 :: nat)"
    "\<forall>op \<in> set [TRecord 0 [[1, 2, 3, 4, 5]] 1, TRecord 25 [] 3]. \<forall>h \<in> set (op_hashes op). length h \<le> 32" by simp_all
  from hll_tracker_refines[OF this, of 100 40] show ?thesis
    by (simp add: spec_live_def spec_record_def abs_defs) blast
qed

end
