(* ===== verification/Meta_Store.thy ===== *)
theory Meta_Store
  imports Block_Model "HOL-Library.List_Lexorder" "HOL-Library.Char_ord"
begin

text \<open>
  The block-hash store of the MetaServer (\<open>pegaflow-metaserver/src/store.rs\<close>): which node
  owns which block, which session of a node is current, and the redundancy counters the
  metrics read. The two \<open>DashMap\<close>s are arguments \<open>B\<close> (block key to owners) and \<open>N\<close> (node
  URL to session) with the laws of \<open>map_laws\<close>; the inner \<open>HashMap\<close> of owners is an
  association list, whose order no statement depends on. An \<open>Instant\<close> is a natural number
  and \<open>duration_since\<close> is its truncated subtraction; every operation takes the times it reads
  as arguments. Operations return the new store with their result, errors included, and the
  loop bodies that run under one shard guard (\<open>insert_hash\<close>, \<open>remove_hash\<close>, \<open>visit_block\<close>)
  are definitions of their own, so that runs of several clients can be interleaved at the
  granularity of the code's guards.
\<close>

section \<open>State\<close>

type_synonym node_url = string
type_synonym uuid = "128 word"
type_synonym instant = nat
type_synonym duration = nat

record prefix_entry =
  pe_hash :: block_hash
  pe_nodes :: "node_url list"

record store_config =
  node_stale_after :: duration
  store_ttl :: duration
  min_reclaimable_owner_count :: nat

definition default_store_config :: "duration \<Rightarrow> store_config" where
  "default_store_config sec =
     \<lparr>node_stale_after = 30 * sec, store_ttl = 120 * 60 * sec, min_reclaimable_owner_count = 3\<rparr>"

record sweep_stats =
  removed_owners :: nat
  removed_keys :: nat
  removed_nodes :: nat

definition sweep_stats_empty :: "sweep_stats \<Rightarrow> bool" where
  "sweep_stats_empty st \<longleftrightarrow> removed_owners st = 0 \<and> removed_keys st = 0 \<and> removed_nodes st = 0"

datatype store_error = UnknownNode | StaleSession

record owner_record =
  owner_session :: uuid
  key_register_time :: instant

record node_record =
  node_session :: uuid
  last_seen :: instant
  idle_since :: "instant option"

type_synonym owners = "(node_url \<times> owner_record) list"

record node_roles =
  sources :: "node_url list"
  targets :: "node_url list"

text \<open>The counters are 64-bit atomics that wrap; the counts they are adjusted by are table sizes.\<close>

record redundancy_counters =
  keys_1 :: u64
  keys_2 :: u64
  keys_3 :: u64
  keys_4plus :: u64
  copies :: u64

definition bump :: "int \<Rightarrow> u64 \<Rightarrow> u64" where
  "bump delta c = (if delta > 0 then c + of_int delta else c - of_int (- delta))"

definition adjust_bucket :: "redundancy_counters \<Rightarrow> nat \<Rightarrow> int \<Rightarrow> redundancy_counters" where
  "adjust_bucket r n delta =
     (if n = 1 then r\<lparr>keys_1 := bump delta (keys_1 r)\<rparr>
      else if n = 2 then r\<lparr>keys_2 := bump delta (keys_2 r)\<rparr>
      else if n = 3 then r\<lparr>keys_3 := bump delta (keys_3 r)\<rparr>
      else if n \<ge> 4 then r\<lparr>keys_4plus := bump delta (keys_4plus r)\<rparr>
      else r)"

definition adjust :: "redundancy_counters \<Rightarrow> nat \<Rightarrow> nat \<Rightarrow> redundancy_counters" where
  "adjust r before after =
     (if before = after then r
      else let r = adjust_bucket (adjust_bucket r before (- 1)) after 1
           in if after > before then r\<lparr>copies := copies r + of_nat (after - before)\<rparr>
              else r\<lparr>copies := copies r - of_nat (before - after)\<rparr>)"

record ('b, 'n) hash_store =
  blocks :: 'b
  nodes :: 'n
  store_cfg :: store_config
  reconcile_needed :: bool
  redundancy :: redundancy_counters

type_synonym 'b block_ops = "('b, block_key, owners) map_ops"
type_synonym 'n node_ops = "('n, node_url, node_record) map_ops"

definition with_config :: "'b block_ops \<Rightarrow> 'n node_ops \<Rightarrow> store_config \<Rightarrow> ('b, 'n) hash_store" where
  "with_config B N cfg = \<lparr>blocks = m_empty B, nodes = m_empty N, store_cfg = cfg, reconcile_needed = False,
     redundancy = \<lparr>keys_1 = 0, keys_2 = 0, keys_3 = 0, keys_4plus = 0, copies = 0\<rparr>\<rparr>"

definition with_ttl :: "'b block_ops \<Rightarrow> 'n node_ops \<Rightarrow> duration \<Rightarrow> nat \<Rightarrow> ('b, 'n) hash_store" where
  "with_ttl B N sec ttl_minutes =
     with_config B N ((default_store_config sec)\<lparr>store_ttl := ttl_minutes * 60 * sec\<rparr>)"

section \<open>Node sessions\<close>

definition heartbeat_node ::
  "'n node_ops \<Rightarrow> instant \<Rightarrow> node_url \<Rightarrow> uuid \<Rightarrow> ('b, 'n) hash_store \<Rightarrow>
   ('b, 'n) hash_store \<times> (store_error + unit)" where
  "heartbeat_node N now node sid s =
     (case m_get N (nodes s) node of
        None \<Rightarrow> (s\<lparr>nodes := m_put N (nodes s) node
                    \<lparr>node_session = sid, last_seen = now, idle_since = Some now\<rparr>\<rparr>, Inr ())
      | Some r \<Rightarrow>
          let same = (node_session r = sid);
              stale = (now - last_seen r > node_stale_after (store_cfg s))
          in if same \<or> stale then
               let s = (if stale \<and> \<not> same then s\<lparr>reconcile_needed := True\<rparr> else s);
                   r = (if \<not> same then r\<lparr>idle_since := Some now\<rparr> else r);
                   r = r\<lparr>node_session := sid, last_seen := now\<rparr>
               in (s\<lparr>nodes := m_put N (nodes s) node r\<rparr>, Inr ())
             else (s, Inl StaleSession))"

definition set_node_has_instance ::
  "'n node_ops \<Rightarrow> instant \<Rightarrow> node_url \<Rightarrow> uuid \<Rightarrow> bool \<Rightarrow> ('b, 'n) hash_store \<Rightarrow> ('b, 'n) hash_store" where
  "set_node_has_instance N now node sid has s =
     (case m_get N (nodes s) node of
        None \<Rightarrow> s
      | Some r \<Rightarrow>
          if node_session r \<noteq> sid then s
          else if has then s\<lparr>nodes := m_put N (nodes s) node (r\<lparr>idle_since := None\<rparr>)\<rparr>
          else if idle_since r = None then s\<lparr>nodes := m_put N (nodes s) node (r\<lparr>idle_since := Some now\<rparr>)\<rparr>
          else s)"

definition touch_node_session ::
  "'n node_ops \<Rightarrow> instant \<Rightarrow> node_url \<Rightarrow> uuid \<Rightarrow> ('b, 'n) hash_store \<Rightarrow>
   ('b, 'n) hash_store \<times> (store_error + unit)" where
  "touch_node_session N now node sid s =
     (case m_get N (nodes s) node of
        None \<Rightarrow> (s, Inl UnknownNode)
      | Some r \<Rightarrow>
          if node_session r \<noteq> sid then (s, Inl StaleSession)
          else (s\<lparr>nodes := m_put N (nodes s) node (r\<lparr>last_seen := now\<rparr>)\<rparr>, Inr ()))"

definition is_owner_visible ::
  "'n node_ops \<Rightarrow> ('b, 'n) hash_store \<Rightarrow> instant \<Rightarrow> node_url \<Rightarrow> owner_record \<Rightarrow> bool" where
  "is_owner_visible N s now node ow =
     (case m_get N (nodes s) node of
        None \<Rightarrow> False
      | Some r \<Rightarrow> node_session r = owner_session ow \<and> now - last_seen r \<le> node_stale_after (store_cfg s))"

fun role_step ::
  "store_config \<Rightarrow> duration \<Rightarrow> instant \<Rightarrow> node_url \<times> node_record \<Rightarrow> node_roles \<Rightarrow> node_roles" where
  "role_step cfg target_delay now (node, r) roles =
     (if now - last_seen r > node_stale_after cfg then roles
      else case idle_since r of
             None \<Rightarrow> roles\<lparr>sources := sources roles @ [node]\<rparr>
           | Some since \<Rightarrow>
               if now - since \<ge> target_delay then roles\<lparr>targets := targets roles @ [node]\<rparr> else roles)"

definition node_roles_of ::
  "'n node_ops \<Rightarrow> duration \<Rightarrow> instant \<Rightarrow> ('b, 'n) hash_store \<Rightarrow> node_roles" where
  "node_roles_of N target_delay now s =
     (let roles = fold (role_step (store_cfg s) target_delay now) (m_items N (nodes s)) \<lparr>sources = [], targets = []\<rparr>
      in \<lparr>sources = sort (sources roles), targets = sort (targets roles)\<rparr>)"

text \<open>\<open>binary_search_by\<close> on a slice, reduced to whether it finds the element.\<close>

function binary_search :: "'a::linorder list \<Rightarrow> 'a \<Rightarrow> nat \<Rightarrow> nat \<Rightarrow> bool" where
  "binary_search xs x lo hi =
     (if hi \<le> lo then False
      else let mid = lo + (hi - lo) div 2
           in if xs ! mid = x then True
              else if xs ! mid < x then binary_search xs x (mid + 1) hi
              else binary_search xs x lo mid)"
  by pat_completeness auto

termination
  by (relation "measure (\<lambda>(xs, x, lo, hi). hi - lo)") auto

definition is_target :: "node_roles \<Rightarrow> node_url \<Rightarrow> bool" where
  "is_target roles node = binary_search (targets roles) node 0 (length (targets roles))"

definition node_counts :: "'n node_ops \<Rightarrow> instant \<Rightarrow> ('b, 'n) hash_store \<Rightarrow> nat \<times> nat" where
  "node_counts N now s =
     (let fresh = (\<lambda>(_, r). now - last_seen r \<le> node_stale_after (store_cfg s))
      in (length (filter fresh (m_items N (nodes s))), length (filter (Not \<circ> fresh) (m_items N (nodes s)))))"

section \<open>Ownership\<close>

definition insert_hash ::
  "'b block_ops \<Rightarrow> 'n node_ops \<Rightarrow> instant \<Rightarrow> string \<Rightarrow> node_url \<Rightarrow> uuid \<Rightarrow> ('b, 'n) hash_store \<Rightarrow> block_hash \<Rightarrow>
   store_error + ('b, 'n) hash_store \<times> bool" where
  "insert_hash B N now ns node sid s h =
     (let k = \<lparr>namespace = ns, hash = h\<rparr> in
      case m_get N (nodes s) node of
        None \<Rightarrow> Inl UnknownNode
      | Some r \<Rightarrow>
          if node_session r \<noteq> sid then Inl StaleSession
          else
            let os = (case m_get B (blocks s) k of None \<Rightarrow> [] | Some os \<Rightarrow> os);
                os' = AList.update node \<lparr>owner_session = sid, key_register_time = now\<rparr> os;
                s' = s\<lparr>blocks := m_put B (blocks s) k os',
                       redundancy := adjust (redundancy s) (length os) (length os')\<rparr>;
                is_new_owner = (case map_of os node of None \<Rightarrow> True | Some ow \<Rightarrow> owner_session ow \<noteq> sid);
                min_count = min_reclaimable_owner_count (store_cfg s)
            in Inr (s', is_new_owner \<and> min_count \<le> length os' \<and>
                 length (take min_count (filter (\<lambda>(n, ow). is_owner_visible N s' now n ow) os')) = min_count))"

fun insert_loop ::
  "'b block_ops \<Rightarrow> 'n node_ops \<Rightarrow> instant \<Rightarrow> string \<Rightarrow> node_url \<Rightarrow> uuid \<Rightarrow> ('b, 'n) hash_store \<Rightarrow> block_hash list \<Rightarrow>
   block_hash list \<Rightarrow> ('b, 'n) hash_store \<times> (store_error + block_hash list)" where
  "insert_loop B N now ns node sid s [] reclaimable = (s, Inr reclaimable)"
| "insert_loop B N now ns node sid s (h # hs) reclaimable =
     (case insert_hash B N now ns node sid s h of
        Inl e \<Rightarrow> (s, Inl e)
      | Inr (s', hint) \<Rightarrow> insert_loop B N now ns node sid s' hs (if hint then reclaimable @ [h] else reclaimable))"

definition insert_hashes ::
  "'b block_ops \<Rightarrow> 'n node_ops \<Rightarrow> instant \<Rightarrow> instant \<Rightarrow> string \<Rightarrow> block_hash list \<Rightarrow> node_url \<Rightarrow> uuid \<Rightarrow>
   ('b, 'n) hash_store \<Rightarrow> ('b, 'n) hash_store \<times> (store_error + block_hash list)" where
  "insert_hashes B N touched now ns hs node sid s =
     (case touch_node_session N touched node sid s of
        (s, Inl e) \<Rightarrow> (s, Inl e)
      | (s, Inr _) \<Rightarrow> insert_loop B N now ns node sid s hs [])"

definition remove_hash ::
  "'b block_ops \<Rightarrow> string \<Rightarrow> node_url \<Rightarrow> uuid \<Rightarrow> ('b, 'n) hash_store \<Rightarrow> block_hash \<Rightarrow> ('b, 'n) hash_store \<times> nat" where
  "remove_hash B ns node sid s h =
     (let k = \<lparr>namespace = ns, hash = h\<rparr> in
      case m_get B (blocks s) k of
        None \<Rightarrow> (s, 0)
      | Some os \<Rightarrow>
          let owned = (case map_of os node of None \<Rightarrow> False | Some ow \<Rightarrow> owner_session ow = sid);
              os' = (if owned then AList.delete node os else os)
          in (s\<lparr>blocks := (if os' = [] then m_del B (blocks s) k else m_put B (blocks s) k os'),
                redundancy := adjust (redundancy s) (length os) (length os')\<rparr>,
              if owned then 1 else 0))"

fun remove_loop ::
  "'b block_ops \<Rightarrow> string \<Rightarrow> node_url \<Rightarrow> uuid \<Rightarrow> ('b, 'n) hash_store \<Rightarrow> block_hash list \<Rightarrow> nat \<Rightarrow>
   ('b, 'n) hash_store \<times> nat" where
  "remove_loop B ns node sid s [] removed = (s, removed)"
| "remove_loop B ns node sid s (h # hs) removed =
     (case remove_hash B ns node sid s h of (s', n) \<Rightarrow> remove_loop B ns node sid s' hs (removed + n))"

definition remove_hashes ::
  "'b block_ops \<Rightarrow> 'n node_ops \<Rightarrow> instant \<Rightarrow> string \<Rightarrow> block_hash list \<Rightarrow> node_url \<Rightarrow> uuid \<Rightarrow>
   ('b, 'n) hash_store \<Rightarrow> ('b, 'n) hash_store \<times> (store_error + nat)" where
  "remove_hashes B N touched ns hs node sid s =
     (case touch_node_session N touched node sid s of
        (s, Inl e) \<Rightarrow> (s, Inl e)
      | (s, Inr _) \<Rightarrow> (case remove_loop B ns node sid s hs 0 of (s', n) \<Rightarrow> (s', Inr n)))"

definition visible_nodes :: "'n node_ops \<Rightarrow> instant \<Rightarrow> ('b, 'n) hash_store \<Rightarrow> owners \<Rightarrow> node_url list" where
  "visible_nodes N now s os = map fst (filter (\<lambda>(n, ow). is_owner_visible N s now n ow) os)"

definition for_each_visible_owner ::
  "'b block_ops \<Rightarrow> 'n node_ops \<Rightarrow> instant \<Rightarrow> block_key \<Rightarrow> ('b, 'n) hash_store \<Rightarrow> node_url list" where
  "for_each_visible_owner B N now k s =
     (case m_get B (blocks s) k of None \<Rightarrow> [] | Some os \<Rightarrow> visible_nodes N now s os)"

fun query_prefix ::
  "'b block_ops \<Rightarrow> 'n node_ops \<Rightarrow> instant \<Rightarrow> string \<Rightarrow> block_hash list \<Rightarrow> ('b, 'n) hash_store \<Rightarrow> prefix_entry list" where
  "query_prefix B N now ns [] s = []"
| "query_prefix B N now ns (h # hs) s =
     (case m_get B (blocks s) \<lparr>namespace = ns, hash = h\<rparr> of
        None \<Rightarrow> []
      | Some os \<Rightarrow>
          let live = visible_nodes N now s os
          in if live = [] then [] else \<lparr>pe_hash = h, pe_nodes = live\<rparr> # query_prefix B N now ns hs s)"

section \<open>Scans\<close>

type_synonym keep_owner = "node_url \<Rightarrow> owner_record \<Rightarrow> bool"

definition kept :: "keep_owner \<Rightarrow> owners \<Rightarrow> owners" where
  "kept keep os = filter (\<lambda>(n, ow). keep n ow) os"

definition retain_owners ::
  "'b block_ops \<Rightarrow> keep_owner \<Rightarrow> ('b, 'n) hash_store \<Rightarrow> ('b, 'n) hash_store \<times> sweep_stats" where
  "retain_owners B keep s =
     (let items = m_items B (blocks s)
      in (s\<lparr>blocks := m_retain B (blocks s) (\<lambda>_ os. if kept keep os = [] then None else Some (kept keep os)),
            redundancy := fold (\<lambda>(_, os) r. adjust r (length os) (length (kept keep os))) items (redundancy s)\<rparr>,
          \<lparr>removed_owners = sum_list (map (\<lambda>(_, os). length os - length (kept keep os)) items),
           removed_keys = length (filter (\<lambda>(_, os). kept keep os = []) items),
           removed_nodes = 0\<rparr>))"

text \<open>The closure of \<open>retain_owners\<close> on one block, as it runs under the guard of that block's shard.\<close>

definition visit_block :: "'b block_ops \<Rightarrow> keep_owner \<Rightarrow> block_key \<Rightarrow> ('b, 'n) hash_store \<Rightarrow> ('b, 'n) hash_store" where
  "visit_block B keep k s =
     (case m_get B (blocks s) k of
        None \<Rightarrow> s
      | Some os \<Rightarrow>
          s\<lparr>blocks := (if kept keep os = [] then m_del B (blocks s) k else m_put B (blocks s) k (kept keep os)),
            redundancy := adjust (redundancy s) (length os) (length (kept keep os))\<rparr>)"

definition session_matches :: "'n node_ops \<Rightarrow> ('b, 'n) hash_store \<Rightarrow> keep_owner" where
  "session_matches N s node ow =
     (case m_get N (nodes s) node of None \<Rightarrow> False | Some r \<Rightarrow> node_session r = owner_session ow)"

definition remove_node_entry ::
  "'n node_ops \<Rightarrow> node_url \<Rightarrow> uuid \<Rightarrow> ('b, 'n) hash_store \<Rightarrow> ('b, 'n) hash_store \<times> (store_error + unit)" where
  "remove_node_entry N node sid s =
     (case m_get N (nodes s) node of
        None \<Rightarrow> (s, Inl UnknownNode)
      | Some r \<Rightarrow>
          if node_session r \<noteq> sid then (s, Inl StaleSession)
          else (s\<lparr>nodes := m_del N (nodes s) node\<rparr>, Inr ()))"

definition unregister_keep :: "'n node_ops \<Rightarrow> node_url \<Rightarrow> ('b, 'n) hash_store \<Rightarrow> keep_owner" where
  "unregister_keep N node s owner_node ow = (owner_node \<noteq> node \<or> session_matches N s node ow)"

definition unregister_node ::
  "'b block_ops \<Rightarrow> 'n node_ops \<Rightarrow> node_url \<Rightarrow> uuid \<Rightarrow> ('b, 'n) hash_store \<Rightarrow>
   ('b, 'n) hash_store \<times> (store_error + nat)" where
  "unregister_node B N node sid s =
     (case remove_node_entry N node sid s of
        (s, Inl e) \<Rightarrow> (s, Inl e)
      | (s, Inr _) \<Rightarrow>
          (case retain_owners B (unregister_keep N node s) s of (s', st) \<Rightarrow> (s', Inr (removed_owners st))))"

definition ttl_keep :: "store_config \<Rightarrow> instant \<Rightarrow> node_url \<Rightarrow> node_record \<Rightarrow> node_record option" where
  "ttl_keep cfg now _ r = (if now - last_seen r \<le> store_ttl cfg then Some r else None)"

definition sweep_expired ::
  "'b block_ops \<Rightarrow> 'n node_ops \<Rightarrow> instant \<Rightarrow> ('b, 'n) hash_store \<Rightarrow> ('b, 'n) hash_store \<times> sweep_stats" where
  "sweep_expired B N now s =
     (let reconcile = reconcile_needed s;
          keep = ttl_keep (store_cfg s) now;
          gone = length (filter (\<lambda>(n, r). keep n r = None) (m_items N (nodes s)));
          s = s\<lparr>reconcile_needed := False, nodes := m_retain N (nodes s) keep\<rparr>
      in if gone = 0 \<and> \<not> reconcile then (s, \<lparr>removed_owners = 0, removed_keys = 0, removed_nodes = 0\<rparr>)
         else case retain_owners B (session_matches N s) s of (s', st) \<Rightarrow> (s', st\<lparr>removed_nodes := gone\<rparr>))"

definition remove_owners_older_than ::
  "'b block_ops \<Rightarrow> instant \<Rightarrow> duration \<Rightarrow> ('b, 'n) hash_store \<Rightarrow> ('b, 'n) hash_store \<times> sweep_stats" where
  "remove_owners_older_than B now max_age s =
     retain_owners B (\<lambda>_ ow. now - key_register_time ow \<le> max_age) s"

definition invalidate_all ::
  "'b block_ops \<Rightarrow> 'n node_ops \<Rightarrow> ('b, 'n) hash_store \<Rightarrow> ('b, 'n) hash_store" where
  "invalidate_all B N s = fst (retain_owners B (\<lambda>_ _. False) (s\<lparr>nodes := m_empty N\<rparr>))"

definition entry_count :: "('b, 'n) hash_store \<Rightarrow> u64" where
  "entry_count s = keys_1 (redundancy s) + keys_2 (redundancy s) + keys_3 (redundancy s) + keys_4plus (redundancy s)"

definition owner_count :: "('b, 'n) hash_store \<Rightarrow> u64" where
  "owner_count s = copies (redundancy s)"

section \<open>The counters\<close>

text \<open>Each counter with the weight one key of \<open>n\<close> owners has in it.\<close>

definition counter_fields :: "((redundancy_counters \<Rightarrow> u64) \<times> (nat \<Rightarrow> u64)) list" where
  "counter_fields =
     [(keys_1, \<lambda>n. of_bool (n = 1)), (keys_2, \<lambda>n. of_bool (n = 2)), (keys_3, \<lambda>n. of_bool (n = 3)),
      (keys_4plus, \<lambda>n. of_bool (4 \<le> n)), (copies, of_nat)]"

definition accounted :: "'b block_ops \<Rightarrow> ('b, 'n) hash_store \<Rightarrow> bool" where
  "accounted B s \<longleftrightarrow> (\<forall>(field, w) \<in> set counter_fields.
     field (redundancy s) = map_total (w \<circ> length) (m_get B (blocks s)))"

definition blocks_wf :: "'b block_ops \<Rightarrow> ('b, 'n) hash_store \<Rightarrow> bool" where
  "blocks_wf B s \<longleftrightarrow> (\<forall>k os. m_get B (blocks s) k = Some os \<longrightarrow> os \<noteq> [] \<and> distinct (map fst os))"

lemma counter_weight_zero: "(field, w) \<in> set counter_fields \<Longrightarrow> w 0 = 0"
  by (auto simp: counter_fields_def)

lemma adjust_field:
  "(field, w) \<in> set counter_fields \<Longrightarrow> field (adjust r a b) = field r - w a + w b"
  by (auto simp: counter_fields_def adjust_def adjust_bucket_def bump_def Let_def of_nat_diff algebra_simps)

lemma adjust_fold_field:
  assumes "(field, w) \<in> set counter_fields"
  shows "field (fold (\<lambda>(_, os) r. adjust r (length os) (length (kept keep os))) items r) =
     field r - sum_list (map (w \<circ> length \<circ> snd) items) + sum_list (map (w \<circ> length \<circ> kept keep \<circ> snd) items)"
  by (induction items arbitrary: r) (auto simp: adjust_field[OF assms] algebra_simps)

definition owners_at :: "'b block_ops \<Rightarrow> ('b, 'n) hash_store \<Rightarrow> block_key \<Rightarrow> owners" where
  "owners_at B s k = (case m_get B (blocks s) k of None \<Rightarrow> [] | Some os \<Rightarrow> os)"

text \<open>Every change of one block stores \<open>os\<close>, or nothing when \<open>os\<close> is empty, and adjusts by the two sizes.\<close>

definition set_owners :: "'b block_ops \<Rightarrow> block_key \<Rightarrow> owners \<Rightarrow> ('b, 'n) hash_store \<Rightarrow> ('b, 'n) hash_store" where
  "set_owners B k os s =
     s\<lparr>blocks := (if os = [] then m_del B (blocks s) k else m_put B (blocks s) k os),
       redundancy := adjust (redundancy s) (length (owners_at B s k)) (length os)\<rparr>"

lemma set_owners_get:
  "map_laws B \<Longrightarrow> m_get B (blocks (set_owners B k os s)) =
     (m_get B (blocks s))(k := (if os = [] then None else Some os))"
  by (simp add: set_owners_def map_lawsD)

lemma set_owners_rest [simp]:
  "nodes (set_owners B k os s) = nodes s" "store_cfg (set_owners B k os s) = store_cfg s"
  "reconcile_needed (set_owners B k os s) = reconcile_needed s"
  by (simp_all add: set_owners_def)

lemma owners_at_set_owners:
  "map_laws B \<Longrightarrow> owners_at B (set_owners B k os s) j = (if j = k then os else owners_at B s j)"
  by (simp add: owners_at_def set_owners_get)

lemma set_owners_accounted:
  assumes "map_laws B" and "accounted B s"
  shows "accounted B (set_owners B k os s)"
proof -
  have "field (redundancy (set_owners B k os s)) =
      map_total (w \<circ> length) (m_get B (blocks (set_owners B k os s)))"
    if mem: "(field, w) \<in> set counter_fields" for field w
  proof -
    let ?m = "m_get B (blocks s)"
    have old: "field (redundancy s) = map_total (w \<circ> length) ?m" using assms(2) mem by (auto simp: accounted_def)
    have at: "at_key (w \<circ> length) (?m k) = w (length (owners_at B s k))"
      using counter_weight_zero[OF mem] by (simp add: owners_at_def split: option.split)
    show ?thesis
      using map_total_put[OF map_laws_finite[OF assms(1)], of "w \<circ> length" "blocks s" k os]
        map_total_del[OF map_laws_finite[OF assms(1)], of "w \<circ> length" "blocks s" k]
        counter_weight_zero[OF mem] set_owners_get[OF assms(1), of k os s]
      by (simp add: set_owners_def adjust_field[OF mem] old at)
  qed
  then show ?thesis by (auto simp: accounted_def)
qed

lemma set_owners_blocks_wf:
  assumes "map_laws B" and "blocks_wf B s" and "distinct (map fst os)"
  shows "blocks_wf B (set_owners B k os s)"
  using assms by (auto simp: blocks_wf_def set_owners_get split: if_splits)

text \<open>The operations as changes of one block.\<close>

lemma insert_hash_Inr:
  assumes "insert_hash B N now ns node sid s h = Inr (s', hint)"
  shows "\<exists>r. m_get N (nodes s) node = Some r \<and> node_session r = sid"
    and "s' = set_owners B \<lparr>namespace = ns, hash = h\<rparr>
           (AList.update node \<lparr>owner_session = sid, key_register_time = now\<rparr>
              (owners_at B s \<lparr>namespace = ns, hash = h\<rparr>)) s"
proof -
  have ne: "AList.update node v os \<noteq> []" for v and os :: owners by (cases os) auto
  show "\<exists>r. m_get N (nodes s) node = Some r \<and> node_session r = sid"
    using assms by (auto simp: insert_hash_def Let_def split: option.splits if_splits)
  show "s' = set_owners B \<lparr>namespace = ns, hash = h\<rparr>
           (AList.update node \<lparr>owner_session = sid, key_register_time = now\<rparr>
              (owners_at B s \<lparr>namespace = ns, hash = h\<rparr>)) s"
    using assms
    by (auto simp: insert_hash_def set_owners_def owners_at_def Let_def ne split: option.splits if_splits)
qed

lemma remove_hash_eq:
  "fst (remove_hash B ns node sid s h) = s \<or>
   fst (remove_hash B ns node sid s h) = set_owners B \<lparr>namespace = ns, hash = h\<rparr>
     (owners_at B s \<lparr>namespace = ns, hash = h\<rparr>) s \<or>
   fst (remove_hash B ns node sid s h) = set_owners B \<lparr>namespace = ns, hash = h\<rparr>
     (AList.delete node (owners_at B s \<lparr>namespace = ns, hash = h\<rparr>)) s"
  by (auto simp: remove_hash_def set_owners_def owners_at_def Let_def split: option.splits)

lemma visit_block_eq:
  "visit_block B keep k s = (if m_get B (blocks s) k = None then s else set_owners B k (kept keep (owners_at B s k)) s)"
  by (auto simp: visit_block_def set_owners_def owners_at_def split: option.splits)

lemma blocks_wf_owners_distinct: "blocks_wf B s \<Longrightarrow> distinct (map fst (owners_at B s k))"
  by (auto simp: blocks_wf_def owners_at_def split: option.splits)

lemma distinct_kept: "distinct (map fst os) \<Longrightarrow> distinct (map fst (kept keep os))"
  by (simp add: kept_def distinct_map_filter)

lemma kept_subset: "set (kept keep os) \<subseteq> set os"
  by (auto simp: kept_def)

definition table_inv :: "'b block_ops \<Rightarrow> ('b, 'n) hash_store \<Rightarrow> bool" where
  "table_inv B s \<longleftrightarrow> accounted B s \<and> blocks_wf B s"

lemma table_inv_distinct: "table_inv B s \<Longrightarrow> distinct (map fst (owners_at B s k))"
  by (simp add: table_inv_def blocks_wf_owners_distinct)

lemma set_owners_inv:
  "map_laws B \<Longrightarrow> table_inv B s \<Longrightarrow> distinct (map fst os) \<Longrightarrow> table_inv B (set_owners B k os s)"
  by (simp add: table_inv_def set_owners_accounted set_owners_blocks_wf)

lemma table_inv_cong:
  "blocks s' = blocks s \<Longrightarrow> redundancy s' = redundancy s \<Longrightarrow> table_inv B s' = table_inv B s"
  by (simp add: table_inv_def accounted_def blocks_wf_def)

lemma insert_hash_inv:
  assumes "map_laws B" and "table_inv B s" and "insert_hash B N now ns node sid s h = Inr (s', hint)"
  shows "table_inv B s'"
  unfolding insert_hash_Inr(2)[OF assms(3)]
  by (intro set_owners_inv assms distinct_update table_inv_distinct)

lemma remove_hash_inv:
  assumes "map_laws B" and "table_inv B s"
  shows "table_inv B (fst (remove_hash B ns node sid s h))"
  using remove_hash_eq[of B ns node sid s h] set_owners_inv[OF assms] assms(2) distinct_delete
    table_inv_distinct[OF assms(2)] by metis

lemma visit_block_inv:
  "map_laws B \<Longrightarrow> table_inv B s \<Longrightarrow> table_inv B (visit_block B keep k s)"
  by (simp add: visit_block_eq set_owners_inv distinct_kept table_inv_distinct)

lemma retain_owners_get:
  assumes "map_laws B"
  shows "m_get B (blocks (fst (retain_owners B keep s))) =
     (\<lambda>k. Option.bind (m_get B (blocks s) k) (\<lambda>os. if kept keep os = [] then None else Some (kept keep os)))"
  by (auto simp: retain_owners_def Let_def map_lawsD[OF assms])

lemma retain_owners_rest [simp]:
  "nodes (fst (retain_owners B keep s)) = nodes s" "store_cfg (fst (retain_owners B keep s)) = store_cfg s"
  "reconcile_needed (fst (retain_owners B keep s)) = reconcile_needed s"
  by (simp_all add: retain_owners_def Let_def)

lemma owners_at_retain:
  "map_laws B \<Longrightarrow> owners_at B (fst (retain_owners B keep s)) k = kept keep (owners_at B s k)"
  by (auto simp: owners_at_def retain_owners_get kept_def split: option.splits)

lemma retain_owners_inv:
  assumes "map_laws B" and "table_inv B s"
  shows "table_inv B (fst (retain_owners B keep s))"
proof -
  let ?items = "m_items B (blocks s)" and ?f = "\<lambda>os. if kept keep os = [] then None else Some (kept keep os)"
  have "field (redundancy (fst (retain_owners B keep s))) =
      map_total (w \<circ> length) (m_get B (blocks (fst (retain_owners B keep s))))"
    if mem: "(field, w) \<in> set counter_fields" for field w
  proof -
    have old: "field (redundancy s) = map_total (w \<circ> length) (m_get B (blocks s))"
      using assms(2) mem by (auto simp: table_inv_def accounted_def)
    have at: "(\<lambda>os. at_key (w \<circ> length) (?f os)) = w \<circ> length \<circ> kept keep"
      using counter_weight_zero[OF mem] by auto
    have items: "map_total u (m_get B (blocks s)) = sum_list (map (u \<circ> snd) ?items)" for u :: "owners \<Rightarrow> u64"
      using map_total_items[OF map_lawsD(5)[OF assms(1)], of u "blocks s"] map_lawsD(4)[OF assms(1)] by simp
    have "map_total (w \<circ> length) (m_get B (blocks (fst (retain_owners B keep s)))) =
        sum_list (map (w \<circ> length \<circ> kept keep \<circ> snd) ?items)"
      unfolding retain_owners_get[OF assms(1)] map_total_bind[OF map_laws_finite[OF assms(1)]] at items ..
    then show ?thesis
      by (simp add: retain_owners_def Let_def adjust_fold_field[OF mem] old items comp_assoc)
  qed
  moreover have "blocks_wf B (fst (retain_owners B keep s))"
    using assms(2)
    by (auto simp: table_inv_def blocks_wf_def retain_owners_get[OF assms(1)] bind_eq_Some_conv distinct_kept
        split: if_splits)
  ultimately show ?thesis by (auto simp: table_inv_def accounted_def)
qed

section \<open>Interleaved clients\<close>

text \<open>
  One event is what the code does under one guard; a run is any interleaving of the events
  of any number of clients. \<open>KeepNodes\<close> is the node pass of a sweep, \<open>DropNode\<close> the first
  half of an unregistration, \<open>Visit\<close> one block of a scan and \<open>Scan\<close> a scan nobody interrupts.
\<close>

datatype store_event =
    Beat instant node_url uuid
  | Instance instant node_url uuid bool
  | Touch instant node_url uuid
  | InsertOne instant string node_url uuid block_hash
  | RemoveOne string node_url uuid block_hash
  | DropNode node_url uuid
  | KeepNodes "node_url \<Rightarrow> node_record \<Rightarrow> bool"
  | ClearNodes
  | TakeFlag
  | Visit keep_owner block_key
  | Scan keep_owner

fun apply_event :: "'b block_ops \<Rightarrow> 'n node_ops \<Rightarrow> store_event \<Rightarrow> ('b, 'n) hash_store \<Rightarrow> ('b, 'n) hash_store" where
  "apply_event B N (Beat now node sid) s = fst (heartbeat_node N now node sid s)"
| "apply_event B N (Instance now node sid has) s = set_node_has_instance N now node sid has s"
| "apply_event B N (Touch now node sid) s = fst (touch_node_session N now node sid s)"
| "apply_event B N (InsertOne now ns node sid h) s =
     (case insert_hash B N now ns node sid s h of Inl e \<Rightarrow> s | Inr (s', hint) \<Rightarrow> s')"
| "apply_event B N (RemoveOne ns node sid h) s = fst (remove_hash B ns node sid s h)"
| "apply_event B N (DropNode node sid) s = fst (remove_node_entry N node sid s)"
| "apply_event B N (KeepNodes keep) s =
     s\<lparr>nodes := m_retain N (nodes s) (\<lambda>n r. if keep n r then Some r else None)\<rparr>"
| "apply_event B N ClearNodes s = s\<lparr>nodes := m_empty N\<rparr>"
| "apply_event B N TakeFlag s = s\<lparr>reconcile_needed := False\<rparr>"
| "apply_event B N (Visit keep k) s = visit_block B keep k s"
| "apply_event B N (Scan keep) s = fst (retain_owners B keep s)"

definition run_events ::
  "'b block_ops \<Rightarrow> 'n node_ops \<Rightarrow> store_event list \<Rightarrow> ('b, 'n) hash_store \<Rightarrow> ('b, 'n) hash_store" where
  "run_events B N evs s = fold (apply_event B N) evs s"

lemma run_events_append: "run_events B N (xs @ ys) s = run_events B N ys (run_events B N xs s)"
  by (simp add: run_events_def)

lemma node_ops_tables [simp]:
  "blocks (fst (heartbeat_node N now node sid s)) = blocks s"
  "redundancy (fst (heartbeat_node N now node sid s)) = redundancy s"
  "blocks (set_node_has_instance N now node sid has s) = blocks s"
  "redundancy (set_node_has_instance N now node sid has s) = redundancy s"
  "blocks (fst (touch_node_session N now node sid s)) = blocks s"
  "redundancy (fst (touch_node_session N now node sid s)) = redundancy s"
  "blocks (fst (remove_node_entry N node sid s)) = blocks s"
  "redundancy (fst (remove_node_entry N node sid s)) = redundancy s"
  by (auto simp: heartbeat_node_def set_node_has_instance_def touch_node_session_def remove_node_entry_def
      Let_def split: option.splits)

lemma apply_event_inv:
  assumes "map_laws B" and "table_inv B s"
  shows "table_inv B (apply_event B N ev s)"
proof (cases ev)
  case (InsertOne now ns node sid h)
  then show ?thesis using insert_hash_inv[OF assms, of N now ns node sid h] assms(2)
    by (auto split: sum.splits)
qed (use assms in \<open>auto simp: remove_hash_inv visit_block_inv retain_owners_inv cong: table_inv_cong
      intro: table_inv_cong[THEN iffD2]\<close>)

lemma table_inv_new: "map_laws B \<Longrightarrow> table_inv B (with_config B N cfg)"
  by (auto simp: table_inv_def accounted_def blocks_wf_def with_config_def map_lawsD map_total_def counter_fields_def)

lemma run_events_inv:
  "map_laws B \<Longrightarrow> table_inv B s \<Longrightarrow> table_inv B (run_events B N evs s)"
  unfolding run_events_def by (induction evs arbitrary: s) (simp_all add: apply_event_inv)

text \<open>Counting through \<open>map_total\<close>.\<close>

lemma map_total_card:
  assumes "finite (dom m)"
  shows "map_total (\<lambda>v. of_bool (P v) :: 'n::ring_1) m = of_nat (card {k \<in> dom m. P (the (m k))})"
  unfolding map_total_def using assms by (simp add: of_bool_def sum.If_cases Int_def conj_commute)

lemma map_total_of_nat: "map_total (of_nat \<circ> f :: _ \<Rightarrow> 'n::ring_1) m = of_nat (\<Sum>k \<in> dom m. f (the (m k)))"
  by (simp add: map_total_def)

lemma owners_at_dom:
  assumes "\<not> P 0"
  shows "{k \<in> dom (m_get B (blocks s)). P (length (the (m_get B (blocks s) k)))} = {k. P (length (owners_at B s k))}"
  using assms by (auto simp: owners_at_def split: option.splits)

lemma entry_count_split:
  assumes "map_laws B" and "table_inv B s"
  shows "of_nat (card (dom (m_get B (blocks s)))) = (map_total (\<lambda>_. 1) (m_get B (blocks s)) :: u64)"
    and "map_total (\<lambda>_. 1) (m_get B (blocks s)) = entry_count s"
proof -
  let ?m = "m_get B (blocks s)"
  show "of_nat (card (dom ?m)) = (map_total (\<lambda>_. 1) ?m :: u64)" by (simp add: map_total_def)
  have "(1 :: u64) = of_bool (length (the (?m k)) = 1) + of_bool (length (the (?m k)) = 2) +
      of_bool (length (the (?m k)) = 3) + of_bool (4 \<le> length (the (?m k)))" if "k \<in> dom ?m" for k
  proof -
    have "length (the (?m k)) \<noteq> 0" using that assms(2) by (auto simp: table_inv_def blocks_wf_def)
    then consider "length (the (?m k)) = 1" | "length (the (?m k)) = 2" | "length (the (?m k)) = 3" | "4 \<le> length (the (?m k))"
      by linarith
    then show ?thesis by cases simp_all
  qed
  then have "map_total (\<lambda>_. 1) ?m = map_total ((\<lambda>n. of_bool (n = 1)) \<circ> length) ?m +
      map_total ((\<lambda>n. of_bool (n = 2)) \<circ> length) ?m + map_total ((\<lambda>n. of_bool (n = 3)) \<circ> length) ?m +
      (map_total ((\<lambda>n. of_bool (4 \<le> n)) \<circ> length) ?m :: u64)"
    unfolding map_total_def by (simp add: sum.distrib [symmetric])
  then show "map_total (\<lambda>_. 1) ?m = entry_count s"
    using assms(2) by (simp add: entry_count_def table_inv_def accounted_def counter_fields_def)
qed

text \<open>
  C8. However the guarded sections of any number of clients interleave, the redundancy
  counters the metrics read equal the distribution of the stored owner records: the number of
  blocks with one, two, three and at least four owners, the number of blocks and the number
  of copies, each modulo the 64 bits of the counter.
\<close>

theorem redundancy_counters_exact:
  assumes "map_laws B" and "s = run_events B N evs (with_config B N cfg)"
  shows "keys_1 (redundancy s) = of_nat (card {k. length (owners_at B s k) = 1}) \<and>
    keys_2 (redundancy s) = of_nat (card {k. length (owners_at B s k) = 2}) \<and>
    keys_3 (redundancy s) = of_nat (card {k. length (owners_at B s k) = 3}) \<and>
    keys_4plus (redundancy s) = of_nat (card {k. 4 \<le> length (owners_at B s k)}) \<and>
    entry_count s = of_nat (card {k. owners_at B s k \<noteq> []}) \<and>
    owner_count s = of_nat (\<Sum>k \<in> dom (m_get B (blocks s)). length (owners_at B s k))"
proof -
  let ?m = "m_get B (blocks s)"
  have inv: "table_inv B s" using assms run_events_inv table_inv_new by metis
  have fin: "finite (dom ?m)" by (rule map_laws_finite[OF assms(1)])
  have bucket: "map_total ((\<lambda>n. of_bool (P n)) \<circ> length) ?m = (of_nat (card {k. P (length (owners_at B s k))}) :: u64)"
    if "\<not> P 0" for P
    using map_total_card[OF fin, of "P \<circ> length"] owners_at_dom[of P B s] that by (simp add: comp_def)
  have "dom ?m = {k. owners_at B s k \<noteq> []}"
    using inv by (auto simp: owners_at_def table_inv_def blocks_wf_def split: option.splits)
  moreover have "map_total (of_nat \<circ> length) ?m = (of_nat (\<Sum>k \<in> dom ?m. length (owners_at B s k)) :: u64)"
    unfolding map_total_of_nat by (intro arg_cong[of _ _ of_nat] sum.cong) (auto simp: owners_at_def)
  ultimately show ?thesis
    using inv entry_count_split[OF assms(1) inv] bucket[of "\<lambda>n. n = 1"] bucket[of "\<lambda>n. n = 2"] bucket[of "\<lambda>n. n = 3"]
      bucket[of "\<lambda>n. 4 \<le> n"]
    by (simp add: table_inv_def accounted_def counter_fields_def owner_count_def)
qed

section \<open>Whole operations are runs\<close>

lemma insert_loop_run:
  "\<exists>evs. fst (insert_loop B N now ns node sid s hs acc) = run_events B N evs s"
proof (induction hs arbitrary: s acc)
  case Nil
  show ?case by (intro exI[of _ "[]"]) (simp add: run_events_def)
next
  case (Cons h hs)
  show ?case
  proof (cases "insert_hash B N now ns node sid s h")
    case (Inl e)
    then show ?thesis by (intro exI[of _ "[]"]) (simp add: run_events_def)
  next
    case (Inr x)
    obtain s' hint where x: "x = (s', hint)" by fastforce
    obtain evs where "fst (insert_loop B N now ns node sid s' hs (if hint then acc @ [h] else acc)) = run_events B N evs s'"
      using Cons.IH by blast
    then have "fst (insert_loop B N now ns node sid s (h # hs) acc) =
        run_events B N (InsertOne now ns node sid h # evs) s"
      using Inr x by (simp add: run_events_def)
    then show ?thesis by blast
  qed
qed

lemma remove_loop_run: "\<exists>evs. fst (remove_loop B ns node sid s hs n) = run_events B N evs s"
proof (induction hs arbitrary: s n)
  case Nil
  show ?case by (intro exI[of _ "[]"]) (simp add: run_events_def)
next
  case (Cons h hs)
  obtain s' m where x: "remove_hash B ns node sid s h = (s', m)" by fastforce
  obtain evs where "fst (remove_loop B ns node sid s' hs (n + m)) = run_events B N evs s'"
    using Cons.IH by blast
  then have "fst (remove_loop B ns node sid s (h # hs) n) = run_events B N (RemoveOne ns node sid h # evs) s"
    using x by (simp add: run_events_def)
  then show ?case by blast
qed

lemma insert_hashes_run: "\<exists>evs. fst (insert_hashes B N t now ns hs node sid s) = run_events B N evs s"
proof -
  obtain s1 r where s1: "touch_node_session N t node sid s = (s1, r)" by fastforce
  have "\<exists>evs. fst (insert_hashes B N t now ns hs node sid s) = run_events B N evs s1"
    using insert_loop_run[of B N now ns node sid s1 hs "[]"] run_events_def[of B N "[]" s1]
    by (cases r) (auto simp: insert_hashes_def s1 intro: exI[of _ "[]"])
  then show ?thesis using s1 run_events_append[of B N "[Touch t node sid]" _ s]
    by (metis apply_event.simps(3) fold_simps fst_conv run_events_def)
qed

lemma remove_hashes_run: "\<exists>evs. fst (remove_hashes B N t ns hs node sid s) = run_events B N evs s"
proof -
  obtain s1 r where s1: "touch_node_session N t node sid s = (s1, r)" by fastforce
  have "\<exists>evs. fst (remove_hashes B N t ns hs node sid s) = run_events B N evs s1"
    using remove_loop_run[of B ns node sid s1 hs 0 N] run_events_def[of B N "[]" s1]
    by (cases r) (auto simp: remove_hashes_def s1 split: prod.splits intro: exI[of _ "[]"])
  then show ?thesis using s1 run_events_append[of B N "[Touch t node sid]" _ s]
    by (metis apply_event.simps(3) fold_simps fst_conv run_events_def)
qed

lemma unregister_node_run: "\<exists>evs. fst (unregister_node B N node sid s) = run_events B N evs s"
proof -
  obtain s1 r where s1: "remove_node_entry N node sid s = (s1, r)" by fastforce
  then have "fst (unregister_node B N node sid s) =
      run_events B N (DropNode node sid # (case r of Inl _ \<Rightarrow> [] | Inr _ \<Rightarrow> [Scan (unregister_keep N node s1)])) s"
    by (auto simp: unregister_node_def run_events_def split: sum.splits prod.splits)
  then show ?thesis by blast
qed

lemma sweep_expired_run: "\<exists>evs. fst (sweep_expired B N now s) = run_events B N evs s"
proof -
  let ?keep = "\<lambda>_ r. now - last_seen r \<le> store_ttl (store_cfg s)"
  let ?s = "s\<lparr>reconcile_needed := False, nodes := m_retain N (nodes s) (ttl_keep (store_cfg s) now)\<rparr>"
  have "fst (sweep_expired B N now s) = ?s \<or>
      fst (sweep_expired B N now s) = fst (retain_owners B (session_matches N ?s) ?s)"
    by (auto simp: sweep_expired_def Let_def split: prod.splits)
  then have "fst (sweep_expired B N now s) = run_events B N [TakeFlag, KeepNodes ?keep] s \<or>
      fst (sweep_expired B N now s) = run_events B N [TakeFlag, KeepNodes ?keep, Scan (session_matches N ?s)] s"
    by (simp add: run_events_def ttl_keep_def [abs_def])
  then show ?thesis by blast
qed

text \<open>The stores a single client reaches with whole operations.\<close>

inductive store_reach :: "'b block_ops \<Rightarrow> 'n node_ops \<Rightarrow> store_config \<Rightarrow> ('b, 'n) hash_store \<Rightarrow> bool"
  for B N cfg where
  sr_new: "store_reach B N cfg (with_config B N cfg)"
| sr_beat: "store_reach B N cfg s \<Longrightarrow> store_reach B N cfg (fst (heartbeat_node N now node sid s))"
| sr_instance: "store_reach B N cfg s \<Longrightarrow> store_reach B N cfg (set_node_has_instance N now node sid has s)"
| sr_insert: "store_reach B N cfg s \<Longrightarrow> store_reach B N cfg (fst (insert_hashes B N t now ns hs node sid s))"
| sr_remove: "store_reach B N cfg s \<Longrightarrow> store_reach B N cfg (fst (remove_hashes B N t ns hs node sid s))"
| sr_unregister: "store_reach B N cfg s \<Longrightarrow> store_reach B N cfg (fst (unregister_node B N node sid s))"
| sr_sweep: "store_reach B N cfg s \<Longrightarrow> store_reach B N cfg (fst (sweep_expired B N now s))"
| sr_older: "store_reach B N cfg s \<Longrightarrow> store_reach B N cfg (fst (remove_owners_older_than B now max_age s))"
| sr_clear: "store_reach B N cfg s \<Longrightarrow> store_reach B N cfg (invalidate_all B N s)"

lemma store_reach_run:
  "store_reach B N cfg s \<Longrightarrow> \<exists>evs. s = run_events B N evs (with_config B N cfg)"
proof (induction rule: store_reach.induct)
  case sr_new
  show ?case by (intro exI[of _ "[]"]) (simp add: run_events_def)
next
  case (sr_beat s now node sid)
  then show ?case using run_events_append[of B N _ "[Beat now node sid]"]
    by (metis apply_event.simps(1) fold_simps run_events_def)
next
  case (sr_instance s now node sid has)
  then show ?case using run_events_append[of B N _ "[Instance now node sid has]"]
    by (metis apply_event.simps(2) fold_simps run_events_def)
next
  case (sr_insert s t now ns hs node sid)
  then show ?case using insert_hashes_run[of B N t now ns hs node sid s] run_events_append by metis
next
  case (sr_remove s t ns hs node sid)
  then show ?case using remove_hashes_run[of B N t ns hs node sid s] run_events_append by metis
next
  case (sr_unregister s node sid)
  then show ?case using unregister_node_run[of B N node sid s] run_events_append by metis
next
  case (sr_sweep s now)
  then show ?case using sweep_expired_run[of B N now s] run_events_append by metis
next
  case (sr_older s now max_age)
  then show ?case using run_events_append[of B N _ "[Scan (\<lambda>_ ow. now - key_register_time ow \<le> max_age)]"]
    by (metis apply_event.simps(11) fold_simps remove_owners_older_than_def run_events_def)
next
  case (sr_clear s)
  then show ?case using run_events_append[of B N _ "[ClearNodes, Scan (\<lambda>_ _. False)]"]
    by (metis apply_event.simps(8,11) fold_simps invalidate_all_def run_events_def)
qed

section \<open>Sweeps\<close>

definition session_of :: "'n node_ops \<Rightarrow> ('b, 'n) hash_store \<Rightarrow> node_url \<rightharpoonup> uuid" where
  "session_of N s n = map_option node_session (m_get N (nodes s) n)"

definition owned_by :: "'b block_ops \<Rightarrow> ('b, 'n) hash_store \<Rightarrow> (node_url \<times> uuid) set" where
  "owned_by B s = {(n, owner_session ow) | n ow. \<exists>k. (n, ow) \<in> set (owners_at B s k)}"

definition sessions_current :: "'b block_ops \<Rightarrow> 'n node_ops \<Rightarrow> ('b, 'n) hash_store \<Rightarrow> bool" where
  "sessions_current B N s \<longleftrightarrow> (\<forall>(n, sid) \<in> owned_by B s. session_of N s n = Some sid)"

lemma session_matches_iff: "session_matches N s n ow \<longleftrightarrow> session_of N s n = Some (owner_session ow)"
  by (auto simp: session_matches_def session_of_def split: option.splits)

lemma session_of_cong: "nodes s' = nodes s \<Longrightarrow> session_of N s' = session_of N s"
  by (auto simp: session_of_def)

lemma owned_by_cong: "blocks s' = blocks s \<Longrightarrow> owned_by B s' = owned_by B s"
  by (simp add: owned_by_def owners_at_def)

lemma sessions_current_mono:
  "sessions_current B N s \<Longrightarrow> session_of N s' = session_of N s \<Longrightarrow> owned_by B s' \<subseteq> owned_by B s \<Longrightarrow>
   sessions_current B N s'"
  by (auto simp: sessions_current_def)

lemma set_update_subset: "set (AList.update k v xs) \<subseteq> insert (k, v) (set xs)"
  by (induction xs) auto

lemma insert_hash_owned:
  assumes "map_laws B" and "insert_hash B N now ns node sid s h = Inr (s', hint)"
  shows "owned_by B s' \<subseteq> insert (node, sid) (owned_by B s)" and "session_of N s' = session_of N s"
    and "session_of N s node = Some sid" and "reconcile_needed s' = reconcile_needed s"
proof -
  note s' = insert_hash_Inr(2)[OF assms(2)]
  show "owned_by B s' \<subseteq> insert (node, sid) (owned_by B s)"
    unfolding owned_by_def s' owners_at_set_owners[OF assms(1)]
    using set_update_subset by (fastforce split: if_splits)
  show "session_of N s' = session_of N s" by (rule session_of_cong) (simp add: s')
  show "session_of N s node = Some sid" using insert_hash_Inr(1)[OF assms(2)] by (auto simp: session_of_def)
  show "reconcile_needed s' = reconcile_needed s" by (simp add: s')
qed

lemma set_owners_owned:
  assumes "map_laws B" and "set os \<subseteq> set (owners_at B s k)"
  shows "owned_by B (set_owners B k os s) \<subseteq> owned_by B s"
proof -
  have "set (owners_at B (set_owners B k os s) j) \<subseteq> set (owners_at B s j)" for j
    using assms(2) by (simp add: owners_at_set_owners[OF assms(1)])
  then show ?thesis unfolding owned_by_def by blast
qed

lemma remove_hash_owned:
  assumes "map_laws B"
  shows "owned_by B (fst (remove_hash B ns node sid s h)) \<subseteq> owned_by B s" (is ?owned)
    and "nodes (fst (remove_hash B ns node sid s h)) = nodes s" (is ?nodes)
    and "reconcile_needed (fst (remove_hash B ns node sid s h)) = reconcile_needed s" (is ?flag)
proof -
  let ?os = "owners_at B s \<lparr>namespace = ns, hash = h\<rparr>"
  have "set (AList.delete node ?os) \<subseteq> set ?os" by (auto simp: AList.delete_eq)
  then show ?owned
    using remove_hash_eq[of B ns node sid s h] set_owners_owned[OF assms, of ?os s "\<lparr>namespace = ns, hash = h\<rparr>"]
      set_owners_owned[OF assms, of "AList.delete node ?os" s "\<lparr>namespace = ns, hash = h\<rparr>"] by auto
  show ?nodes using remove_hash_eq[of B ns node sid s h] by auto
  show ?flag using remove_hash_eq[of B ns node sid s h] by auto
qed

lemma retain_owned:
  "map_laws B \<Longrightarrow> (n, sid) \<in> owned_by B (fst (retain_owners B keep s)) \<longleftrightarrow>
     (\<exists>k ow. (n, ow) \<in> set (owners_at B s k) \<and> keep n ow \<and> owner_session ow = sid)"
  by (auto simp: owned_by_def owners_at_retain kept_def)

lemma retain_owned_subset: "map_laws B \<Longrightarrow> owned_by B (fst (retain_owners B keep s)) \<subseteq> owned_by B s"
  by (auto simp: retain_owned) (auto simp: owned_by_def)

lemma insert_loop_owned:
  assumes "map_laws B"
  shows "owned_by B (fst (insert_loop B N now ns node sid s hs acc)) \<subseteq>
      owned_by B s \<union> {x. x = (node, sid) \<and> session_of N s node = Some sid} \<and>
    session_of N (fst (insert_loop B N now ns node sid s hs acc)) = session_of N s \<and>
    reconcile_needed (fst (insert_loop B N now ns node sid s hs acc)) = reconcile_needed s"
proof (induction hs arbitrary: s acc)
  case (Cons h hs)
  show ?case
  proof (cases "insert_hash B N now ns node sid s h")
    case (Inr x)
    obtain s' hint where x: "x = (s', hint)" by fastforce
    let ?acc = "if hint then acc @ [h] else acc"
    have step: "insert_loop B N now ns node sid s (h # hs) acc = insert_loop B N now ns node sid s' hs ?acc"
      using Inr x by simp
    show ?thesis unfolding step using Cons[of s' ?acc] insert_hash_owned[OF assms, of N now ns node sid s h s' hint] Inr x
      by auto
  qed simp
qed simp

lemma remove_loop_owned:
  assumes "map_laws B"
  shows "owned_by B (fst (remove_loop B ns node sid s hs n)) \<subseteq> owned_by B s \<and>
    nodes (fst (remove_loop B ns node sid s hs n)) = nodes s \<and>
    reconcile_needed (fst (remove_loop B ns node sid s hs n)) = reconcile_needed s"
proof (induction hs arbitrary: s n)
  case (Cons h hs)
  obtain s' m where x: "remove_hash B ns node sid s h = (s', m)" by fastforce
  have step: "remove_loop B ns node sid s (h # hs) n = remove_loop B ns node sid s' hs (n + m)" using x by simp
  show ?case unfolding step using Cons[of s' "n + m"] remove_hash_owned[OF assms, of ns node sid s h] x by auto
qed simp

text \<open>
  Owner records of an old session only exist between a takeover and the next sweep, and
  the takeover sets the flag that makes that sweep scan.
\<close>

definition flag_covers :: "'b block_ops \<Rightarrow> 'n node_ops \<Rightarrow> ('b, 'n) hash_store \<Rightarrow> bool" where
  "flag_covers B N s \<longleftrightarrow> reconcile_needed s \<or> sessions_current B N s"

lemma heartbeat_flag_covers:
  assumes "map_laws N" and "flag_covers B N s"
  shows "flag_covers B N (fst (heartbeat_node N now node sid s))"
proof (cases "m_get N (nodes s) node")
  case None
  then have "session_of N s node = None" by (simp add: session_of_def)
  then have "(node, x) \<notin> owned_by B s" if "sessions_current B N s" for x
    using that by (auto simp: sessions_current_def)
  moreover have "session_of N (fst (heartbeat_node N now node sid s)) = (session_of N s)(node \<mapsto> sid)"
    using None by (auto simp: heartbeat_node_def session_of_def map_lawsD[OF assms(1)])
  moreover have "reconcile_needed (fst (heartbeat_node N now node sid s)) = reconcile_needed s"
    using None by (simp add: heartbeat_node_def)
  ultimately show ?thesis using assms(2) owned_by_cong[OF node_ops_tables(1)]
    by (fastforce simp: flag_covers_def sessions_current_def)
next
  case (Some r)
  show ?thesis
  proof (cases "node_session r = sid")
    case True
    then have "session_of N (fst (heartbeat_node N now node sid s)) = session_of N s"
      using Some by (auto simp: heartbeat_node_def session_of_def map_lawsD[OF assms(1)] Let_def)
    moreover have "reconcile_needed (fst (heartbeat_node N now node sid s)) = reconcile_needed s"
      using Some True by (simp add: heartbeat_node_def Let_def)
    ultimately show ?thesis using assms(2) owned_by_cong[OF node_ops_tables(1)]
      by (metis flag_covers_def sessions_current_mono subset_refl)
  next
    case False
    then show ?thesis using Some assms(2) by (simp add: heartbeat_node_def Let_def flag_covers_def)
  qed
qed

lemma instance_touch_session:
  assumes "map_laws N"
  shows "session_of N (set_node_has_instance N now node sid has s) = session_of N s"
    and "reconcile_needed (set_node_has_instance N now node sid has s) = reconcile_needed s"
    and "session_of N (fst (touch_node_session N now node sid s)) = session_of N s"
    and "reconcile_needed (fst (touch_node_session N now node sid s)) = reconcile_needed s"
  by (auto simp: set_node_has_instance_def touch_node_session_def session_of_def fun_eq_iff
      map_lawsD[OF assms] split: option.splits)

lemma flag_covers_mono:
  "flag_covers B N s \<Longrightarrow> session_of N s' = session_of N s \<Longrightarrow> owned_by B s' \<subseteq> owned_by B s \<Longrightarrow>
   reconcile_needed s' = reconcile_needed s \<Longrightarrow> flag_covers B N s'"
  by (metis flag_covers_def sessions_current_mono)

lemma insert_hashes_flag_covers:
  assumes "map_laws B" and "map_laws N" and "flag_covers B N s"
  shows "flag_covers B N (fst (insert_hashes B N t now ns hs node sid s))"
proof -
  obtain s1 r where s1: "touch_node_session N t node sid s = (s1, r)" by fastforce
  have "flag_covers B N s1"
    using flag_covers_mono[OF assms(3)] instance_touch_session(3,4)[OF assms(2), of t node sid s]
      owned_by_cong[OF node_ops_tables(5)] s1 by (metis fst_conv subset_refl)
  moreover have "fst (insert_hashes B N t now ns hs node sid s) =
      (case r of Inl _ \<Rightarrow> s1 | Inr _ \<Rightarrow> fst (insert_loop B N now ns node sid s1 hs []))"
    by (simp add: insert_hashes_def s1 split: sum.split)
  ultimately show ?thesis using insert_loop_owned[OF assms(1), of N now ns node sid s1 hs "[]"]
    by (auto simp: flag_covers_def sessions_current_def split: sum.splits)
qed

lemma remove_hashes_flag_covers:
  assumes "map_laws B" and "map_laws N" and "flag_covers B N s"
  shows "flag_covers B N (fst (remove_hashes B N t ns hs node sid s))"
proof -
  obtain s1 r where s1: "touch_node_session N t node sid s = (s1, r)" by fastforce
  have "flag_covers B N s1"
    using flag_covers_mono[OF assms(3)] instance_touch_session(3,4)[OF assms(2), of t node sid s]
      owned_by_cong[OF node_ops_tables(5)] s1 by (metis fst_conv subset_refl)
  moreover have "fst (remove_hashes B N t ns hs node sid s) =
      (case r of Inl _ \<Rightarrow> s1 | Inr _ \<Rightarrow> fst (remove_loop B ns node sid s1 hs 0))"
    by (simp add: remove_hashes_def s1 split: sum.split prod.split)
  ultimately show ?thesis
    using remove_loop_owned[OF assms(1), of ns node sid s1 hs 0]
      flag_covers_mono[of B N s1] session_of_cong[of "fst (remove_loop B ns node sid s1 hs 0)" s1 N]
    by (auto split: sum.splits)
qed

lemma unregister_flag_covers:
  assumes "map_laws B" and "map_laws N" and "flag_covers B N s"
  shows "flag_covers B N (fst (unregister_node B N node sid s))"
proof -
  obtain s1 r where s1: "remove_node_entry N node sid s = (s1, r)" by fastforce
  show ?thesis
  proof (cases r)
    case (Inl e)
    then have "fst (unregister_node B N node sid s) = s" using s1
      by (auto simp: unregister_node_def remove_node_entry_def split: option.splits if_splits)
    then show ?thesis using assms(3) by simp
  next
    case (Inr u)
    have sess: "session_of N s1 = (session_of N s)(node := None)" and "reconcile_needed s1 = reconcile_needed s"
      using s1 Inr by (auto simp: remove_node_entry_def session_of_def map_lawsD[OF assms(2)] split: option.splits if_splits)
    moreover have own: "owners_at B s1 = owners_at B s"
      using s1 by (auto simp: owners_at_def fun_eq_iff remove_node_entry_def split: option.splits if_splits)
    let ?s2 = "fst (retain_owners B (unregister_keep N node s1) s1)"
    have "fst (unregister_node B N node sid s) = ?s2" using s1 Inr by (simp add: unregister_node_def split: prod.split)
    moreover have "sessions_current B N ?s2" if "sessions_current B N s"
      using that sess own session_of_cong[of ?s2 s1 N]
      by (auto simp: sessions_current_def retain_owned[OF assms(1)] unregister_keep_def session_matches_iff)
        (auto simp: owned_by_def)
    ultimately show ?thesis using assms(3) by (auto simp: flag_covers_def)
  qed
qed

lemma sweep_flag_covers:
  assumes "map_laws B" and "map_laws N" and "flag_covers B N s"
  shows "sessions_current B N (fst (sweep_expired B N now s))"
proof -
  let ?keep = "ttl_keep (store_cfg s) now"
  let ?s = "s\<lparr>reconcile_needed := False, nodes := m_retain N (nodes s) ?keep\<rparr>"
  let ?gone = "length (filter (\<lambda>(n, r). ?keep n r = None) (m_items N (nodes s)))"
  show ?thesis
  proof (cases "?gone = 0 \<and> \<not> reconcile_needed s")
    case True
    have "?keep n r = Some r" if "m_get N (nodes s) n = Some r" for n r
    proof -
      have "(n, r) \<in> set (m_items N (nodes s))" using that map_laws_items_set[OF assms(2)] by simp
      then have "\<not> (case (n, r) of (n, r) \<Rightarrow> ?keep n r = None)" using True by (metis (no_types, lifting) filter_empty_conv length_0_conv)
      then show ?thesis by (auto simp: ttl_keep_def split: if_splits)
    qed
    then have "m_get N (m_retain N (nodes s) ?keep) = m_get N (nodes s)"
      by (auto simp: fun_eq_iff map_lawsD[OF assms(2)] split: Option.bind_splits)
    then have "session_of N ?s = session_of N s" by (simp add: session_of_def fun_eq_iff)
    moreover have "owned_by B ?s = owned_by B s" by (rule owned_by_cong) simp
    moreover have "fst (sweep_expired B N now s) = ?s" using True by (simp add: sweep_expired_def Let_def)
    ultimately show ?thesis using assms(3) True by (simp add: flag_covers_def sessions_current_def)
  next
    case False
    then have "fst (sweep_expired B N now s) = fst (retain_owners B (session_matches N ?s) ?s)"
      by (auto simp: sweep_expired_def Let_def split: prod.split)
    then show ?thesis using session_of_cong[of "fst (retain_owners B (session_matches N ?s) ?s)" ?s N]
      by (auto simp: sessions_current_def retain_owned[OF assms(1)] session_matches_iff)
  qed
qed

lemma store_reach_flag_covers:
  assumes "map_laws B" and "map_laws N"
  shows "store_reach B N cfg s \<Longrightarrow> flag_covers B N s"
proof (induction rule: store_reach.induct)
  case sr_new
  show ?case by (auto simp: flag_covers_def sessions_current_def owned_by_def owners_at_def with_config_def map_lawsD[OF assms(1)])
next
  case (sr_instance s now node sid has)
  then show ?case using flag_covers_mono instance_touch_session(1,2)[OF assms(2)] owned_by_cong[OF node_ops_tables(3)]
    by (metis subset_refl)
next
  case (sr_older s now max_age)
  then show ?case unfolding remove_owners_older_than_def
    using flag_covers_mono retain_owned_subset[OF assms(1)] retain_owners_rest(1,3) session_of_cong by metis
next
  case (sr_clear s)
  have "owned_by B (invalidate_all B N s) = {}"
    by (auto simp: invalidate_all_def retain_owned[OF assms(1)])
  then show ?case by (simp add: flag_covers_def sessions_current_def)
next
  case (sr_sweep s now)
  then show ?case using sweep_flag_covers[OF assms] by (simp add: flag_covers_def)
next
  case (sr_beat s now node sid)
  then show ?case by (intro heartbeat_flag_covers assms)
next
  case (sr_insert s t now ns hs node sid)
  then show ?case by (intro insert_hashes_flag_covers assms)
next
  case (sr_remove s t ns hs node sid)
  then show ?case by (intro remove_hashes_flag_covers assms)
next
  case (sr_unregister s node sid)
  then show ?case by (intro unregister_flag_covers assms)
qed

section \<open>Witnesses\<close>

definition wconfig :: store_config where
  "wconfig = \<lparr>node_stale_after = 30, store_ttl = 100, min_reclaimable_owner_count = 1\<rparr>"

definition wnode :: "(node_url \<times> node_record) list" where
  "wnode = [(''a'', \<lparr>node_session = 1, last_seen = 0, idle_since = Some 0\<rparr>)]"

definition wstore1 :: "((block_key \<times> owners) list, (node_url \<times> node_record) list) hash_store" where
  "wstore1 = \<lparr>blocks = [], nodes = wnode, store_cfg = wconfig, reconcile_needed = False,
     redundancy = \<lparr>keys_1 = 0, keys_2 = 0, keys_3 = 0, keys_4plus = 0, copies = 0\<rparr>\<rparr>"

definition wstore :: "((block_key \<times> owners) list, (node_url \<times> node_record) list) hash_store" where
  "wstore =
     \<lparr>blocks = [(\<lparr>namespace = ''m'', hash = [7]\<rparr>, [(''a'', \<lparr>owner_session = 1, key_register_time = 1\<rparr>)])],
      nodes = wnode, store_cfg = wconfig, reconcile_needed = False,
      redundancy = \<lparr>keys_1 = 1, keys_2 = 0, keys_3 = 0, keys_4plus = 0, copies = 1\<rparr>\<rparr>"

lemma wstore1_beat: "heartbeat_node alist_map 0 ''a'' 1 (with_config alist_map alist_map wconfig) = (wstore1, Inr ())"
  by (simp add: heartbeat_node_def with_config_def wstore1_def wnode_def)

lemma wstore_insert: "insert_hash alist_map alist_map 1 ''m'' ''a'' 1 wstore1 [7] = Inr (wstore, True)"
  unfolding insert_hash_def Let_def wstore1_def wnode_def wconfig_def wstore_def
  by (simp add: is_owner_visible_def adjust_def adjust_bucket_def bump_def)

lemma wstore_run:
  "wstore = run_events alist_map alist_map [Beat 0 ''a'' 1, InsertOne 1 ''m'' ''a'' 1 [7]]
     (with_config alist_map alist_map wconfig)"
  using wstore1_beat wstore_insert by (simp add: run_events_def)

theorem redundancy_counters_exact_witness:
  "keys_1 (redundancy wstore) = of_nat (card {k. length (owners_at alist_map wstore k) = 1}) \<and>
   keys_1 (redundancy wstore) = 1 \<and> owner_count wstore = 1"
proof -
  have "keys_1 (redundancy wstore) = 1" "owner_count wstore = 1" by (simp_all add: wstore_def owner_count_def)
  then show ?thesis using redundancy_counters_exact[OF alist_map_laws wstore_run] by blast
qed

end
