(* ===== verification/Meta_Queries.thy ===== *)
theory Meta_Queries
  imports Meta_Store
begin

text \<open>
  What the block-hash store promises its callers: prefix queries and roles return exactly
  the live owners and nodes, reclaim hints are only given for blocks with enough live
  copies, a sweep that skips its scan behaves like one that never skips, and an
  unregistration leaves no owner of its session behind whatever other clients do meanwhile.
\<close>

section \<open>Sweeps that skip the scan\<close>

definition sweep_full ::
  "'b block_ops \<Rightarrow> 'n node_ops \<Rightarrow> instant \<Rightarrow> ('b, 'n) hash_store \<Rightarrow> ('b, 'n) hash_store \<times> sweep_stats" where
  "sweep_full B N now s =
     (let gone = length (filter (\<lambda>(n, r). ttl_keep (store_cfg s) now n r = None) (m_items N (nodes s)));
          s = s\<lparr>reconcile_needed := False, nodes := m_retain N (nodes s) (ttl_keep (store_cfg s) now)\<rparr>
      in case retain_owners B (session_matches N s) s of (s', st) \<Rightarrow> (s', st\<lparr>removed_nodes := gone\<rparr>))"

definition store_view ::
  "'b block_ops \<Rightarrow> 'n node_ops \<Rightarrow> ('b, 'n) hash_store \<Rightarrow>
   (block_key \<rightharpoonup> owners) \<times> (node_url \<rightharpoonup> node_record) \<times> bool \<times> redundancy_counters" where
  "store_view B N s = (m_get B (blocks s), m_get N (nodes s), reconcile_needed s, redundancy s)"

lemma adjust_same [simp]: "adjust r n n = r"
  by (simp add: adjust_def)

lemma kept_all: "(\<And>n ow. (n, ow) \<in> set os \<Longrightarrow> keep n ow) \<Longrightarrow> kept keep os = os"
  by (auto simp: kept_def filter_id_conv)

lemma retain_nothing:
  assumes "map_laws B" and "blocks_wf B s"
    and "\<And>k n ow. (n, ow) \<in> set (owners_at B s k) \<Longrightarrow> keep n ow"
  shows "m_get B (blocks (fst (retain_owners B keep s))) = m_get B (blocks s)"
    and "redundancy (fst (retain_owners B keep s)) = redundancy s"
    and "snd (retain_owners B keep s) = \<lparr>removed_owners = 0, removed_keys = 0, removed_nodes = 0\<rparr>"
proof -
  have item: "kept keep os = os \<and> os \<noteq> []" if "m_get B (blocks s) k = Some os" for k os
    using that assms(2) assms(3)[where k = k] kept_all[of os keep] by (auto simp: owners_at_def blocks_wf_def)
  then show "m_get B (blocks (fst (retain_owners B keep s))) = m_get B (blocks s)"
    unfolding retain_owners_get[OF assms(1)] by (auto simp: fun_eq_iff split: Option.bind_splits)
  have same: "kept keep (snd x) = snd x \<and> snd x \<noteq> []" if "x \<in> set (m_items B (blocks s))" for x
    using that item[of "fst x" "snd x"] map_laws_items_set[OF assms(1), of "fst x" "snd x" "blocks s"] by simp
  have "fold (\<lambda>(_, os) r. adjust r (length os) (length (kept keep os))) xs r = r"
    if "\<forall>x \<in> set xs. kept keep (snd x) = snd x" for xs :: "(block_key \<times> owners) list" and r
    using that by (induction xs arbitrary: r) auto
  then show "redundancy (fst (retain_owners B keep s)) = redundancy s"
    using same by (simp add: retain_owners_def Let_def)
  have "(case x of (k, os) \<Rightarrow> length os - length (kept keep os)) = 0" "\<not> (case x of (k, os) \<Rightarrow> kept keep os = [])"
    if "x \<in> set (m_items B (blocks s))" for x
    using same[OF that] by (auto split: prod.split)
  then show "snd (retain_owners B keep s) = \<lparr>removed_owners = 0, removed_keys = 0, removed_nodes = 0\<rparr>"
    unfolding retain_owners_def Let_def by (simp cong: map_cong filter_cong add: filter_empty_conv)
qed

lemma store_reach_inv: "map_laws B \<Longrightarrow> store_reach B N cfg s \<Longrightarrow> table_inv B s"
  using store_reach_run run_events_inv table_inv_new by metis

text \<open>
  C23. In every reachable store the periodic sweep, which scans the blocks only after it
  dropped a node or a takeover was flagged, leaves the same nodes, owners, counters and
  statistics as a sweep that always scans, and afterwards every owner record belongs to the
  current session of its node.
\<close>

theorem sweep_skip_equivalent:
  assumes "map_laws B" and "map_laws N" and "store_reach B N cfg s"
  shows "store_view B N (fst (sweep_expired B N now s)) = store_view B N (fst (sweep_full B N now s)) \<and>
    snd (sweep_expired B N now s) = snd (sweep_full B N now s) \<and>
    (\<forall>k n ow. (n, ow) \<in> set (owners_at B (fst (sweep_expired B N now s)) k) \<longrightarrow>
       session_of N (fst (sweep_expired B N now s)) n = Some (owner_session ow))"
proof -
  let ?s = "s\<lparr>reconcile_needed := False, nodes := m_retain N (nodes s) (ttl_keep (store_cfg s) now)\<rparr>"
  let ?gone = "length (filter (\<lambda>(n, r). ttl_keep (store_cfg s) now n r = None) (m_items N (nodes s)))"
  have cov: "sessions_current B N (fst (sweep_expired B N now s))"
    by (rule sweep_flag_covers[OF assms(1,2) store_reach_flag_covers[OF assms]])
  then have cur: "session_of N (fst (sweep_expired B N now s)) n = Some (owner_session ow)"
    if "(n, ow) \<in> set (owners_at B (fst (sweep_expired B N now s)) k)" for k n ow
    using that by (auto simp: sessions_current_def owned_by_def)
  show ?thesis
  proof (cases "?gone = 0 \<and> \<not> reconcile_needed s")
    case True
    then have sw: "sweep_expired B N now s = (?s, \<lparr>removed_owners = 0, removed_keys = 0, removed_nodes = 0\<rparr>)"
      by (simp add: sweep_expired_def Let_def)
    have "blocks_wf B ?s" using store_reach_inv[OF assms(1,3)] by (simp add: table_inv_def blocks_wf_def)
    note same = retain_nothing[OF assms(1) this, of "session_matches N ?s"]
    have "session_matches N ?s n ow" if "(n, ow) \<in> set (owners_at B ?s k)" for k n ow
      using cur[of n ow k] that by (simp add: sw session_matches_iff)
    note same = same[OF this]
    let ?R = "retain_owners B (session_matches N ?s) ?s"
    have full: "sweep_full B N now s = (fst ?R, (snd ?R)\<lparr>removed_nodes := ?gone\<rparr>)"
      by (simp add: sweep_full_def Let_def split_beta)
    have "store_view B N (fst ?R) = store_view B N ?s"
      using same(1,2) by (simp add: store_view_def)
    moreover have "(snd ?R)\<lparr>removed_nodes := ?gone\<rparr> = \<lparr>removed_owners = 0, removed_keys = 0, removed_nodes = 0\<rparr>"
      using same(3) True by simp
    ultimately show ?thesis using cur unfolding full sw by simp
  next
    case False
    then have "sweep_expired B N now s = sweep_full B N now s"
      unfolding sweep_expired_def sweep_full_def Let_def by auto
    then show ?thesis using cur by auto
  qed
qed

section \<open>Unregistration among other clients\<close>

text \<open>
  After \<open>unregister_node\<close> has removed the node entry, its scan visits block after block
  (\<open>Inl\<close>) while other clients' guarded sections (\<open>Inr\<close>) run in between.
\<close>

definition unregister_step ::
  "'b block_ops \<Rightarrow> 'n node_ops \<Rightarrow> node_url \<Rightarrow> block_key + store_event \<Rightarrow> ('b, 'n) hash_store \<Rightarrow> ('b, 'n) hash_store" where
  "unregister_step B N node e s =
     (case e of Inl k \<Rightarrow> visit_block B (unregister_keep N node s) k s | Inr ev \<Rightarrow> apply_event B N ev s)"

definition holds_session :: "'b block_ops \<Rightarrow> node_url \<Rightarrow> uuid \<Rightarrow> ('b, 'n) hash_store \<Rightarrow> block_key \<Rightarrow> bool" where
  "holds_session B node sid s k \<longleftrightarrow> (\<exists>ow. (node, ow) \<in> set (owners_at B s k) \<and> owner_session ow = sid)"

lemma heartbeat_session_of:
  "map_laws N \<Longrightarrow> session_of N (fst (heartbeat_node N now n i s)) m =
     (if m = n \<and> snd (heartbeat_node N now n i s) = Inr () then Some i else session_of N s m)"
  by (auto simp: heartbeat_node_def session_of_def map_lawsD Let_def split: option.splits)

lemma event_keeps_session_away:
  assumes "map_laws B" and "map_laws N" and "session_of N s node \<noteq> Some sid" and "\<forall>now. ev \<noteq> Beat now node sid"
  shows "session_of N (apply_event B N ev s) node \<noteq> Some sid"
proof (cases ev)
  case (Beat now n i)
  then show ?thesis using assms(3,4) heartbeat_session_of[OF assms(2), of now n i s node] by auto
next
  case (Instance now n i has)
  then show ?thesis using assms(3) by (simp add: instance_touch_session(1)[OF assms(2)])
next
  case (Touch now n i)
  then show ?thesis using assms(3) by (simp add: instance_touch_session(3)[OF assms(2)])
next
  case (InsertOne now ns n i h)
  then show ?thesis using assms(3) by (auto simp: insert_hash_owned(2)[OF assms(1)] split: sum.splits)
next
  case (RemoveOne ns n i h)
  then show ?thesis using assms(3) by (simp add: session_of_cong[OF remove_hash_owned(2)[OF assms(1)]])
next
  case (DropNode n i)
  then show ?thesis using assms(3)
    by (auto simp: remove_node_entry_def session_of_def map_lawsD[OF assms(2)] split: option.splits)
next
  case (KeepNodes keep)
  then show ?thesis using assms(3)
    by (auto simp: session_of_def map_lawsD[OF assms(2)] split: Option.bind_splits if_splits)
next
  case (Visit keep k)
  then show ?thesis using assms(3) by (simp add: visit_block_eq session_of_def)
qed (use assms(3) in \<open>auto simp: session_of_def map_lawsD[OF assms(2)]\<close>)

lemma set_owners_holds:
  assumes "map_laws B" and "holds_session B node sid (set_owners B k os s) j"
    and "\<And>ow. (node, ow) \<in> set os \<Longrightarrow> owner_session ow = sid \<Longrightarrow> (node, ow) \<in> set (owners_at B s k)"
  shows "holds_session B node sid s j"
  using assms(2,3) by (auto simp: holds_session_def owners_at_set_owners[OF assms(1)] split: if_splits)

lemma event_adds_no_session:
  assumes "map_laws B" and "session_of N s node \<noteq> Some sid"
    and "holds_session B node sid (apply_event B N ev s) k"
  shows "holds_session B node sid s k"
proof (cases ev)
  case (InsertOne now ns n i h)
  show ?thesis
  proof (cases "insert_hash B N now ns n i s h")
    case (Inr x)
    obtain s' hint where x: "x = (s', hint)" by fastforce
    have "session_of N s n = Some i" using insert_hash_owned(3)[OF assms(1)] Inr x by metis
    then have "n \<noteq> node \<or> i \<noteq> sid" using assms(2) by auto
    moreover have "holds_session B node sid (set_owners B \<lparr>namespace = ns, hash = h\<rparr>
        (AList.update n \<lparr>owner_session = i, key_register_time = now\<rparr> (owners_at B s \<lparr>namespace = ns, hash = h\<rparr>)) s) k"
      using assms(3) insert_hash_Inr(2)[of B N now ns n i s h s' hint] InsertOne Inr x by simp
    ultimately show ?thesis
      by (elim set_owners_holds[OF assms(1)]) (auto dest!: subsetD[OF set_update_subset])
  qed (use assms(3) InsertOne in simp)
next
  case (RemoveOne ns n i h)
  let ?k = "\<lparr>namespace = ns, hash = h\<rparr>"
  have del: "(node, ow) \<in> set (AList.delete n os) \<Longrightarrow> (node, ow) \<in> set os" for os :: owners and ow
    by (auto simp: AList.delete_eq)
  have hold: "holds_session B node sid (fst (remove_hash B ns n i s h)) k" using assms(3) RemoveOne by simp
  from remove_hash_eq[of B ns n i s h] show ?thesis
  proof (elim disjE)
    assume "fst (remove_hash B ns n i s h) = s"
    then show ?thesis using hold by simp
  next
    assume e: "fst (remove_hash B ns n i s h) = set_owners B ?k (owners_at B s ?k) s"
    show ?thesis using hold unfolding e by (rule set_owners_holds[OF assms(1)]) simp
  next
    assume e: "fst (remove_hash B ns n i s h) = set_owners B ?k (AList.delete n (owners_at B s ?k)) s"
    show ?thesis using hold unfolding e by (rule set_owners_holds[OF assms(1)]) (rule del)
  qed
next
  case (Visit keep j)
  then have "m_get B (blocks s) j = None \<and> holds_session B node sid s k \<or>
      holds_session B node sid (set_owners B j (kept keep (owners_at B s j)) s) k"
    using assms(3) by (auto simp: visit_block_eq split: if_splits)
  then show ?thesis using set_owners_holds[OF assms(1), of node sid j "kept keep (owners_at B s j)" s k]
    by (auto simp: kept_def)
next
  case (Scan keep)
  then show ?thesis using assms(3) by (auto simp: holds_session_def owners_at_retain[OF assms(1)] kept_def)
qed (use assms(3) in \<open>simp_all add: holds_session_def owners_at_def\<close>)

lemma owners_at_None: "m_get B (blocks s) k = None \<Longrightarrow> owners_at B s k = []"
  by (simp add: owners_at_def)

lemma owners_at_visit:
  "map_laws B \<Longrightarrow> owners_at B (visit_block B keep k s) j = (if j = k then kept keep (owners_at B s k) else owners_at B s j)"
  by (simp add: visit_block_eq owners_at_set_owners owners_at_None kept_def)

lemma own_visit_clears:
  assumes "map_laws B" and "session_of N s node \<noteq> Some sid"
  shows "\<not> holds_session B node sid (visit_block B (unregister_keep N node s) k s) k"
    and "holds_session B node sid (visit_block B (unregister_keep N node s) k s) j \<Longrightarrow> holds_session B node sid s j"
    and "session_of N (visit_block B (unregister_keep N node s) k s) = session_of N s"
proof -
  show "\<not> holds_session B node sid (visit_block B (unregister_keep N node s) k s) k"
    using assms(2)
    by (auto simp: holds_session_def owners_at_visit[OF assms(1)] kept_def unregister_keep_def session_matches_iff)
  show "holds_session B node sid (visit_block B (unregister_keep N node s) k s) j \<Longrightarrow> holds_session B node sid s j"
    using event_adds_no_session[OF assms, of "Visit (unregister_keep N node s) k" j] by simp
  show "session_of N (visit_block B (unregister_keep N node s) k s) = session_of N s"
    by (simp add: visit_block_eq session_of_def fun_eq_iff)
qed

lemma unregister_trace_clears:
  assumes "map_laws B" and "map_laws N"
  shows "session_of N s node \<noteq> Some sid \<Longrightarrow> \<forall>now. Inr (Beat now node sid) \<notin> set tr \<Longrightarrow>
    (\<And>k. holds_session B node sid s k \<Longrightarrow> Inl k \<in> set tr) \<Longrightarrow>
    \<not> holds_session B node sid (fold (unregister_step B N node) tr s) k"
proof (induction tr arbitrary: s)
  case (Cons e tr)
  let ?s = "unregister_step B N node e s"
  have "session_of N ?s node \<noteq> Some sid"
  proof (cases e)
    case (Inl k)
    then show ?thesis using Cons.prems(1) own_visit_clears(3)[OF assms(1) Cons.prems(1)] by (simp add: unregister_step_def)
  next
    case (Inr ev)
    then show ?thesis using Cons.prems(2) event_keeps_session_away[OF assms Cons.prems(1), of ev]
      by (auto simp: unregister_step_def)
  qed
  moreover have "Inl j \<in> set tr" if "holds_session B node sid ?s j" for j
    using that Cons.prems(3)[of j] own_visit_clears(1,2)[OF assms(1) Cons.prems(1)]
      event_adds_no_session[OF assms(1) Cons.prems(1)]
    by (cases e) (fastforce simp: unregister_step_def)+
  ultimately show ?case using Cons.IH[of ?s] Cons.prems(2) by simp
qed auto

text \<open>
  C22. Whatever other clients do between the node's removal and the end of the scan, as
  long as the same session does not register again and the scan visits every block that was
  stored when it began, the unregistered session owns no block afterwards.
\<close>

theorem unregister_leaves_no_owner:
  assumes "map_laws B" and "map_laws N"
    and "remove_node_entry N node sid s = (s1, Inr ())"
    and "\<forall>k. m_get B (blocks s1) k \<noteq> None \<longrightarrow> Inl k \<in> set tr"
    and "\<forall>now. Inr (Beat now node sid) \<notin> set tr"
    and "s2 = fold (unregister_step B N node) tr s1"
  shows "\<forall>k ow. (node, ow) \<in> set (owners_at B s2 k) \<longrightarrow> owner_session ow \<noteq> sid"
proof -
  have "session_of N s1 node \<noteq> Some sid"
    using assms(3) by (auto simp: remove_node_entry_def session_of_def map_lawsD[OF assms(2)] split: option.splits if_splits)
  moreover have "Inl k \<in> set tr" if "holds_session B node sid s1 k" for k
    using that assms(4) owners_at_None[of B s1 k] by (cases "m_get B (blocks s1) k") (auto simp: holds_session_def)
  ultimately have "\<not> holds_session B node sid s2 k" for k
    using unregister_trace_clears[OF assms(1,2), of s1 node sid tr k] assms(5,6) by blast
  then show ?thesis by (auto simp: holds_session_def)
qed

section \<open>Queries\<close>

definition live_owners ::
  "'b block_ops \<Rightarrow> 'n node_ops \<Rightarrow> instant \<Rightarrow> string \<Rightarrow> ('b, 'n) hash_store \<Rightarrow> block_hash \<Rightarrow> node_url set" where
  "live_owners B N now ns s h =
     {n. \<exists>ow r. (n, ow) \<in> set (owners_at B s \<lparr>namespace = ns, hash = h\<rparr>) \<and> m_get N (nodes s) n = Some r \<and>
          node_session r = owner_session ow \<and> now - last_seen r \<le> node_stale_after (store_cfg s)}"

lemma visible_iff:
  "is_owner_visible N s now n ow \<longleftrightarrow>
     (\<exists>r. m_get N (nodes s) n = Some r \<and> node_session r = owner_session ow \<and>
          now - last_seen r \<le> node_stale_after (store_cfg s))"
  by (simp add: is_owner_visible_def split: option.split)

lemma set_visible_nodes:
  "set (visible_nodes N now s (owners_at B s \<lparr>namespace = ns, hash = h\<rparr>)) = live_owners B N now ns s h"
  by (force simp: visible_nodes_def live_owners_def visible_iff)

definition store_look ::
  "'b block_ops \<Rightarrow> 'n node_ops \<Rightarrow> instant \<Rightarrow> string \<Rightarrow> ('b, 'n) hash_store \<Rightarrow> block_hash \<Rightarrow> prefix_entry option" where
  "store_look B N now ns s h =
     (let live = visible_nodes N now s (owners_at B s \<lparr>namespace = ns, hash = h\<rparr>)
      in if live = [] then None else Some \<lparr>pe_hash = h, pe_nodes = live\<rparr>)"

lemma query_prefix_map_while: "query_prefix B N now ns hs s = map_while (store_look B N now ns s) hs"
  by (induction hs) (auto simp: store_look_def owners_at_def visible_nodes_def Let_def split: option.splits)

lemma store_look_Some:
  "store_look B N now ns s h = Some e \<longleftrightarrow>
     visible_nodes N now s (owners_at B s \<lparr>namespace = ns, hash = h\<rparr>) \<noteq> [] \<and>
     e = \<lparr>pe_hash = h, pe_nodes = visible_nodes N now s (owners_at B s \<lparr>namespace = ns, hash = h\<rparr>)\<rparr>"
  unfolding store_look_def Let_def by auto

interpretation store_index: prefix_index "store_look B N now ns" "\<lambda>_. True"
  "\<lambda>s h e. pe_hash e = h \<and> set (pe_nodes e) = live_owners B N now ns s h \<and> pe_nodes e \<noteq> []" for B N now ns
  by unfold_locales (simp add: store_look_Some set_visible_nodes)

lemma store_look_None: "store_look B N now ns s h = None \<longleftrightarrow> live_owners B N now ns s h = {}"
  using set_visible_nodes[of N now s B ns h] unfolding store_look_def Let_def by auto

text \<open>
  A prefix query returns one entry for each hash of the longest prefix whose blocks
  all have a live owner, in order, and each entry names exactly the nodes whose current
  session stored the block and who reported within the staleness window.
\<close>

theorem query_prefix_exact:
  "length (query_prefix B N now ns hs s) \<le> length hs \<and>
   (\<forall>i < length (query_prefix B N now ns hs s).
      pe_hash (query_prefix B N now ns hs s ! i) = hs ! i \<and>
      set (pe_nodes (query_prefix B N now ns hs s ! i)) = live_owners B N now ns s (hs ! i) \<and>
      live_owners B N now ns s (hs ! i) \<noteq> {}) \<and>
   (length (query_prefix B N now ns hs s) < length hs \<longrightarrow>
      live_owners B N now ns s (hs ! length (query_prefix B N now ns hs s)) = {})"
  unfolding query_prefix_map_while
  using store_index.prefix_hits_guaranteed[where B = B and N = N and now = now and ns = ns and s = s and ks = hs]
    map_while_stops[of "store_look B N now ns s" hs] store_look_None[of B N now ns s]
  by (metis length_map_while_le set_empty)

section \<open>Reclaim hints\<close>

lemma live_owners_finite: "finite (live_owners B N now ns s h)"
  using set_visible_nodes[of N now s B ns h] by (metis List.finite_set)

lemma update_in_set: "n \<noteq> m \<Longrightarrow> (n, ow) \<in> set (AList.update m v os) \<longleftrightarrow> (n, ow) \<in> set os"
  by (induction os) auto

lemma update_self_in_set: "(m, v) \<in> set (AList.update m v os)"
  by (induction os) auto

lemma insert_hash_live_mono:
  assumes "map_laws B" and "insert_hash B N now' ns node sid s h = Inr (s', hint)"
  shows "live_owners B N now ns s g \<subseteq> live_owners B N now ns s' g"
proof
  fix n assume n: "n \<in> live_owners B N now ns s g"
  obtain r where r: "m_get N (nodes s) node = Some r" "node_session r = sid" using insert_hash_Inr(1)[OF assms(2)] by blast
  note s' = insert_hash_Inr(2)[OF assms(2)]
  show "n \<in> live_owners B N now ns s' g"
  proof (cases "n = node \<and> g = h")
    case True
    then show ?thesis using n r
      by (auto simp: live_owners_def s' owners_at_set_owners[OF assms(1)] intro: update_self_in_set)
  next
    case False
    then show ?thesis using n
      by (auto simp: live_owners_def s' owners_at_set_owners[OF assms(1)] update_in_set)
  qed
qed

lemma insert_hash_hint:
  assumes "map_laws B" and "table_inv B s" and "insert_hash B N now ns node sid s h = Inr (s', True)"
  shows "min_reclaimable_owner_count (store_cfg s) \<le> card (live_owners B N now ns s' h)"
proof -
  let ?k = "\<lparr>namespace = ns, hash = h\<rparr>"
  let ?os = "AList.update node \<lparr>owner_session = sid, key_register_time = now\<rparr> (owners_at B s ?k)"
  note s' = insert_hash_Inr(2)[OF assms(3)]
  have at: "owners_at B s' ?k = ?os" by (simp add: s' owners_at_set_owners[OF assms(1)])
  have "length (take (min_reclaimable_owner_count (store_cfg s)) (filter (\<lambda>(n, ow). is_owner_visible N s' now n ow) ?os)) =
      min_reclaimable_owner_count (store_cfg s)"
    using assms(3) s' by (auto simp: insert_hash_def owners_at_def Let_def split: option.splits if_splits)
  then have "min_reclaimable_owner_count (store_cfg s) \<le> length (visible_nodes N now s' (owners_at B s' ?k))"
    by (simp add: visible_nodes_def at)
  moreover have "distinct (visible_nodes N now s' (owners_at B s' ?k))"
    using distinct_update[OF table_inv_distinct[OF assms(2)]] by (simp add: visible_nodes_def at distinct_map_filter)
  ultimately show ?thesis by (metis distinct_card set_visible_nodes)
qed

lemma insert_loop_hints:
  assumes "map_laws B"
  shows "table_inv B s \<Longrightarrow> insert_loop B N now ns node sid s hs acc = (s', Inr hints) \<Longrightarrow>
    \<exists>new. hints = acc @ new \<and> set new \<subseteq> set hs \<and> store_cfg s' = store_cfg s \<and>
      (\<forall>g. live_owners B N now ns s g \<subseteq> live_owners B N now ns s' g) \<and>
      (\<forall>h \<in> set new. min_reclaimable_owner_count (store_cfg s) \<le> card (live_owners B N now ns s' h))"
proof (induction hs arbitrary: s acc)
  case (Cons h hs)
  obtain s1 hint where s1: "insert_hash B N now ns node sid s h = Inr (s1, hint)"
    using Cons.prems(2) by (auto split: sum.splits)
  let ?now = "if hint then [h] else []"
  have inv: "table_inv B s1" by (rule insert_hash_inv[OF assms Cons.prems(1) s1])
  have cfg: "store_cfg s1 = store_cfg s" by (simp add: insert_hash_Inr(2)[OF s1])
  obtain new where new: "hints = (if hint then acc @ [h] else acc) @ new" "set new \<subseteq> set hs"
      "store_cfg s' = store_cfg s1" "\<forall>g. live_owners B N now ns s1 g \<subseteq> live_owners B N now ns s' g"
      "\<forall>h \<in> set new. min_reclaimable_owner_count (store_cfg s1) \<le> card (live_owners B N now ns s' h)"
    using Cons.IH[OF inv, of "if hint then acc @ [h] else acc"] Cons.prems(2) s1 by auto
  have "min_reclaimable_owner_count (store_cfg s) \<le> card (live_owners B N now ns s' h)" if hint
  proof -
    have "insert_hash B N now ns node sid s h = Inr (s1, True)" using s1 that by simp
    from insert_hash_hint[OF assms Cons.prems(1) this]
    show ?thesis using card_mono[OF live_owners_finite, of "live_owners B N now ns s1 h" B N now ns s' h] new(4) by force
  qed
  then have "\<forall>g \<in> set (?now @ new). min_reclaimable_owner_count (store_cfg s) \<le> card (live_owners B N now ns s' g)"
    using new(5) cfg by auto
  moreover have "hints = acc @ ?now @ new" using new(1) by simp
  moreover have "set (?now @ new) \<subseteq> set (h # hs)" using new(2) by auto
  moreover have "live_owners B N now ns s g \<subseteq> live_owners B N now ns s' g" for g
    using insert_hash_live_mono[OF assms s1, of now g] new(4) by blast
  ultimately show ?case using new(3) cfg by metis
qed auto

text \<open>
  C24. A hash that \<open>insert_hashes\<close> reports as reclaimable was one of the inserted ones, and
  when the call returns its block has at least the configured number of live owners.
\<close>

theorem reclaim_hints_sound:
  assumes "map_laws B" and "table_inv B s"
    and "insert_hashes B N touched now ns hs node sid s = (s', Inr hints)"
  shows "set hints \<subseteq> set hs \<and>
    (\<forall>h \<in> set hints. min_reclaimable_owner_count (store_cfg s') \<le> card (live_owners B N now ns s' h))"
proof -
  obtain s1 r where s1: "touch_node_session N touched node sid s = (s1, r)" by fastforce
  have "table_inv B s1" using assms(2) s1 node_ops_tables(5,6)[of N touched node sid s] table_inv_cong by (metis fst_conv)
  moreover have "insert_loop B N now ns node sid s1 hs [] = (s', Inr hints)"
    using assms(3) s1 by (auto simp: insert_hashes_def split: sum.splits)
  ultimately show ?thesis using insert_loop_hints[OF assms(1)] by (metis append_Nil)
qed

section \<open>Roles\<close>

declare binary_search.simps [simp del]

lemma binary_search_iff:
  "sorted xs \<Longrightarrow> hi \<le> length xs \<Longrightarrow> binary_search xs x lo hi \<longleftrightarrow> (\<exists>i. lo \<le> i \<and> i < hi \<and> xs ! i = x)"
proof (induction xs x lo hi rule: binary_search.induct)
  case (1 xs x lo hi)
  show ?case
  proof (cases "hi \<le> lo")
    case False
    define mid where "mid = lo + (hi - lo) div 2"
    have mid: "lo \<le> mid" "mid < hi" using False by (auto simp: mid_def)
    have step: "binary_search xs x lo hi \<longleftrightarrow> xs ! mid = x \<or>
        (xs ! mid < x \<and> binary_search xs x (mid + 1) hi) \<or> (x < xs ! mid \<and> binary_search xs x lo mid)"
      using False by (subst binary_search.simps) (auto simp: mid_def[symmetric] Let_def)
    have mono: "xs ! i \<le> xs ! j" if "i \<le> j" "j < hi" for i j
      using that 1(3,4) by (intro sorted_nth_mono) auto
    consider "xs ! mid = x" | "xs ! mid < x" | "x < xs ! mid" by fastforce
    then show ?thesis
    proof cases
      case 2
      have "xs ! i \<noteq> x" if "i \<le> mid" for i using mono[OF that mid(2)] 2 by auto
      then have "lo \<le> i \<and> i < hi \<and> xs ! i = x \<longleftrightarrow> mid + 1 \<le> i \<and> i < hi \<and> xs ! i = x" for i
        using mid(1) by (cases "i \<le> mid") auto
      then show ?thesis using 2 step 1(1)[OF False mid_def] 1(3,4) by auto
    next
      case 3
      have "xs ! i \<noteq> x" if "mid \<le> i" "i < hi" for i using mono[OF that] 3 by auto
      then have "lo \<le> i \<and> i < hi \<and> xs ! i = x \<longleftrightarrow> lo \<le> i \<and> i < mid \<and> xs ! i = x" for i
        using mid(2) by (cases "mid \<le> i") auto
      then show ?thesis using 3 step 1(2)[OF False mid_def] 1(3,4) mid(2) by auto
    qed (use mid step in auto)
  qed (simp add: binary_search.simps)
qed

lemma role_fold:
  "sources (fold (role_step cfg delay now) items roles) = sources roles @
     map fst (filter (\<lambda>(_, r). now - last_seen r \<le> node_stale_after cfg \<and> idle_since r = None) items) \<and>
   targets (fold (role_step cfg delay now) items roles) = targets roles @
     map fst (filter (\<lambda>(_, r). now - last_seen r \<le> node_stale_after cfg \<and>
        (\<exists>since. idle_since r = Some since \<and> delay \<le> now - since)) items)"
  by (induction items arbitrary: roles) (auto split: option.splits)

lemma items_filter_fst:
  assumes "map_laws D"
  shows "n \<in> fst ` {x \<in> set (m_items D d). case x of (_, r) \<Rightarrow> P r} \<longleftrightarrow> (\<exists>r. m_get D d n = Some r \<and> P r)"
  by (auto simp: map_laws_items_set[OF assms, symmetric] image_iff)

text \<open>
  The backup roles: the sources are the live nodes with an instance, in order, and
  \<open>is_target\<close>, a binary search in the sorted targets, holds exactly for the live nodes that
  have reported no instance for at least the delay; no node has both roles.
\<close>

theorem node_roles_exact:
  assumes "map_laws N" and "roles = node_roles_of N delay now s"
  shows "sorted (sources roles) \<and>
    (n \<in> set (sources roles) \<longleftrightarrow> (\<exists>r. m_get N (nodes s) n = Some r \<and>
       now - last_seen r \<le> node_stale_after (store_cfg s) \<and> idle_since r = None)) \<and>
    (is_target roles n \<longleftrightarrow> (\<exists>r since. m_get N (nodes s) n = Some r \<and>
       now - last_seen r \<le> node_stale_after (store_cfg s) \<and> idle_since r = Some since \<and> delay \<le> now - since)) \<and>
    \<not> (n \<in> set (sources roles) \<and> is_target roles n)"
proof -
  have src: "n \<in> set (sources roles) \<longleftrightarrow> (\<exists>r. m_get N (nodes s) n = Some r \<and>
       now - last_seen r \<le> node_stale_after (store_cfg s) \<and> idle_since r = None)"
    unfolding assms(2) node_roles_of_def Let_def by (simp add: role_fold items_filter_fst[OF assms(1)])
  have "sorted (targets roles)" by (simp add: assms(2) node_roles_of_def Let_def)
  then have "is_target roles n \<longleftrightarrow> n \<in> set (targets roles)"
    by (auto simp: is_target_def binary_search_iff in_set_conv_nth)
  moreover have "n \<in> set (targets roles) \<longleftrightarrow> (\<exists>r since. m_get N (nodes s) n = Some r \<and>
       now - last_seen r \<le> node_stale_after (store_cfg s) \<and> idle_since r = Some since \<and> delay \<le> now - since)"
    unfolding assms(2) node_roles_of_def Let_def by (simp add: role_fold items_filter_fst[OF assms(1)])
  moreover have "sorted (sources roles)" by (simp add: assms(2) node_roles_of_def Let_def)
  ultimately show ?thesis using src by auto
qed

section \<open>Witnesses\<close>

lemma wstore_insert_hashes:
  "insert_hashes alist_map alist_map 0 1 ''m'' [[7]] ''a'' 1 wstore1 = (wstore, Inr [[7]])"
proof -
  have "touch_node_session alist_map 0 ''a'' 1 wstore1 = (wstore1, Inr ())"
    by (simp add: touch_node_session_def wstore1_def wnode_def)
  then show ?thesis using wstore_insert by (simp add: insert_hashes_def)
qed

lemma wstore_reach: "store_reach alist_map alist_map wconfig wstore"
proof -
  have "store_reach alist_map alist_map wconfig
      (fst (heartbeat_node alist_map 0 ''a'' 1 (with_config alist_map alist_map wconfig)))"
    by (intro sr_beat sr_new)
  then have "store_reach alist_map alist_map wconfig wstore1" by (simp add: wstore1_beat)
  then have "store_reach alist_map alist_map wconfig
      (fst (insert_hashes alist_map alist_map 0 1 ''m'' [[7]] ''a'' 1 wstore1))"
    by (rule sr_insert)
  then show ?thesis by (simp only: wstore_insert_hashes fst_conv)
qed

theorem sweep_skip_equivalent_witness:
  "store_view alist_map alist_map (fst (sweep_expired alist_map alist_map 50 wstore)) =
     store_view alist_map alist_map (fst (sweep_full alist_map alist_map 50 wstore)) \<and>
   length (owners_at alist_map wstore \<lparr>namespace = ''m'', hash = [7]\<rparr>) = 1"
proof -
  have "length (owners_at alist_map wstore \<lparr>namespace = ''m'', hash = [7]\<rparr>) = 1"
    by (simp add: owners_at_def wstore_def)
  then show ?thesis using sweep_skip_equivalent[OF alist_map_laws alist_map_laws wstore_reach, of 50] by blast
qed

theorem unregister_leaves_no_owner_witness:
  "{ow. (''a'', ow) \<in> set (owners_at alist_map
       (fold (unregister_step alist_map alist_map ''a'')
          [Inr (Beat 5 ''a'' 2), Inl \<lparr>namespace = ''m'', hash = [7]\<rparr>] (wstore\<lparr>nodes := []\<rparr>))
       \<lparr>namespace = ''m'', hash = [7]\<rparr>) \<and> owner_session ow = 1} = {}"
proof -
  let ?tr = "[Inr (Beat 5 ''a'' 2), Inl \<lparr>namespace = ''m'', hash = [7]\<rparr>]"
  have "remove_node_entry alist_map ''a'' 1 wstore = (wstore\<lparr>nodes := []\<rparr>, Inr ())"
    by (simp add: remove_node_entry_def wstore_def wnode_def)
  moreover have "\<forall>k. m_get alist_map (blocks (wstore\<lparr>nodes := []\<rparr>)) k \<noteq> None \<longrightarrow> Inl k \<in> set ?tr"
    by (simp add: wstore_def)
  moreover have "\<forall>now. Inr (Beat now ''a'' 1) \<notin> set ?tr" by simp
  ultimately show ?thesis
    using unregister_leaves_no_owner[OF alist_map_laws alist_map_laws _ _ _ refl, of "''a''" 1 wstore] by blast
qed

theorem query_prefix_exact_witness:
  "length (query_prefix alist_map alist_map 20 ''m'' [[7], [8]] wstore) = 1 \<and>
   live_owners alist_map alist_map 20 ''m'' wstore ([[7], [8]] ! 1) = {}"
proof -
  have "length (query_prefix alist_map alist_map 20 ''m'' [[7], [8]] wstore) = 1"
    by (simp add: wstore_def wnode_def wconfig_def visible_nodes_def is_owner_visible_def)
  then show ?thesis using query_prefix_exact[of alist_map alist_map 20 "''m''" "[[7], [8]]" wstore] by force
qed

theorem reclaim_hints_sound_witness:
  "1 \<le> card (live_owners alist_map alist_map 1 ''m'' wstore [7])"
proof -
  have "table_inv alist_map wstore1"
    using run_events_inv[OF alist_map_laws table_inv_new[OF alist_map_laws], of alist_map "[Beat 0 ''a'' 1]" alist_map wconfig]
      wstore1_beat by (simp add: run_events_def)
  from reclaim_hints_sound[OF alist_map_laws this wstore_insert_hashes] show ?thesis
    by (simp add: wstore_def wconfig_def)
qed

theorem node_roles_exact_witness:
  "is_target (node_roles_of alist_map 10 20 wstore) ''a'' \<and> ''a'' \<notin> set (sources (node_roles_of alist_map 10 20 wstore))"
  using node_roles_exact[OF alist_map_laws refl, of 10 20 wstore "''a''"]
  by (simp add: wstore_def wnode_def wconfig_def)

end
