(* ===== verification/Backup_Plan.thy ===== *)
theory Backup_Plan
  imports Meta_Queries "HOL-Library.Product_Lexorder" "HOL-Library.Multiset"
begin

text \<open>
  Decode-node backup planning (\<open>pegaflow-metaserver/src/backup.rs\<close>): the candidate snapshots of
  the source nodes, the batches handed to target nodes, and the pairing of sources with
  targets. The rendezvous scores come from the hasher of the standard library: they are the
  arguments \<open>node_score\<close> and \<open>block_score\<close>, arbitrary functions of a node and an item.
\<close>

section \<open>State\<close>

record queued_group =
  qg_namespace :: string
  qg_block_bytes :: u64
  qg_hashes :: "block_hash list"

record backup_candidates =
  bc_namespace :: string
  bc_hashes :: "block_hash list"
  bc_bytes :: u64

record planner_state =
  pl_candidates :: "(node_url \<times> queued_group list) list"
  pl_cursor :: "(node_url \<times> nat) list"

record backup_plan =
  plan_source :: node_url
  plan_namespace :: string
  plan_hashes :: "block_hash list"

definition planner_new :: planner_state where
  "planner_new = \<lparr>pl_candidates = [], pl_cursor = []\<rparr>"

definition default_target_delay_secs :: nat where "default_target_delay_secs = 180"

section \<open>Owners of a block\<close>

definition owner_roles ::
  "'b block_ops \<Rightarrow> 'n node_ops \<Rightarrow> instant \<Rightarrow> ('b, 'n) hash_store \<Rightarrow> node_roles \<Rightarrow> node_url \<Rightarrow> block_key \<Rightarrow> bool \<times> bool" where
  "owner_roles B N now st roles source k =
     fold (\<lambda>n (src, tgt). (src \<or> n = source, tgt \<or> is_target roles n)) (for_each_visible_owner B N now k st) (False, False)"

section \<open>Reports\<close>

fun report_groups ::
  "(string \<Rightarrow> block_hash \<Rightarrow> bool) \<Rightarrow> backup_candidates list \<Rightarrow> backup_candidates list \<times> queued_group list" where
  "report_groups backed_up [] = ([], [])"
| "report_groups backed_up (g # gs) =
     (let ns = bc_namespace g;
          completed = filter (backed_up ns) (bc_hashes g);
          keep = filter (Not \<circ> backed_up ns) (bc_hashes g);
          (backed, queued) = report_groups backed_up gs
      in (if completed = [] then backed
          else \<lparr>bc_namespace = ns, bc_hashes = completed, bc_bytes = bc_bytes g\<rparr> # backed,
          if keep = [] then queued
          else \<lparr>qg_namespace = ns, qg_block_bytes = bc_bytes g, qg_hashes = keep\<rparr> # queued))"

definition planner_report ::
  "'b block_ops \<Rightarrow> 'n node_ops \<Rightarrow> instant \<Rightarrow> ('b, 'n) hash_store \<Rightarrow> node_roles \<Rightarrow> node_url \<Rightarrow>
   backup_candidates list \<Rightarrow> planner_state \<Rightarrow> planner_state \<times> backup_candidates list" where
  "planner_report B N now st roles source groups p =
     (let (backed, queued) = report_groups
            (\<lambda>ns h. snd (owner_roles B N now st roles source \<lparr>namespace = ns, hash = h\<rparr>)) groups
      in (p\<lparr>pl_candidates := (if queued = [] then AList.delete source (pl_candidates p)
                             else AList.update source queued (pl_candidates p))\<rparr>, backed))"

definition forget_source :: "node_url \<Rightarrow> planner_state \<Rightarrow> planner_state" where
  "forget_source source p = p\<lparr>pl_candidates := AList.delete source (pl_candidates p)\<rparr>"

definition queued_candidates :: "planner_state \<Rightarrow> nat" where
  "queued_candidates p = sum_list (map (\<lambda>g. length (qg_hashes g)) (concat (map snd (pl_candidates p))))"

section \<open>Pairing\<close>

definition bin_with_room :: "(nat \<Rightarrow> u64) \<Rightarrow> nat \<Rightarrow> nat list list \<Rightarrow> nat option" where
  "bin_with_room score cap assigned =
     find (\<lambda>bin. length (assigned ! bin) < cap) (sort_key (\<lambda>bin. - uint (score bin)) [0..<length assigned])"

datatype pairing_panic = NoBinWithRoom

fun assign_items ::
  "(nat \<Rightarrow> nat \<Rightarrow> u64) \<Rightarrow> nat \<Rightarrow> nat list \<Rightarrow> nat list list \<Rightarrow> pairing_panic + nat list list" where
  "assign_items score cap [] assigned = Inr assigned"
| "assign_items score cap (item # items) assigned =
     (case bin_with_room (score item) cap assigned of
        None \<Rightarrow> Inl NoBinWithRoom
      | Some bin \<Rightarrow> assign_items score cap items (assigned[bin := assigned ! bin @ [item]]))"

definition empty_bin :: "nat list list \<Rightarrow> nat option" where
  "empty_bin assigned = find (\<lambda>bin. assigned ! bin = []) [0..<length assigned]"

definition donor_bin :: "nat list list \<Rightarrow> nat" where
  "donor_bin assigned =
     the (max_by_key (\<lambda>bin. (length (assigned ! bin), - int bin)) [0..<length assigned])"

definition donated :: "(nat \<Rightarrow> nat \<Rightarrow> u64) \<Rightarrow> nat list list \<Rightarrow> nat \<Rightarrow> nat \<Rightarrow> nat" where
  "donated score assigned donor e =
     the (max_by_key (\<lambda>pos. score (assigned ! donor ! pos) e) [0..<length (assigned ! donor)])"

definition move_item :: "nat list list \<Rightarrow> nat \<Rightarrow> nat \<Rightarrow> nat \<Rightarrow> nat list list" where
  "move_item assigned donor pos e =
     (let members = assigned ! donor; assigned = assigned[donor := take pos members @ drop (Suc pos) members]
      in assigned[e := assigned ! e @ [members ! pos]])"

lemma empty_bin_Some: "empty_bin a = Some e \<Longrightarrow> e < length a \<and> a ! e = []"
  by (auto simp: empty_bin_def find_Some_iff)

lemma donor_bin_max:
  assumes "a \<noteq> []"
  shows "donor_bin a < length a" "b < length a \<Longrightarrow> length (a ! b) \<le> length (a ! donor_bin a)"
proof -
  obtain d where d: "max_by_key (\<lambda>bin. (length (a ! bin), - int bin)) [0..<length a] = Some d"
    using assms by (cases "max_by_key (\<lambda>bin. (length (a ! bin), - int bin)) [0..<length a]") auto
  note m = max_by_key_Some[OF d]
  show "donor_bin a < length a" using m d by (simp add: donor_bin_def)
  show "length (a ! b) \<le> length (a ! donor_bin a)" if "b < length a"
  proof -
    have "(length (a ! b), - int b) \<le> (length (a ! d), - int d)" using m that by auto
    then show ?thesis using d by (auto simp: donor_bin_def)
  qed
qed

definition empties :: "nat list list \<Rightarrow> nat" where
  "empties a = card {i. i < length a \<and> a ! i = []}"

lemma move_item_nth:
  assumes "d < length a" and "e < length a" and "d \<noteq> e" and "i < length a"
  shows "move_item a d pos e ! i =
    (if i = d then take pos (a ! d) @ drop (Suc pos) (a ! d) else if i = e then a ! e @ [a ! d ! pos] else a ! i)"
  using assms by (simp add: move_item_def Let_def)

lemma length_move_item [simp]: "length (move_item a d pos e) = length a"
  by (simp add: move_item_def Let_def)

lemma move_item_empties:
  assumes "empty_bin a = Some e" and "1 < length (a ! d)" and "d < length a" and "pos < length (a ! d)"
  shows "empties (move_item a d pos e) < empties a"
proof -
  note e = empty_bin_Some[OF assms(1)]
  have de: "d \<noteq> e" using e assms(2) by auto
  have "take pos (a ! d) @ drop (Suc pos) (a ! d) \<noteq> []" using assms(2) by auto
  then have "{i. i < length (move_item a d pos e) \<and> move_item a d pos e ! i = []} \<subseteq> {i. i < length a \<and> a ! i = []} - {e}"
    using move_item_nth[OF assms(3) conjunct1[OF e] de] e by (auto split: if_splits)
  moreover have "e \<in> {i. i < length a \<and> a ! i = []}" using e by simp
  ultimately have "{i. i < length (move_item a d pos e) \<and> move_item a d pos e ! i = []} \<subset> {i. i < length a \<and> a ! i = []}"
    by blast
  then show ?thesis unfolding empties_def by (intro psubset_card_mono) auto
qed

lemma donated_in_range: "a ! d \<noteq> [] \<Longrightarrow> donated score a d e < length (a ! d)"
proof -
  assume ne: "a ! d \<noteq> []"
  obtain pos where pos: "max_by_key (\<lambda>pos. score (a ! d ! pos) e) [0..<length (a ! d)] = Some pos"
    using ne by (cases "max_by_key (\<lambda>pos. score (a ! d ! pos) e) [0..<length (a ! d)]") auto
  then show ?thesis using max_by_key_Some[OF pos] by (simp add: donated_def)
qed

function balance_bins :: "(nat \<Rightarrow> nat \<Rightarrow> u64) \<Rightarrow> nat list list \<Rightarrow> nat list list" where
  "balance_bins score a =
     (case empty_bin a of
        None \<Rightarrow> a
      | Some e \<Rightarrow>
          let d = donor_bin a in
          if length (a ! d) \<le> 1 then a
          else balance_bins score (move_item a d (donated score a d e) e))"
  by pat_completeness auto
termination
proof (relation "measure (\<lambda>(score, a). empties a)", simp)
  fix score a e d assume e: "empty_bin a = Some e" and d: "d = donor_bin a" and big: "\<not> length (a ! d) \<le> 1"
  have "a \<noteq> []" using empty_bin_Some[OF e] by auto
  moreover have "1 < length (a ! d)" "a ! d \<noteq> []" using big by auto
  ultimately show "((score, move_item a d (donated score a d e) e), score, a) \<in> measure (\<lambda>(score, a). empties a)"
    using move_item_empties[OF e _ _ donated_in_range] donor_bin_max(1)[of a] d by simp
qed

declare balance_bins.simps [simp del]

definition pairs_of :: "bool \<Rightarrow> node_url list \<Rightarrow> node_url list \<Rightarrow> nat list list \<Rightarrow> (node_url \<times> node_url) list" where
  "pairs_of sources_are_bins bins items a =
     concat (map (\<lambda>(bin, members). map (\<lambda>item. if sources_are_bins then (bins ! bin, items ! item)
                                               else (items ! item, bins ! bin)) members) (enumerate 0 a))"

definition pairing ::
  "(node_url \<Rightarrow> node_url \<Rightarrow> u64) \<Rightarrow> node_url list \<Rightarrow> node_url list \<Rightarrow> pairing_panic + (node_url \<times> node_url) list" where
  "pairing node_score srcs tgts =
     (if srcs = [] \<or> tgts = [] then Inr []
      else let sources_are_bins = (length srcs \<le> length tgts);
               (bins, items) = (if sources_are_bins then (srcs, tgts) else (tgts, srcs));
               score = (\<lambda>item bin. if sources_are_bins then node_score (bins ! bin) (items ! item)
                                   else node_score (items ! item) (bins ! bin));
               cap = div_ceil (length items) (length bins);
               sorted_items = sort_key (\<lambda>i. items ! i) [0..<length items]
           in bind_res (assign_items score cap sorted_items (replicate (length bins) [])) (\<lambda>a.
                Inr (sort (pairs_of sources_are_bins bins items (balance_bins score a)))))"

section \<open>Batches\<close>

text \<open>Which of a source's blocks one target may take.\<close>

definition shard_owns :: "(node_url \<Rightarrow> block_hash \<Rightarrow> u64) \<Rightarrow> node_url \<Rightarrow> node_url list \<Rightarrow> block_hash \<Rightarrow> bool" where
  "shard_owns block_score target peers h =
     (if length peers \<le> 1 then True
      else case max_by_key (\<lambda>peer. (block_score peer h, peer)) peers of
             None \<Rightarrow> False | Some winner \<Rightarrow> winner = target)"

fun scan_queue ::
  "(block_hash \<Rightarrow> bool) \<Rightarrow> (block_hash \<Rightarrow> bool \<times> bool) \<Rightarrow> u64 \<Rightarrow> u64 \<Rightarrow> block_hash list \<Rightarrow> block_hash list \<Rightarrow> bool \<Rightarrow>
   block_hash list \<times> block_hash list" where
  "scan_queue owns roles_of block_bytes max_bytes [] taken full = ([], taken)"
| "scan_queue owns roles_of block_bytes max_bytes (h # hs) taken full =
     (if full \<or> \<not> owns h
      then let (rest, t) = scan_queue owns roles_of block_bytes max_bytes hs taken full in (h # rest, t)
      else let (src, tgt) = roles_of h in
        if \<not> src \<or> tgt then scan_queue owns roles_of block_bytes max_bytes hs taken full
        else let bytes = saturating_mul block_bytes (of_nat (length taken)) in
          if taken \<noteq> [] \<and> saturating_add bytes block_bytes > max_bytes
          then let (rest, t) = scan_queue owns roles_of block_bytes max_bytes hs taken True in (h # rest, t)
          else scan_queue owns roles_of block_bytes max_bytes hs (taken @ [h]) full)"

fun scan_groups ::
  "(block_hash \<Rightarrow> bool) \<Rightarrow> (string \<Rightarrow> block_hash \<Rightarrow> bool \<times> bool) \<Rightarrow> u64 \<Rightarrow> queued_group list \<Rightarrow>
   queued_group list \<times> (string \<times> u64 \<times> block_hash list) option" where
  "scan_groups owns roles_of max_bytes [] = ([], None)"
| "scan_groups owns roles_of max_bytes (g # gs) =
     (let (rest, taken) = scan_queue owns (roles_of (qg_namespace g)) (qg_block_bytes g) max_bytes (qg_hashes g) [] False;
          g' = g\<lparr>qg_hashes := rest\<rparr>
      in if taken \<noteq> [] then (g' # gs, Some (qg_namespace g, qg_block_bytes g, taken))
         else let (gs', r) = scan_groups owns roles_of max_bytes gs in (g' # gs', r))"

definition take_batch ::
  "(block_hash \<Rightarrow> bool) \<Rightarrow> (string \<Rightarrow> block_hash \<Rightarrow> bool \<times> bool) \<Rightarrow> node_url \<Rightarrow> u64 \<Rightarrow> planner_state \<Rightarrow>
   planner_state \<times> (string \<times> u64 \<times> block_hash list) option" where
  "take_batch owns roles_of source max_bytes p =
     (case map_of (pl_candidates p) source of
        None \<Rightarrow> (p, None)
      | Some groups \<Rightarrow>
          let (gs, r) = scan_groups owns roles_of max_bytes groups;
              gs' = filter (\<lambda>g. qg_hashes g \<noteq> []) gs
          in (p\<lparr>pl_candidates := (if gs' = [] then AList.delete source (pl_candidates p)
                                 else AList.update source gs' (pl_candidates p))\<rparr>, r))"

text \<open>The sources of a target in the order one call tries them, from its cursor on.\<close>

fun plan_sources ::
  "(node_url \<Rightarrow> planner_state \<Rightarrow> planner_state \<times> (string \<times> u64 \<times> block_hash list) option) \<Rightarrow> node_url \<Rightarrow> node_url list \<Rightarrow>
   nat list \<Rightarrow> planner_state \<Rightarrow> planner_state \<times> backup_plan option" where
  "plan_sources batch target srcs [] p = (p, None)"
| "plan_sources batch target srcs (i # is) p =
     (case batch (srcs ! i) p of
        (p', None) \<Rightarrow> plan_sources batch target srcs is p'
      | (p', Some (ns, _, hs)) \<Rightarrow>
          (p'\<lparr>pl_cursor := AList.update target (i + 1) (pl_cursor p')\<rparr>,
           Some \<lparr>plan_source = srcs ! i, plan_namespace = ns, plan_hashes = hs\<rparr>))"

definition is_source :: "node_roles \<Rightarrow> node_url \<Rightarrow> bool" where
  "is_source roles node = binary_search (sources roles) node 0 (length (sources roles))"

definition planner_plan ::
  "'b block_ops \<Rightarrow> 'n node_ops \<Rightarrow> (node_url \<Rightarrow> node_url \<Rightarrow> u64) \<Rightarrow> (node_url \<Rightarrow> block_hash \<Rightarrow> u64) \<Rightarrow> instant \<Rightarrow>
   ('b, 'n) hash_store \<Rightarrow> node_roles \<Rightarrow> node_url \<Rightarrow> u64 \<Rightarrow> planner_state \<Rightarrow>
   pairing_panic + (planner_state \<times> backup_plan option)" where
  "planner_plan B N node_score block_score now st roles target max_bytes p =
     (let p = \<lparr>pl_candidates = filter (\<lambda>(s, _). is_source roles s) (pl_candidates p),
               pl_cursor = filter (\<lambda>(n, _). is_target roles n) (pl_cursor p)\<rparr> in
      if target \<notin> set (targets roles) then Inr (p, None)
      else bind_res (pairing node_score (sources roles) (targets roles)) (\<lambda>pairs.
        let srcs = map fst (filter (\<lambda>(_, t). t = target) pairs) in
        if srcs = [] then Inr (p, None)
        else let start = (case map_of (pl_cursor p) target of None \<Rightarrow> 0 | Some c \<Rightarrow> c);
                 peers = (\<lambda>s. map snd (filter (\<lambda>(s', _). s' = s) pairs));
                 batch = (\<lambda>s. take_batch (shard_owns block_score target (peers s))
                            (\<lambda>ns h. owner_roles B N now st roles s \<lparr>namespace = ns, hash = h\<rparr>) s max_bytes)
             in Inr (plan_sources batch target srcs
                       (map (\<lambda>off. (start + off) mod length srcs) [0..<length srcs]) p)))"

section \<open>Pairing covers both sides\<close>

lemma mset_concat_update:
  "i < length a \<Longrightarrow> mset (concat (a[i := x])) + mset (a ! i) = mset (concat a) + mset x"
proof (induction a arbitrary: i)
  case (Cons b a)
  then show ?case by (cases i) (auto simp: ac_simps)
qed simp

lemma mset_concat_push: "i < length a \<Longrightarrow> mset (concat (a[i := a ! i @ [x]])) = add_mset x (mset (concat a))"
  using mset_concat_update[of i a "a ! i @ [x]"] by simp

lemma mset_concat_move:
  assumes "d < length a" and "e < length a" and "d \<noteq> e" and "pos < length (a ! d)"
  shows "mset (concat (move_item a d pos e)) = mset (concat a)"
proof -
  let ?rest = "take pos (a ! d) @ drop (Suc pos) (a ! d)" and ?x = "a ! d ! pos"
  let ?b = "a[d := ?rest]"
  have "a ! d = take pos (a ! d) @ ?x # drop (Suc pos) (a ! d)" using assms(4) by (rule id_take_nth_drop)
  then have "mset (a ! d) = mset (take pos (a ! d) @ ?x # drop (Suc pos) (a ! d))" by (rule arg_cong)
  then have d: "mset (a ! d) = add_mset ?x (mset ?rest)" by simp
  have "mset (concat ?b) + mset (a ! d) = mset (concat a) + mset ?rest" by (rule mset_concat_update[OF assms(1)])
  then have "add_mset ?x (mset (concat ?b)) = mset (concat a)" unfolding d by simp
  moreover have "move_item a d pos e = ?b[e := ?b ! e @ [?x]]" by (simp add: move_item_def Let_def)
  ultimately show ?thesis using mset_concat_push[of e ?b ?x] assms(2) by simp
qed

definition loaded :: "nat \<Rightarrow> nat list list \<Rightarrow> bool" where
  "loaded cap a \<longleftrightarrow> (\<forall>m \<in> set a. length m \<le> cap)"

lemma loaded_length: "loaded cap a \<Longrightarrow> length (concat a) \<le> cap * length a"
  by (induction a) (auto simp: loaded_def)

lemma find_SomeD: "find P xs = Some x \<Longrightarrow> x \<in> set xs \<and> P x"
  by (auto simp: find_Some_iff)

lemma bin_with_room_exists:
  assumes "length (concat a) < cap * length a"
  shows "\<exists>b. bin_with_room score cap a = Some b \<and> b < length a \<and> length (a ! b) < cap"
proof -
  have "\<exists>b < length a. length (a ! b) < cap"
  proof (rule ccontr)
    assume "\<not> ?thesis"
    then have "\<forall>m \<in> set a. cap \<le> length m" by (metis in_set_conv_nth not_le)
    then have "cap * length a \<le> length (concat a)" by (induction a) auto
    then show False using assms by simp
  qed
  then have "bin_with_room score cap a \<noteq> None" by (auto simp: bin_with_room_def find_None_iff)
  then obtain b where b: "bin_with_room score cap a = Some b" by blast
  from find_SomeD[OF this[unfolded bin_with_room_def]] show ?thesis using b by simp
qed

lemma assign_items_ok:
  assumes "length items + length (concat a) \<le> cap * length a" and "loaded cap a"
  shows "\<exists>a'. assign_items score cap items a = Inr a' \<and> length a' = length a \<and> loaded cap a' \<and>
    mset (concat a') = mset (concat a) + mset items"
  using assms
proof (induction items arbitrary: a)
  case (Cons x items)
  obtain b where b: "bin_with_room (score x) cap a = Some b" "b < length a" "length (a ! b) < cap"
    using bin_with_room_exists[of a cap "score x"] Cons.prems(1) by auto
  let ?a = "a[b := a ! b @ [x]]"
  have ms: "mset (concat ?a) = add_mset x (mset (concat a))" by (rule mset_concat_push[OF b(2)])
  then have "length (concat ?a) = Suc (length (concat a))" by (metis size_add_mset size_mset)
  moreover have "loaded cap ?a" using Cons.prems(2) b(3) by (auto simp: loaded_def dest!: set_update_subset_insert[THEN subsetD])
  ultimately show ?case using Cons.IH[of ?a] Cons.prems(1) b(1) ms by auto
qed simp

lemma balance_ok:
  assumes "a \<noteq> []" and "loaded cap a" and "0 < cap"
  shows "length (balance_bins score a) = length a \<and> loaded cap (balance_bins score a) \<and>
    mset (concat (balance_bins score a)) = mset (concat a) \<and>
    (length a \<le> length (concat a) \<longrightarrow> [] \<notin> set (balance_bins score a))"
  using assms
proof (induction score a rule: balance_bins.induct)
  case (1 score a)
  show ?case
  proof (cases "empty_bin a")
    case None
    then have "[] \<notin> set a" by (auto simp: empty_bin_def find_None_iff in_set_conv_nth)
    then show ?thesis using None "1.prems" by (simp add: balance_bins.simps)
  next
    case (Some e)
    note e = empty_bin_Some[OF Some]
    define d where "d = donor_bin a"
    have d: "d < length a" "\<And>b. b < length a \<Longrightarrow> length (a ! b) \<le> length (a ! d)"
      using donor_bin_max[OF "1.prems"(1)] by (simp_all add: d_def)
    show ?thesis
    proof (cases "length (a ! d) \<le> 1")
      case True
      have "length (concat a) < length a"
      proof -
        have "\<forall>m \<in> set a. length m \<le> 1" using d(2) True by (fastforce simp: in_set_conv_nth)
        moreover have "[] \<in> set a" using e by (metis nth_mem)
        ultimately show ?thesis
        proof (induction a)
          case (Cons m a)
          show ?case
          proof (cases "m = []")
            case True
            have "loaded 1 a" using Cons.prems by (simp add: loaded_def)
            from loaded_length[OF this] show ?thesis using True by simp
          next
            case False
            then show ?thesis using Cons by (cases m) auto
          qed
        qed simp
      qed
      then show ?thesis using Some True "1.prems" by (simp add: balance_bins.simps d_def Let_def)
    next
      case False
      let ?pos = "donated score a d e"
      let ?a = "move_item a d ?pos e"
      have de: "d \<noteq> e" using e False by auto
      have pos: "?pos < length (a ! d)" using False by (intro donated_in_range) auto
      have step: "balance_bins score a = balance_bins score ?a"
        using Some False by (subst balance_bins.simps) (simp add: d_def Let_def)
      have ms: "mset (concat ?a) = mset (concat a)" by (rule mset_concat_move[OF d(1) conjunct1[OF e] de pos])
      then have len: "length (concat ?a) = length (concat a)" by (metis size_mset)
      have "length (?a ! i) \<le> cap" if "i < length a" for i
      proof -
        have "length (a ! i) \<le> cap" "length (a ! d) \<le> cap" using "1.prems"(2) that d(1) by (auto simp: loaded_def)
        then show ?thesis using move_item_nth[OF d(1) conjunct1[OF e] de that, of ?pos] e "1.prems"(3) by auto
      qed
      then have "loaded cap ?a" by (auto simp: loaded_def in_set_conv_nth)
      moreover have "?a \<noteq> []" using "1.prems"(1) by (metis length_0_conv length_move_item)
      ultimately show ?thesis using "1.IH"[OF Some d_def False] "1.prems"(3) step ms len by simp
    qed
  qed
qed

text \<open>The pairs of an assignment whose bins are all used, seen from the smaller and the larger side.\<close>

definition bin_pairs :: "node_url list \<Rightarrow> node_url list \<Rightarrow> nat list list \<Rightarrow> (node_url \<times> node_url) list" where
  "bin_pairs bins items a = pairs_of True bins items a"

lemma pairs_of_swap: "pairs_of False bins items a = map prod.swap (bin_pairs bins items a)"
  by (simp add: bin_pairs_def pairs_of_def map_concat case_prod_unfold comp_def)

lemma bin_pairs_iff:
  "(x, y) \<in> set (bin_pairs bins items a) \<longleftrightarrow> (\<exists>b < length a. \<exists>i \<in> set (a ! b). x = bins ! b \<and> y = items ! i)"
  by (force simp: bin_pairs_def pairs_of_def in_set_enumerate_eq)

lemma bin_pairs_snd: "map snd (bin_pairs bins items a) = map ((!) items) (concat a)"
proof -
  have "map snd (pairs_of True bins items a) = concat (map (map ((!) items)) (map snd (enumerate 0 a)))"
    unfolding pairs_of_def map_concat map_map by (intro arg_cong[where f = concat] map_cong) auto
  then show ?thesis by (simp only: bin_pairs_def map_snd_enumerate map_concat)
qed

lemma bin_pairs_cover:
  assumes len: "length a = length bins" and ms: "mset (concat a) = mset [0..<length items]"
    and load: "loaded cap a" and used: "[] \<notin> set a" and dist: "distinct bins" "distinct items"
  shows "fst ` set (bin_pairs bins items a) = set bins" "snd ` set (bin_pairs bins items a) = set items"
    "length (bin_pairs bins items a) = length items" "distinct (map snd (bin_pairs bins items a))"
    "length (filter (\<lambda>p. fst p = x) (bin_pairs bins items a)) \<le> cap"
proof -
  let ?ps = "bin_pairs bins items a"
  have idx: "set (concat a) = {0..<length items}" using mset_eq_setD[OF ms] by simp
  have "mset (map snd ?ps) = image_mset ((!) items) (mset (concat a))" by (simp add: bin_pairs_snd)
  also have "\<dots> = mset items" unfolding ms by (metis map_nth mset_map)
  finally have snds: "mset (map snd ?ps) = mset items" .
  show "length ?ps = length items" using mset_eq_length[OF snds] by simp
  show dsnd: "distinct (map snd ?ps)" using mset_eq_imp_distinct_iff[OF snds] dist(2) by simp
  show "snd ` set ?ps = set items" using mset_eq_setD[OF snds] by simp
  show "fst ` set ?ps = set bins"
  proof (intro equalityI subsetI)
    fix b assume "b \<in> fst ` set ?ps"
    then show "b \<in> set bins" using len by (auto simp: bin_pairs_iff)
  next
    fix x assume "x \<in> set bins"
    then obtain b where b: "b < length a" "x = bins ! b" using len by (metis in_set_conv_nth)
    then obtain i where "i \<in> set (a ! b)" using used by (metis list.set_intros(1) neq_Nil_conv nth_mem)
    then have "(x, items ! i) \<in> set ?ps" using b by (auto simp: bin_pairs_iff)
    then show "x \<in> fst ` set ?ps" by force
  qed
  have dps: "distinct ?ps" using dsnd by (simp add: distinct_map)
  show "length (filter (\<lambda>p. fst p = x) ?ps) \<le> cap"
  proof (cases "x \<in> set bins")
    case False
    then have "filter (\<lambda>p. fst p = x) ?ps = []" using len by (auto simp: filter_empty_conv bin_pairs_iff)
    then show ?thesis by simp
  next
    case True
    then obtain b where b: "b < length a" "x = bins ! b" using len by (metis in_set_conv_nth)
    have "length (filter (\<lambda>p. fst p = x) ?ps) = card {p \<in> set ?ps. fst p = x}"
      using dps by (metis distinct_card distinct_filter set_filter)
    also have "\<dots> \<le> card ((\<lambda>i. (x, items ! i)) ` set (a ! b))"
    proof (rule card_mono)
      show "{p \<in> set ?ps. fst p = x} \<subseteq> (\<lambda>i. (x, items ! i)) ` set (a ! b)"
        using b len dist(1) by (auto simp: bin_pairs_iff nth_eq_iff_index_eq)
    qed simp
    also have "\<dots> \<le> length (a ! b)" by (meson card_image_le card_length finite_set order_trans)
    also have "\<dots> \<le> cap" using load b(1) by (simp add: loaded_def)
    finally show ?thesis .
  qed
qed

lemma pairing_assignment:
  assumes "bins \<noteq> []" and "length bins \<le> length items" and "cap = div_ceil (length items) (length bins)"
  shows "\<exists>a. assign_items score cap (sort_key key [0..<length items]) (replicate (length bins) []) = Inr a \<and>
    length (balance_bins score a) = length bins \<and> loaded cap (balance_bins score a) \<and>
    mset (concat (balance_bins score a)) = mset [0..<length items] \<and> [] \<notin> set (balance_bins score a)"
proof -
  let ?e = "replicate (length bins) [] :: nat list list" and ?o = "sort_key key [0..<length items]"
  have "length items \<le> cap * length bins" unfolding assms(3) using assms(1) by (intro div_ceil_ge) simp
  then have "length ?o + length (concat ?e) \<le> cap * length ?e" by simp
  moreover have "loaded cap ?e" by (simp add: loaded_def)
  ultimately obtain a where a: "assign_items score cap ?o ?e = Inr a" "length a = length bins" "loaded cap a"
      "mset (concat a) = mset [0..<length items]"
    using assign_items_ok[of ?o ?e cap score] by auto
  have "0 < cap" unfolding assms(3) using assms(1,2) by (intro div_ceil_pos) auto
  moreover have "a \<noteq> []" using a(2) assms(1) by auto
  moreover have "length a \<le> length (concat a)" using mset_eq_length[OF a(4)] a(2) assms(2) by simp
  ultimately show ?thesis using balance_ok[of a cap score] a by auto
qed

lemma filter_once: "distinct (map f xs) \<Longrightarrow> length (filter (\<lambda>x. f x = y) xs) \<le> 1"
  by (induction xs) (auto simp: filter_empty_conv image_iff)

text \<open>
  C13. Backup pairing covers both sides with bounded load. For distinct source and target
  names, whatever the rendezvous scores, pairing returns without panic; every source and
  every target is paired, there are as many pairs as nodes on the larger side, and no source
  has more than its share of the targets nor a target more than its share of the sources.
\<close>

theorem pairing_covers:
  assumes "srcs \<noteq> []" and "tgts \<noteq> []" and "distinct srcs" and "distinct tgts"
  shows "\<exists>pairs. pairing node_score srcs tgts = Inr pairs \<and> sorted pairs \<and>
    fst ` set pairs = set srcs \<and> snd ` set pairs = set tgts \<and> length pairs = max (length srcs) (length tgts) \<and>
    length (filter (\<lambda>p. fst p = s) pairs) \<le> div_ceil (length tgts) (length srcs) \<and>
    length (filter (\<lambda>p. snd p = t) pairs) \<le> div_ceil (length srcs) (length tgts)"
proof -
  have pos: "1 \<le> div_ceil (length tgts) (length srcs)" "1 \<le> div_ceil (length srcs) (length tgts)"
    using div_ceil_pos[of "length srcs" "length tgts"] div_ceil_pos[of "length tgts" "length srcs"] assms(1,2)
    by (simp_all add: Suc_le_eq)
  show ?thesis
  proof (cases "length srcs \<le> length tgts")
    case True
    let ?cap = "div_ceil (length tgts) (length srcs)"
    let ?score = "\<lambda>i b. node_score (srcs ! b) (tgts ! i)"
    obtain a where a: "assign_items ?score ?cap (sort_key ((!) tgts) [0..<length tgts]) (replicate (length srcs) []) = Inr a"
        "length (balance_bins ?score a) = length srcs" "loaded ?cap (balance_bins ?score a)"
        "mset (concat (balance_bins ?score a)) = mset [0..<length tgts]" "[] \<notin> set (balance_bins ?score a)"
      using pairing_assignment[OF assms(1) True refl] by blast
    let ?ps = "bin_pairs srcs tgts (balance_bins ?score a)"
    note c = bin_pairs_cover[OF a(2,4,3,5) assms(3,4)]
    have "pairing node_score srcs tgts = Inr (sort ?ps)"
      using a(1) True assms(1,2) by (simp add: pairing_def bin_pairs_def)
    moreover have "length (filter (\<lambda>p. snd p = t) ?ps) \<le> div_ceil (length srcs) (length tgts)"
      using filter_once[OF c(4)] pos(2) by (rule le_trans)
    ultimately show ?thesis using c(1-3,5) True
      by (intro exI[of _ "sort ?ps"]) (auto simp: filter_sort max_def)
  next
    case False
    let ?cap = "div_ceil (length srcs) (length tgts)"
    let ?score = "\<lambda>i b. node_score (srcs ! i) (tgts ! b)"
    obtain a where a: "assign_items ?score ?cap (sort_key ((!) srcs) [0..<length srcs]) (replicate (length tgts) []) = Inr a"
        "length (balance_bins ?score a) = length tgts" "loaded ?cap (balance_bins ?score a)"
        "mset (concat (balance_bins ?score a)) = mset [0..<length srcs]" "[] \<notin> set (balance_bins ?score a)"
      using pairing_assignment[OF assms(2) _ refl, of srcs] False by fastforce
    let ?ps = "bin_pairs tgts srcs (balance_bins ?score a)"
    note c = bin_pairs_cover[OF a(2,4,3,5) assms(4,3)]
    have "pairing node_score srcs tgts = Inr (sort (map prod.swap ?ps))"
      using a(1) False assms(1,2) by (simp add: pairing_def pairs_of_swap)
    moreover have "length (filter (\<lambda>p. fst p = x) (map prod.swap ?ps)) = length (filter (\<lambda>p. snd p = x) ?ps)"
      "length (filter (\<lambda>p. snd p = x) (map prod.swap ?ps)) = length (filter (\<lambda>p. fst p = x) ?ps)" for x
      by (simp_all add: filter_map comp_def)
    moreover have "length (filter (\<lambda>p. snd p = s) ?ps) \<le> div_ceil (length tgts) (length srcs)"
      using filter_once[OF c(4)] pos(1) by (rule le_trans)
    ultimately show ?thesis using c(1-3,5) False
      by (intro exI[of _ "sort (map prod.swap ?ps)"]) (auto simp: filter_sort max_def image_image)
  qed
qed

section \<open>Plans\<close>

definition hashes_of :: "string \<Rightarrow> queued_group list \<Rightarrow> block_hash list" where
  "hashes_of ns gs = concat (map qg_hashes (filter (\<lambda>g. qg_namespace g = ns) gs))"

definition queued :: "planner_state \<Rightarrow> node_url \<Rightarrow> string \<Rightarrow> block_hash list" where
  "queued p source ns = (case map_of (pl_candidates p) source of None \<Rightarrow> [] | Some gs \<Rightarrow> hashes_of ns gs)"

definition within_budget :: "u64 \<Rightarrow> u64 \<Rightarrow> nat \<Rightarrow> bool" where
  "within_budget block_bytes max_bytes n \<longleftrightarrow>
     n \<le> 1 \<or> saturating_add (saturating_mul block_bytes (of_nat (n - 1))) block_bytes \<le> max_bytes"

definition dispatchable :: "(block_hash \<Rightarrow> bool) \<Rightarrow> (block_hash \<Rightarrow> bool \<times> bool) \<Rightarrow> block_hash \<Rightarrow> bool" where
  "dispatchable owns roles_of h \<longleftrightarrow> owns h \<and> fst (roles_of h) \<and> \<not> snd (roles_of h)"

lemma scan_queue_spec:
  "scan_queue owns rf bb mb hs taken full = (rest, t) \<Longrightarrow> within_budget bb mb (length taken) \<Longrightarrow>
   \<exists>new. t = taken @ new \<and> mset rest + mset new \<subseteq># mset hs \<and> (\<forall>h \<in> set new. dispatchable owns rf h) \<and>
     within_budget bb mb (length t)"
proof (induction hs arbitrary: taken full rest)
  case (Cons h hs)
  obtain src tgt where r: "rf h = (src, tgt)" by (cases "rf h")
  let ?over = "taken \<noteq> [] \<and> saturating_add (saturating_mul bb (of_nat (length taken))) bb > mb"
  consider (skip) full' where "scan_queue owns rf bb mb hs taken full' = (tl rest, t)" "rest = h # tl rest"
    | (drop) "scan_queue owns rf bb mb hs taken full = (rest, t)"
    | (take) "scan_queue owns rf bb mb hs (taken @ [h]) full = (rest, t)" "dispatchable owns rf h" "\<not> ?over"
    using Cons.prems(1) r
    by (auto simp: dispatchable_def Let_def split: if_splits prod.splits)
  then show ?case
  proof cases
    case skip
    from Cons.IH[OF skip(1) Cons.prems(2)] obtain new where
      n: "t = taken @ new" "mset (tl rest) + mset new \<subseteq># mset hs" "\<forall>h \<in> set new. dispatchable owns rf h"
        "within_budget bb mb (length t)" by blast
    have "mset rest = add_mset h (mset (tl rest))" using skip(2) by (metis mset.simps(2))
    then show ?thesis using n by (intro exI[of _ new]) simp
  next
    case drop
    from Cons.IH[OF drop Cons.prems(2)] obtain new where
      n: "t = taken @ new" "mset rest + mset new \<subseteq># mset hs" "\<forall>h \<in> set new. dispatchable owns rf h"
        "within_budget bb mb (length t)" by blast
    have "mset hs \<subseteq># mset (h # hs)" by simp
    from subset_mset.order_trans[OF n(2) this] show ?thesis using n by (intro exI[of _ new]) simp
  next
    case take
    have "within_budget bb mb (length (taken @ [h]))" using take(3) by (auto simp: within_budget_def not_less)
    from Cons.IH[OF take(1) this] obtain new where
      n: "t = (taken @ [h]) @ new" "mset rest + mset new \<subseteq># mset hs" "\<forall>h \<in> set new. dispatchable owns rf h"
        "within_budget bb mb (length t)" by blast
    then show ?thesis using take(2) by (intro exI[of _ "h # new"]) auto
  qed
qed simp

lemma hashes_of_Cons: "hashes_of ns (g # gs) = (if qg_namespace g = ns then qg_hashes g else []) @ hashes_of ns gs"
  by (simp add: hashes_of_def)

definition handed :: "(string \<times> u64 \<times> block_hash list) option \<Rightarrow> string \<Rightarrow> block_hash multiset" where
  "handed r n = (case r of None \<Rightarrow> {#} | Some (ns, bb, t) \<Rightarrow> if n = ns then mset t else {#})"

lemma handed_simps [simp]: "handed None n = {#}" "handed (Some (ns, bb, t)) n = (if n = ns then mset t else {#})"
  by (simp_all add: handed_def)

lemma scan_groups_spec:
  "scan_groups owns rf mb gs = (gs', r) \<Longrightarrow>
   (\<forall>n. mset (hashes_of n gs') + handed r n \<subseteq># mset (hashes_of n gs)) \<and>
   (\<forall>ns bb t. r = Some (ns, bb, t) \<longrightarrow> t \<noteq> [] \<and> (\<forall>h \<in> set t. dispatchable owns (rf ns) h) \<and> within_budget bb mb (length t))"
proof (induction gs arbitrary: gs' r)
  case (Cons g gs)
  obtain rest t where q: "scan_queue owns (rf (qg_namespace g)) (qg_block_bytes g) mb (qg_hashes g) [] False = (rest, t)"
    by (cases "scan_queue owns (rf (qg_namespace g)) (qg_block_bytes g) mb (qg_hashes g) [] False")
  have "within_budget (qg_block_bytes g) mb (length ([] :: block_hash list))" by (simp add: within_budget_def)
  from scan_queue_spec[OF q this] have t: "mset rest + mset t \<subseteq># mset (qg_hashes g)"
      "\<forall>h \<in> set t. dispatchable owns (rf (qg_namespace g)) h" "within_budget (qg_block_bytes g) mb (length t)" by auto
  show ?case
  proof (cases "t = []")
    case False
    then have "gs' = g\<lparr>qg_hashes := rest\<rparr> # gs" "r = Some (qg_namespace g, qg_block_bytes g, t)" using Cons.prems q by auto
    then show ?thesis using t False by (auto simp: hashes_of_Cons)
  next
    case True
    obtain gs2 r2 where rec: "scan_groups owns rf mb gs = (gs2, r2)" by (cases "scan_groups owns rf mb gs")
    then have e: "gs' = g\<lparr>qg_hashes := rest\<rparr> # gs2" "r = r2" using Cons.prems q True by auto
    have "mset rest \<subseteq># mset (qg_hashes g)" using t(1) True by simp
    then show ?thesis using Cons.IH[OF rec] unfolding e
      by (auto simp: hashes_of_Cons add.assoc intro: subset_mset.add_mono)
  qed
qed (simp add: hashes_of_def)

lemma hashes_of_nonempty [simp]: "hashes_of ns (filter (\<lambda>g. qg_hashes g \<noteq> []) gs) = hashes_of ns gs"
  by (induction gs) (auto simp: hashes_of_def)

lemma take_batch_spec:
  assumes "take_batch owns rf source mb p = (p', r)"
  shows "(\<forall>s n. mset (queued p' s n) + (if s = source then handed r n else {#}) \<subseteq># mset (queued p s n)) \<and>
    (\<forall>ns bb t. r = Some (ns, bb, t) \<longrightarrow> t \<noteq> [] \<and> (\<forall>h \<in> set t. dispatchable owns (rf ns) h) \<and> within_budget bb mb (length t))"
proof (cases "map_of (pl_candidates p) source")
  case None
  then show ?thesis using assms by (auto simp: take_batch_def)
next
  case (Some groups)
  obtain gs r2 where g: "scan_groups owns rf mb groups = (gs, r2)" by (cases "scan_groups owns rf mb groups")
  let ?gs = "filter (\<lambda>g. qg_hashes g \<noteq> []) gs"
  have e: "r = r2" "pl_candidates p' =
      (if ?gs = [] then AList.delete source (pl_candidates p) else AList.update source ?gs (pl_candidates p))"
    using assms Some g by (auto simp: take_batch_def Let_def)
  have "?gs = [] \<Longrightarrow> hashes_of n gs = []" for n using hashes_of_nonempty[of n gs] by (simp add: hashes_of_def)
  then have mine: "queued p' source n = hashes_of n gs" for n
    using e(2) by (auto simp: queued_def delete_conv' update_conv')
  have others: "queued p' s n = queued p s n" if "s \<noteq> source" for s n
    using e(2) that by (auto simp: queued_def delete_conv' update_conv')
  have old: "queued p source n = hashes_of n groups" for n using Some by (simp add: queued_def)
  note spec = scan_groups_spec[OF g]
  have "mset (queued p' s n) + (if s = source then handed r n else {#}) \<subseteq># mset (queued p s n)" for s n
    using spec others mine old e(1) by (cases "s = source") simp_all
  then show ?thesis using spec e(1) by blast
qed

lemma plan_sources_spec:
  assumes batch: "\<And>s p p' r. batch s p = (p', r) \<Longrightarrow>
      (\<forall>s' n. mset (queued p' s' n) + (if s' = s then handed r n else {#}) \<subseteq># mset (queued p s' n)) \<and>
      (\<forall>ns bb t. r = Some (ns, bb, t) \<longrightarrow> t \<noteq> [] \<and> ok s ns t)"
    and "\<forall>i \<in> set is. i < length srcs" and "plan_sources batch target srcs is p = (p', Some plan)"
  shows "plan_source plan \<in> set srcs \<and> plan_hashes plan \<noteq> [] \<and> ok (plan_source plan) (plan_namespace plan) (plan_hashes plan) \<and>
    (\<forall>s n. mset (queued p' s n) + (if s = plan_source plan \<and> n = plan_namespace plan then mset (plan_hashes plan) else {#})
       \<subseteq># mset (queued p s n))"
  using assms(2,3)
proof (induction "is" arbitrary: p)
  case (Cons i "is")
  obtain p1 r where b: "batch (srcs ! i) p = (p1, r)" by (cases "batch (srcs ! i) p")
  note spec = batch[OF b]
  show ?case
  proof (cases r)
    case None
    then have "plan_sources batch target srcs is p1 = (p', Some plan)" using Cons.prems(2) b by simp
    from Cons.IH[OF _ this] Cons.prems(1) have
      ih: "plan_source plan \<in> set srcs" "plan_hashes plan \<noteq> []" "ok (plan_source plan) (plan_namespace plan) (plan_hashes plan)"
        "mset (queued p' s n) + (if s = plan_source plan \<and> n = plan_namespace plan then mset (plan_hashes plan) else {#})
          \<subseteq># mset (queued p1 s n)" for s n by auto
    moreover have "mset (queued p1 s n) \<subseteq># mset (queued p s n)" for s n
      using conjunct1[OF spec, rule_format, of s n] None by (cases "s = srcs ! i") simp_all
    ultimately show ?thesis by (meson subset_mset.order_trans)
  next
    case (Some x)
    then obtain ns bb hs where r: "r = Some (ns, bb, hs)" by (cases x) auto
    then have e: "p' = p1\<lparr>pl_cursor := AList.update target (i + 1) (pl_cursor p1)\<rparr>"
        "plan = \<lparr>plan_source = srcs ! i, plan_namespace = ns, plan_hashes = hs\<rparr>"
      using Cons.prems(2) b by auto
    have "queued p' s n = queued p1 s n" for s n unfolding e(1) by (simp add: queued_def)
    then have "mset (queued p' s n) + (if s = plan_source plan \<and> n = plan_namespace plan then mset (plan_hashes plan) else {#})
       \<subseteq># mset (queued p s n)" for s n
      using conjunct1[OF spec, rule_format, of s n] unfolding e(2) r
      by (cases "s = srcs ! i"; cases "n = ns") simp_all
    then show ?thesis using spec r e(2) Cons.prems(1) by auto
  qed
qed simp

lemma map_of_filter_keys: "map_of (filter (\<lambda>(k, _). P k) xs) k = (if P k then map_of xs k else None)"
  by (induction xs) auto

lemma owner_roles_iff:
  "owner_roles B N now st roles source k =
     (source \<in> set (for_each_visible_owner B N now k st), \<exists>n \<in> set (for_each_visible_owner B N now k st). is_target roles n)"
proof -
  have "fold (\<lambda>n (src, tgt). (src \<or> n = source, tgt \<or> is_target roles n)) ns (a, b) =
    (a \<or> source \<in> set ns, b \<or> (\<exists>n \<in> set ns. is_target roles n))" for ns a b
    by (induction ns arbitrary: a b) auto
  then show ?thesis by (simp add: owner_roles_def)
qed

definition peers_of :: "(node_url \<times> node_url) list \<Rightarrow> node_url \<Rightarrow> node_url list" where
  "peers_of pairs s = map snd (filter (\<lambda>(s', _). s' = s) pairs)"

lemma planner_plan_parts:
  assumes "planner_plan B N node_score block_score now st roles target mb p = Inr (p', Some plan)"
  shows "\<exists>pairs. pairing node_score (sources roles) (targets roles) = Inr pairs \<and>
    (plan_source plan, target) \<in> set pairs \<and> target \<in> set (targets roles) \<and> plan_hashes plan \<noteq> [] \<and>
    (\<forall>h \<in> set (plan_hashes plan). dispatchable (shard_owns block_score target (peers_of pairs (plan_source plan)))
       (\<lambda>h. owner_roles B N now st roles (plan_source plan) \<lparr>namespace = plan_namespace plan, hash = h\<rparr>) h) \<and>
    (\<forall>s n. mset (queued p' s n) + (if s = plan_source plan \<and> n = plan_namespace plan then mset (plan_hashes plan) else {#})
       \<subseteq># mset (queued p s n))"
proof -
  let ?p = "\<lparr>pl_candidates = filter (\<lambda>(s, _). is_source roles s) (pl_candidates p),
    pl_cursor = filter (\<lambda>(n, _). is_target roles n) (pl_cursor p)\<rparr>"
  have t: "target \<in> set (targets roles)"
    using assms by (auto simp: planner_plan_def Let_def split: if_splits)
  then obtain pairs where pairs: "pairing node_score (sources roles) (targets roles) = Inr pairs"
    using assms by (auto simp: planner_plan_def Let_def res_simps)
  define srcs where "srcs = map fst (filter (\<lambda>(_, t). t = target) pairs)"
  define batch where "batch = (\<lambda>s. take_batch (shard_owns block_score target (peers_of pairs s))
      (\<lambda>ns h. owner_roles B N now st roles s \<lparr>namespace = ns, hash = h\<rparr>) s mb)"
  define ok where "ok = (\<lambda>s ns t. \<forall>h \<in> set t. dispatchable (shard_owns block_score target (peers_of pairs s))
      (\<lambda>h. owner_roles B N now st roles s \<lparr>namespace = ns, hash = h\<rparr>) h)"
  have "\<exists>start. plan_sources batch target srcs (map (\<lambda>off. (start + off) mod length srcs) [0..<length srcs]) ?p =
      (p', Some plan) \<and> srcs \<noteq> []"
    using assms t pairs unfolding planner_plan_def batch_def srcs_def peers_of_def Let_def
    by (auto split: if_splits)
  then obtain start where run: "plan_sources batch target srcs (map (\<lambda>off. (start + off) mod length srcs) [0..<length srcs]) ?p =
      (p', Some plan)" and ne: "srcs \<noteq> []" by blast
  have spec: "(\<forall>s' n. mset (queued p2 s' n) + (if s' = s then handed r n else {#}) \<subseteq># mset (queued p1 s' n)) \<and>
      (\<forall>ns bb t. r = Some (ns, bb, t) \<longrightarrow> t \<noteq> [] \<and> ok s ns t)" if "batch s p1 = (p2, r)" for s p1 p2 r
    using take_batch_spec[OF that[unfolded batch_def]] unfolding ok_def by blast
  have range: "\<forall>i \<in> set (map (\<lambda>off. (start + off) mod length srcs) [0..<length srcs]). i < length srcs" using ne by auto
  from plan_sources_spec[OF spec range run]
  have r: "plan_source plan \<in> set srcs" "plan_hashes plan \<noteq> []" "ok (plan_source plan) (plan_namespace plan) (plan_hashes plan)"
    "\<And>s n. mset (queued p' s n) + (if s = plan_source plan \<and> n = plan_namespace plan then mset (plan_hashes plan) else {#})
       \<subseteq># mset (queued ?p s n)" by blast+
  have "mset (queued ?p s n) \<subseteq># mset (queued p s n)" for s n by (simp add: queued_def map_of_filter_keys)
  then have "mset (queued p' s n) + (if s = plan_source plan \<and> n = plan_namespace plan then mset (plan_hashes plan) else {#})
       \<subseteq># mset (queued p s n)" for s n using r(4) by (rule subset_mset.order_trans[rotated])
  moreover have "(plan_source plan, target) \<in> set pairs" using r(1) by (auto simp: srcs_def)
  ultimately show ?thesis using pairs t r(2,3) unfolding ok_def by blast
qed

lemma shard_winner:
  assumes "shard_owns block_score t peers h" and "t' \<in> set peers" and "t \<in> set peers" and "t' \<noteq> t"
  shows "\<not> shard_owns block_score t' peers h"
proof -
  have "\<not> length peers \<le> 1" using assms(2-4) by (cases peers rule: remdups_adj.cases) auto
  then show ?thesis using assms(1,4) by (auto simp: shard_owns_def split: option.splits)
qed


section \<open>Witnesses\<close>

theorem pairing_covers_witness:
  "\<exists>pairs. pairing (\<lambda>_ _. 0) [''p''] [''d'', ''e''] = Inr pairs \<and> snd ` set pairs = {''d'', ''e''} \<and> length pairs = 2"
  using pairing_covers[of "[''p'']" "[''d'', ''e'']" "\<lambda>_ _. 0"] by fastforce

definition wowner_store :: "((block_key \<times> owners) list, (node_url \<times> node_record) list) hash_store" where
  "wowner_store = \<lparr>blocks = [(\<lparr>namespace = ''m'', hash = [7]\<rparr>, [(''p'', \<lparr>owner_session = 1, key_register_time = 0\<rparr>)])],
     nodes = [(''p'', \<lparr>node_session = 1, last_seen = 0, idle_since = None\<rparr>),
              (''d'', \<lparr>node_session = 2, last_seen = 0, idle_since = Some 0\<rparr>)],
     store_cfg = default_store_config 1, reconcile_needed = False,
     redundancy = \<lparr>keys_1 = 1, keys_2 = 0, keys_3 = 0, keys_4plus = 0, copies = 1\<rparr>\<rparr>"

definition wroles :: node_roles where
  "wroles = \<lparr>sources = [''p''], targets = [''d'']\<rparr>"

definition wplanner :: planner_state where
  "wplanner = \<lparr>pl_candidates = [(''p'', [\<lparr>qg_namespace = ''m'', qg_block_bytes = 10, qg_hashes = [[7]]\<rparr>])], pl_cursor = []\<rparr>"

lemma wpairing: "pairing (\<lambda>_ _. 0) [''p''] [''d''] = Inr [(''p'', ''d'')]"
  by (simp add: pairing_def div_ceil_def bin_with_room_def balance_bins.simps empty_bin_def pairs_of_def enumerate_simps)

lemma wvisible:
  "for_each_visible_owner alist_map alist_map 5 \<lparr>namespace = ''m'', hash = [7]\<rparr> wowner_store = [''p'']"
  by (simp add: for_each_visible_owner_def visible_nodes_def is_owner_visible_def wowner_store_def default_store_config_def)

lemma wplan:
  "planner_plan alist_map alist_map (\<lambda>_ _. 0) (\<lambda>_ _. 0) 5 wowner_store wroles ''d'' 100 wplanner =
     Inr (\<lparr>pl_candidates = [], pl_cursor = [(''d'', 1)]\<rparr>,
          Some \<lparr>plan_source = ''p'', plan_namespace = ''m'', plan_hashes = [[7]]\<rparr>)"
  by (simp add: planner_plan_def wroles_def wplanner_def wpairing is_source_def is_target_def binary_search.simps
      take_batch_def shard_owns_def owner_roles_iff wvisible)


end
