(* ===== verification/Meta_Service.thy ===== *)
theory Meta_Service
  imports Backup_Plan
begin

text \<open>
  The MetaServer's RPC handlers (\<open>pegaflow-metaserver/src/service.rs\<close>) over the block-hash store
  and the backup planner, and the plan of remote fetches a prefix query returns. Parsing a
  node id is the \<open>uuid\<close> crate's: it is the argument \<open>parse\<close>. Each handler reads the clock
  where the code does; a handler is given the instants it reads.
\<close>

section \<open>Fetch plans\<close>

record fetch_segment =
  seg_node :: node_url
  seg_count :: nat

definition run_length :: "node_url \<Rightarrow> prefix_entry list \<Rightarrow> nat" where
  "run_length node es = length (takeWhile (\<lambda>e. node \<in> set (pe_nodes e)) es)"

definition better :: "node_url \<Rightarrow> nat \<Rightarrow> (node_url \<times> nat) option \<Rightarrow> bool" where
  "better candidate e best =
     (case best of None \<Rightarrow> True
      | Some (best_node, best_end) \<Rightarrow> e > best_end \<or> (e = best_end \<and> candidate < best_node))"

fun pick_owner ::
  "node_url \<Rightarrow> prefix_entry list \<Rightarrow> nat \<Rightarrow> node_url list \<Rightarrow> (node_url \<times> nat) option \<Rightarrow> (node_url \<times> nat) option" where
  "pick_owner exclude es offset [] best = best"
| "pick_owner exclude es offset (c # cs) best =
     (if c = exclude then pick_owner exclude es offset cs best
      else let e = run_length c (drop offset es) + offset
           in pick_owner exclude es offset cs (if better c e best then Some (c, e) else best))"

definition best_owner :: "node_url \<Rightarrow> prefix_entry list \<Rightarrow> nat \<Rightarrow> (node_url \<times> nat) option" where
  "best_owner exclude es offset = pick_owner exclude es offset (pe_nodes (es ! offset)) None"

lemma pick_owner_spec:
  "pick_owner ex es off cs best = r \<Longrightarrow>
   (r = best \<or> (\<exists>c \<in> set cs. c \<noteq> ex \<and> r = Some (c, run_length c (drop off es) + off))) \<and>
   (\<forall>c \<in> set cs. c \<noteq> ex \<longrightarrow> (\<exists>n e. r = Some (n, e) \<and> run_length c (drop off es) + off \<le> e)) \<and>
   (\<forall>n e. best = Some (n, e) \<longrightarrow> (\<exists>n' e'. r = Some (n', e') \<and> e \<le> e'))"
proof (induction cs arbitrary: best)
  case (Cons c cs)
  let ?e = "run_length c (drop off es) + off"
  show ?case
  proof (cases "c = ex")
    case True
    then show ?thesis using Cons by auto
  next
    case False
    let ?b = "if better c ?e best then Some (c, ?e) else best"
    have r: "pick_owner ex es off cs ?b = r" using Cons.prems False by (simp add: Let_def)
    have "\<exists>n e. ?b = Some (n, e) \<and> ?e \<le> e" "\<And>n e. best = Some (n, e) \<Longrightarrow> \<exists>n' e'. ?b = Some (n', e') \<and> e \<le> e'"
      by (auto simp: better_def split: option.splits)
    then show ?thesis using Cons.IH[OF r] False by (auto split: if_splits)
  qed
qed simp

lemma best_owner_advances:
  assumes "off < length es" and "best_owner ex es off = Some (n, e)"
  shows "n \<noteq> ex \<and> off < e \<and> e = off + run_length n (drop off es)"
proof -
  have n: "n \<in> set (pe_nodes (es ! off))" "n \<noteq> ex" "e = run_length n (drop off es) + off"
    using pick_owner_spec[OF assms(2)[unfolded best_owner_def]] by auto
  have "drop off es = es ! off # drop (Suc off) es" using assms(1) by (simp add: Cons_nth_drop_Suc)
  then have "0 < run_length n (drop off es)" using n(1) by (simp add: run_length_def)
  then show ?thesis using n by simp
qed

datatype plan_error = SegmentTooLong

function plan_from :: "node_url \<Rightarrow> prefix_entry list \<Rightarrow> nat \<Rightarrow> plan_error + fetch_segment list" where
  "plan_from exclude es offset =
     (if offset < length es then
        case best_owner exclude es offset of
          None \<Rightarrow> Inr []
        | Some (node, e) \<Rightarrow>
            if e - offset < 2 ^ 32
            then (case plan_from exclude es e of Inl err \<Rightarrow> Inl err
                  | Inr segs \<Rightarrow> Inr (\<lparr>seg_node = node, seg_count = e - offset\<rparr> # segs))
            else Inl SegmentTooLong
      else Inr [])"
  by pat_completeness auto
termination
  by (relation "measure (\<lambda>(ex, es, off). length es - off)") (auto dest: best_owner_advances[rotated])

declare plan_from.simps [simp del]

definition plan_fetch_segments :: "prefix_entry list \<Rightarrow> node_url \<Rightarrow> plan_error + fetch_segment list" where
  "plan_fetch_segments es exclude = plan_from exclude es 0"

subsection \<open>What a plan must do, and that this one is shortest\<close>

fun serves :: "node_url \<Rightarrow> prefix_entry list \<Rightarrow> fetch_segment list \<Rightarrow> bool" where
  "serves ex es [] = True"
| "serves ex es (s # ss) =
     (seg_node s \<noteq> ex \<and> 0 < seg_count s \<and> seg_count s \<le> length es \<and>
      (\<forall>e \<in> set (take (seg_count s) es). seg_node s \<in> set (pe_nodes e)) \<and> serves ex (drop (seg_count s) es) ss)"

definition served :: "fetch_segment list \<Rightarrow> nat" where
  "served ss = sum_list (map seg_count ss)"

definition reachable_prefix :: "node_url \<Rightarrow> prefix_entry list \<Rightarrow> nat" where
  "reachable_prefix ex es = length (takeWhile (\<lambda>e. \<exists>n \<in> set (pe_nodes e). n \<noteq> ex) es)"

lemma run_length_take: "\<forall>e \<in> set (take (run_length n es) es). n \<in> set (pe_nodes e)"
  by (metis run_length_def set_takeWhileD takeWhile_eq_take)

lemma run_length_le: "run_length n es \<le> length es"
  by (simp add: run_length_def length_takeWhile_le)

lemma run_length_ge: "k \<le> length es \<Longrightarrow> \<forall>e \<in> set (take k es). n \<in> set (pe_nodes e) \<Longrightarrow> k \<le> run_length n es"
proof (induction k arbitrary: es)
  case (Suc k)
  then show ?case by (cases es) (auto simp: run_length_def)
qed simp

lemma best_owner_None: "off < length es \<Longrightarrow> best_owner ex es off = None \<longleftrightarrow> set (pe_nodes (es ! off)) \<subseteq> {ex}"
proof -
  have "pick_owner ex es off cs None = None \<longleftrightarrow> set cs \<subseteq> {ex}" for cs
    using pick_owner_spec[of ex es off cs None] by fastforce
  then show ?thesis by (simp add: best_owner_def)
qed

lemma reachable_prefix_Cons:
  "reachable_prefix ex (e # es) = (if set (pe_nodes e) \<subseteq> {ex} then 0 else Suc (reachable_prefix ex es))"
  by (auto simp: reachable_prefix_def)

lemma reachable_prefix_drop:
  "k \<le> length es \<Longrightarrow> \<forall>e \<in> set (take k es). n \<in> set (pe_nodes e) \<Longrightarrow> n \<noteq> ex \<Longrightarrow>
   reachable_prefix ex es = k + reachable_prefix ex (drop k es)"
proof (induction k arbitrary: es)
  case (Suc k)
  then show ?case by (cases es) (auto simp: reachable_prefix_Cons)
qed simp

lemma reachable_prefix_run:
  "n \<noteq> ex \<Longrightarrow> reachable_prefix ex es = run_length n es + reachable_prefix ex (drop (run_length n es) es)"
  by (rule reachable_prefix_drop[OF run_length_le run_length_take])

lemma plan_from_serves:
  "plan_from ex es off = Inr segs \<Longrightarrow> serves ex (drop off es) segs \<and> served segs = reachable_prefix ex (drop off es)"
proof (induction ex es off arbitrary: segs rule: plan_from.induct)
  case (1 ex es off)
  show ?case
  proof (cases "off < length es")
    case False
    then show ?thesis using "1.prems" by (simp add: plan_from.simps served_def reachable_prefix_def)
  next
    case True
    have dr: "drop off es = es ! off # drop (Suc off) es" using True by (simp add: Cons_nth_drop_Suc)
    show ?thesis
    proof (cases "best_owner ex es off")
      case None
      then have "segs = []" using "1.prems" True by (simp add: plan_from.simps)
      moreover have "reachable_prefix ex (drop off es) = 0"
        using None best_owner_None[OF True] unfolding dr by (simp add: reachable_prefix_Cons)
      ultimately show ?thesis by (simp add: served_def)
    next
      case (Some x)
      then obtain n e where ne: "best_owner ex es off = Some (n, e)" by (cases x) auto
      note adv = best_owner_advances[OF True ne]
      obtain ss where ss: "plan_from ex es e = Inr ss" "segs = \<lparr>seg_node = n, seg_count = e - off\<rparr> # ss"
          "e - off < 2 ^ 32"
        using "1.prems" True ne by (subst (asm) plan_from.simps) (auto split: if_splits sum.splits)
      have ih: "serves ex (drop e es) ss" "served ss = reachable_prefix ex (drop e es)"
        using "1.IH"[OF True ne _ ss(3) ss(1)] by auto
      have k: "e - off = run_length n (drop off es)" "drop (e - off) (drop off es) = drop e es" using adv by (auto simp: add.commute)
      have "reachable_prefix ex (drop off es) = (e - off) + reachable_prefix ex (drop e es)"
        using reachable_prefix_run[of n ex "drop off es"] adv k by simp
      then show ?thesis using ih ss(2) adv k run_length_take[of n "drop off es"] run_length_le[of n "drop off es"]
        by (simp add: served_def)
    qed
  qed
qed

text \<open>Greedy choice stays ahead: no plan for a suffix needs fewer segments.\<close>

lemma plan_from_shortest:
  assumes "serves ex (drop off es) ss" and "off + served ss = off + reachable_prefix ex (drop off es)"
    and "off \<le> off'" and "off' \<le> off + served ss" and "plan_from ex es off' = Inr segs"
  shows "length segs \<le> length ss"
  using assms
proof (induction ss arbitrary: off off' segs)
  case Nil
  have "reachable_prefix ex (drop off' es) = 0" using Nil by (simp add: served_def)
  then have "served segs = 0" using plan_from_serves[OF Nil.prems(5)] by simp
  moreover have "serves ex (drop off' es) segs" using plan_from_serves[OF Nil.prems(5)] by simp
  ultimately show ?case by (cases segs) (auto simp: served_def)
next
  case (Cons s ss)
  let ?n = "seg_count s"
  have s: "seg_node s \<noteq> ex" "0 < ?n" "?n \<le> length (drop off es)"
      "\<forall>e \<in> set (take ?n (drop off es)). seg_node s \<in> set (pe_nodes e)" "serves ex (drop (off + ?n) es) ss"
    using Cons.prems(1) by (auto simp: add.commute)
  have reach: "reachable_prefix ex (drop off es) = ?n + reachable_prefix ex (drop (off + ?n) es)"
    using reachable_prefix_drop[OF s(3,4,1)] by (simp add: add.commute)
  have tot: "off + ?n + served ss = off + ?n + reachable_prefix ex (drop (off + ?n) es)"
    using Cons.prems(2) reach by (simp add: served_def)
  show ?case
  proof (cases "off + ?n \<le> off'")
    case True
    then have "length segs \<le> length ss"
      using Cons.IH[OF s(5) tot True _ Cons.prems(5)] Cons.prems(4) by (simp add: served_def)
    then show ?thesis by simp
  next
    case False
    have lt: "off' < length es" using False s(3) Cons.prems(3) by auto
    have "set (take (off + ?n - off') (drop off' es)) \<subseteq> set (take ?n (drop off es))"
    proof -
      have "take (off + ?n - off') (drop off' es) = drop (off' - off) (take ?n (drop off es))"
        using Cons.prems(3) False by (simp add: drop_take add.commute)
      then show ?thesis by (simp add: set_drop_subset)
    qed
    then have own: "\<forall>e \<in> set (take (off + ?n - off') (drop off' es)). seg_node s \<in> set (pe_nodes e)" using s(4) by blast
    have run: "off + ?n - off' \<le> run_length (seg_node s) (drop off' es)"
      by (rule run_length_ge[OF _ own]) (use s(3) Cons.prems(3) in auto)
    have "drop off' es = es ! off' # drop (Suc off') es" using lt by (simp add: Cons_nth_drop_Suc)
    moreover obtain k where "off + ?n - off' = Suc k" using False by (metis Suc_diff_Suc not_le)
    ultimately have "seg_node s \<in> set (pe_nodes (es ! off'))" using own by simp
    then obtain n e where b: "best_owner ex es off' = Some (n, e)" "run_length (seg_node s) (drop off' es) + off' \<le> e"
      using pick_owner_spec[of ex es off' "pe_nodes (es ! off')" None, OF refl] s(1) unfolding best_owner_def by blast
    note adv = best_owner_advances[OF lt b(1)]
    obtain ss' where ss': "plan_from ex es e = Inr ss'" "length segs = Suc (length ss')"
      using Cons.prems(5) lt b(1) by (subst (asm) plan_from.simps) (auto split: if_splits sum.splits)
    have ahead: "off + ?n \<le> e" using b(2) run by simp
    have "reachable_prefix ex (drop off' es) = (e - off') + reachable_prefix ex (drop e es)"
      using reachable_prefix_run[of n ex "drop off' es"] adv by (simp add: add.commute)
    moreover have "off' + reachable_prefix ex (drop off' es) = off + reachable_prefix ex (drop off es)"
    proof -
      have "set (take (off' - off) (drop off es)) \<subseteq> set (take ?n (drop off es))"
        using False Cons.prems(3) by (intro set_take_subset_set_take) auto
      then have "\<forall>e \<in> set (take (off' - off) (drop off es)). seg_node s \<in> set (pe_nodes e)" using s(4) by blast
      from reachable_prefix_drop[OF _ this s(1)]
      have "reachable_prefix ex (drop off es) = (off' - off) + reachable_prefix ex (drop (off' - off) (drop off es))"
        using s(3) False Cons.prems(3) by auto
      then show ?thesis using Cons.prems(3) by simp
    qed
    ultimately have "e \<le> off + ?n + served ss" using adv Cons.prems(2) by (simp add: served_def)
    from Cons.IH[OF s(5) tot ahead this ss'(1)] show ?thesis using ss'(2) by simp
  qed
qed

lemma plan_from_fits: "length es < 2 ^ 32 \<Longrightarrow> \<exists>segs. plan_from ex es off = Inr segs"
proof (induction ex es off rule: plan_from.induct)
  case (1 ex es off)
  show ?case
  proof (cases "off < length es \<and> best_owner ex es off \<noteq> None")
    case False
    then have "\<not> off < length es \<or> best_owner ex es off = None" by blast
    then show ?thesis by (subst plan_from.simps) auto
  next
    case True
    then obtain n e where b: "off < length es" "best_owner ex es off = Some (n, e)" by auto
    have "e - off \<le> length (drop off es)" using best_owner_advances[OF b] run_length_le[of n "drop off es"] by simp
    then have small: "e - off < 2 ^ 32" using "1.prems" by simp
    from "1.IH"[OF b refl this "1.prems"] obtain ss where "plan_from ex es e = Inr ss" by blast
    then show ?thesis using b small by (subst plan_from.simps) auto
  qed
qed

lemma fetch_plan_spec:
  assumes "length es < 2 ^ 32"
  shows "\<exists>segs. plan_fetch_segments es exclude = Inr segs \<and> serves exclude es segs \<and>
    served segs = reachable_prefix exclude es \<and>
    (\<forall>ss. serves exclude es ss \<and> served ss = reachable_prefix exclude es \<longrightarrow> length segs \<le> length ss)"
proof -
  obtain segs where p: "plan_from exclude es 0 = Inr segs" using plan_from_fits[OF assms] by blast
  then have "serves exclude es segs" "served segs = reachable_prefix exclude es" using plan_from_serves[OF p] by simp_all
  moreover have "length segs \<le> length ss" if "serves exclude es ss" "served ss = reachable_prefix exclude es" for ss
    using plan_from_shortest[of exclude 0 es ss 0 segs] that p by simp
  ultimately show ?thesis using p by (auto simp: plan_fetch_segments_def)
qed

section \<open>Handlers\<close>

datatype rpc_status =
    InvalidNodeId
  | EmptyBlockHashes
  | PlanFailed plan_error
  | UnknownNodeStatus
  | StaleSessionStatus
  | PlannerPanic pairing_panic

record ('b, 'n) meta_service =
  svc_store :: "('b, 'n) hash_store"
  svc_backup :: "(duration \<times> planner_state) option"

record response_status =
  resp_ok :: bool
  resp_message :: string

record heartbeat_response =
  stale_after_secs :: nat
  backup_enabled :: bool
  backup_target :: bool
  backed_hashes :: "backup_candidates list"

record insert_response =
  ins_status :: response_status
  inserted_count :: nat
  reclaimable_hashes :: "block_hash list"

record remove_response =
  rem_status :: response_status
  removed_count :: nat

definition service_new :: "('b, 'n) hash_store \<Rightarrow> ('b, 'n) meta_service" where
  "service_new st = \<lparr>svc_store = st, svc_backup = None\<rparr>"

definition service_with_backup :: "('b, 'n) hash_store \<Rightarrow> duration \<Rightarrow> ('b, 'n) meta_service" where
  "service_with_backup st delay = \<lparr>svc_store = st, svc_backup = Some (delay, planner_new)\<rparr>"

definition ok_status :: response_status where
  "ok_status = \<lparr>resp_ok = True, resp_message = []\<rparr>"

definition error_status :: "string \<Rightarrow> response_status" where
  "error_status msg = \<lparr>resp_ok = False, resp_message = msg\<rparr>"

definition parse_node_id :: "(string \<Rightarrow> uuid option) \<Rightarrow> string \<Rightarrow> rpc_status + uuid" where
  "parse_node_id parse s = ok_or (parse s) InvalidNodeId"

fun store_error_status :: "store_error \<Rightarrow> rpc_status" where
  "store_error_status UnknownNode = UnknownNodeStatus"
| "store_error_status StaleSession = StaleSessionStatus"

text \<open>\<open>clk i\<close> is the instant the handler reads at its \<open>i\<close>-th use of the clock.\<close>

type_synonym clock = "nat \<Rightarrow> instant"

definition backup_heartbeat ::
  "'b block_ops \<Rightarrow> 'n node_ops \<Rightarrow> clock \<Rightarrow> node_url \<Rightarrow> uuid \<Rightarrow> bool \<Rightarrow> backup_candidates list \<Rightarrow> heartbeat_response \<Rightarrow>
   ('b, 'n) meta_service \<Rightarrow> ('b, 'n) meta_service \<times> heartbeat_response" where
  "backup_heartbeat B N clk node sid has_instance candidates response svc =
     (let st = set_node_has_instance N (clk 1) node sid has_instance (svc_store svc); svc = svc\<lparr>svc_store := st\<rparr> in
      case svc_backup svc of
        None \<Rightarrow> (svc, response)
      | Some (delay, p) \<Rightarrow>
          let roles = node_roles_of N delay (clk 2) st;
              response = response\<lparr>backup_enabled := True, backup_target := is_target roles node\<rparr>
          in if \<not> has_instance then (svc\<lparr>svc_backup := Some (delay, forget_source node p)\<rparr>, response)
             else let (p', backed) = planner_report B N (clk 3) st roles node candidates p
                  in (svc\<lparr>svc_backup := Some (delay, p')\<rparr>, response\<lparr>backed_hashes := backed\<rparr>))"

definition rpc_heartbeat_node ::
  "'b block_ops \<Rightarrow> 'n node_ops \<Rightarrow> (string \<Rightarrow> uuid option) \<Rightarrow> nat \<Rightarrow> clock \<Rightarrow> node_url \<Rightarrow> string \<Rightarrow> bool \<Rightarrow>
   backup_candidates list \<Rightarrow> ('b, 'n) meta_service \<Rightarrow> ('b, 'n) meta_service \<times> (rpc_status + heartbeat_response)" where
  "rpc_heartbeat_node B N parse sec clk node node_id has_instance candidates svc =
     (case parse_node_id parse node_id of
        Inl e \<Rightarrow> (svc, Inl e)
      | Inr sid \<Rightarrow>
          (case heartbeat_node N (clk 0) node sid (svc_store svc) of
             (st, Inl e) \<Rightarrow> (svc\<lparr>svc_store := st\<rparr>, Inl (store_error_status e))
           | (st, Inr _) \<Rightarrow>
               let response = \<lparr>stale_after_secs = node_stale_after (store_cfg st) div sec, backup_enabled = False,
                               backup_target = False, backed_hashes = []\<rparr>;
                   (svc', r) = backup_heartbeat B N clk node sid has_instance candidates response (svc\<lparr>svc_store := st\<rparr>)
               in (svc', Inr r)))"

definition empty_plan :: backup_plan where
  "empty_plan = \<lparr>plan_source = [], plan_namespace = [], plan_hashes = []\<rparr>"

definition rpc_pull_backup_plan ::
  "'b block_ops \<Rightarrow> 'n node_ops \<Rightarrow> (string \<Rightarrow> uuid option) \<Rightarrow> (node_url \<Rightarrow> node_url \<Rightarrow> u64) \<Rightarrow> (node_url \<Rightarrow> block_hash \<Rightarrow> u64) \<Rightarrow>
   clock \<Rightarrow> node_url \<Rightarrow> string \<Rightarrow> u64 \<Rightarrow> ('b, 'n) meta_service \<Rightarrow> ('b, 'n) meta_service \<times> (rpc_status + backup_plan)" where
  "rpc_pull_backup_plan B N parse node_score block_score clk node node_id max_bytes svc =
     (case parse_node_id parse node_id of
        Inl e \<Rightarrow> (svc, Inl e)
      | Inr sid \<Rightarrow>
          (case touch_node_session N (clk 0) node sid (svc_store svc) of
             (st, Inl e) \<Rightarrow> (svc\<lparr>svc_store := st\<rparr>, Inl (store_error_status e))
           | (st, Inr _) \<Rightarrow>
               (case svc_backup svc of
                  None \<Rightarrow> (svc\<lparr>svc_store := st\<rparr>, Inr empty_plan)
                | Some (delay, p) \<Rightarrow>
                    let roles = node_roles_of N delay (clk 1) st in
                    case planner_plan B N node_score block_score (clk 2) st roles node max_bytes p of
                      Inl e \<Rightarrow> (svc\<lparr>svc_store := st\<rparr>, Inl (PlannerPanic e))
                    | Inr (p', plan) \<Rightarrow>
                        (svc\<lparr>svc_store := st, svc_backup := Some (delay, p')\<rparr>,
                         Inr (case plan of None \<Rightarrow> empty_plan | Some pl \<Rightarrow> pl)))))"

definition rpc_unregister_node ::
  "'b block_ops \<Rightarrow> 'n node_ops \<Rightarrow> (string \<Rightarrow> uuid option) \<Rightarrow> node_url \<Rightarrow> string \<Rightarrow> ('b, 'n) meta_service \<Rightarrow>
   ('b, 'n) meta_service \<times> (rpc_status + nat)" where
  "rpc_unregister_node B N parse node node_id svc =
     (case parse_node_id parse node_id of
        Inl e \<Rightarrow> (svc, Inl e)
      | Inr sid \<Rightarrow>
          (case unregister_node B N node sid (svc_store svc) of
             (st, Inl e) \<Rightarrow> (svc\<lparr>svc_store := st\<rparr>, Inl (store_error_status e))
           | (st, Inr n) \<Rightarrow> (svc\<lparr>svc_store := st\<rparr>, Inr n)))"

definition rpc_insert_block_hashes ::
  "'b block_ops \<Rightarrow> 'n node_ops \<Rightarrow> (string \<Rightarrow> uuid option) \<Rightarrow> clock \<Rightarrow> string \<Rightarrow> block_hash list \<Rightarrow> node_url \<Rightarrow> string \<Rightarrow>
   ('b, 'n) meta_service \<Rightarrow> ('b, 'n) meta_service \<times> (rpc_status + insert_response)" where
  "rpc_insert_block_hashes B N parse clk ns hs node node_id svc =
     (if hs = [] then (svc, Inr \<lparr>ins_status = error_status ''block_hashes cannot be empty'', inserted_count = 0,
                                 reclaimable_hashes = []\<rparr>)
      else case parse_node_id parse node_id of
             Inl e \<Rightarrow> (svc, Inl e)
           | Inr sid \<Rightarrow>
               (case insert_hashes B N (clk 0) (clk 1) ns hs node sid (svc_store svc) of
                  (st, Inl e) \<Rightarrow> (svc\<lparr>svc_store := st\<rparr>, Inl (store_error_status e))
                | (st, Inr hints) \<Rightarrow>
                    (svc\<lparr>svc_store := st\<rparr>, Inr \<lparr>ins_status = ok_status, inserted_count = length hs,
                                                reclaimable_hashes = hints\<rparr>)))"

definition rpc_remove_block_hashes ::
  "'b block_ops \<Rightarrow> 'n node_ops \<Rightarrow> (string \<Rightarrow> uuid option) \<Rightarrow> clock \<Rightarrow> string \<Rightarrow> block_hash list \<Rightarrow> node_url \<Rightarrow> string \<Rightarrow>
   ('b, 'n) meta_service \<Rightarrow> ('b, 'n) meta_service \<times> (rpc_status + remove_response)" where
  "rpc_remove_block_hashes B N parse clk ns hs node node_id svc =
     (if hs = [] then (svc, Inr \<lparr>rem_status = error_status ''block_hashes cannot be empty'', removed_count = 0\<rparr>)
      else case parse_node_id parse node_id of
             Inl e \<Rightarrow> (svc, Inl e)
           | Inr sid \<Rightarrow>
               (case remove_hashes B N (clk 0) ns hs node sid (svc_store svc) of
                  (st, Inl e) \<Rightarrow> (svc\<lparr>svc_store := st\<rparr>, Inl (store_error_status e))
                | (st, Inr n) \<Rightarrow> (svc\<lparr>svc_store := st\<rparr>, Inr \<lparr>rem_status = ok_status, removed_count = n\<rparr>)))"

definition rpc_query_prefix_blocks ::
  "'b block_ops \<Rightarrow> 'n node_ops \<Rightarrow> clock \<Rightarrow> string \<Rightarrow> block_hash list \<Rightarrow> node_url \<Rightarrow> ('b, 'n) meta_service \<Rightarrow>
   rpc_status + fetch_segment list" where
  "rpc_query_prefix_blocks B N clk ns hs exclude svc =
     (if hs = [] then Inl EmptyBlockHashes
      else case plan_fetch_segments (query_prefix B N (clk 0) ns hs (svc_store svc)) exclude of
             Inl e \<Rightarrow> Inl (PlanFailed e)
           | Inr segs \<Rightarrow> Inr segs)"

section \<open>Prefix queries\<close>

text \<open>\<open>remote ns h\<close>: some live node other than the requester owns the block.\<close>

definition remote ::
  "'b block_ops \<Rightarrow> 'n node_ops \<Rightarrow> instant \<Rightarrow> ('b, 'n) hash_store \<Rightarrow> node_url \<Rightarrow> string \<Rightarrow> block_hash \<Rightarrow> bool" where
  "remote B N now st exclude ns h \<longleftrightarrow> \<not> live_owners B N now ns st h \<subseteq> {exclude}"

lemma query_prefix_reachable:
  "reachable_prefix ex (query_prefix B N now ns hs st) = length (takeWhile (remote B N now st ex ns) hs)"
proof (induction hs)
  case (Cons h hs)
  let ?live = "visible_nodes N now st (owners_at B st \<lparr>namespace = ns, hash = h\<rparr>)"
  have live: "set ?live = live_owners B N now ns st h" by (rule set_visible_nodes)
  have step: "query_prefix B N now ns (h # hs) st =
      (if ?live = [] then [] else \<lparr>pe_hash = h, pe_nodes = ?live\<rparr> # query_prefix B N now ns hs st)"
    by (auto simp: owners_at_def visible_nodes_def Let_def split: option.splits)
  show ?case unfolding step using Cons live
    by (auto simp: reachable_prefix_Cons remote_def reachable_prefix_def simp flip: live)
qed (simp add: reachable_prefix_def)

text \<open>
  C12. A prefix query plans the longest fetchable prefix with the fewest fetches. For a
  non-empty query of fewer than \<open>2^32\<close> hashes the handler returns a plan: consecutive segments,
  each from one node, not the requester, that is a live owner of every block in it; together
  they cover exactly the leading hashes that some other live node owns; and no shorter plan
  covers them.
\<close>

theorem prefix_query_optimal:
  assumes "hs \<noteq> []" and "length hs < 2 ^ 32"
  shows "\<exists>segs. rpc_query_prefix_blocks B N clk ns hs exclude svc = Inr segs \<and>
    served segs = length (takeWhile (remote B N (clk 0) (svc_store svc) exclude ns) hs) \<and>
    serves exclude (query_prefix B N (clk 0) ns hs (svc_store svc)) segs \<and>
    (\<forall>ss. serves exclude (query_prefix B N (clk 0) ns hs (svc_store svc)) ss \<and> served ss = served segs \<longrightarrow>
       length segs \<le> length ss)"
proof -
  let ?es = "query_prefix B N (clk 0) ns hs (svc_store svc)"
  have "length ?es < 2 ^ 32" using assms(2) by (simp add: query_prefix_map_while le_less_trans[OF length_map_while_le])
  from fetch_plan_spec[OF this, of exclude] show ?thesis
    using assms(1) by (auto simp: rpc_query_prefix_blocks_def query_prefix_reachable)
qed

theorem prefix_query_optimal_witness:
  "\<exists>segs. rpc_query_prefix_blocks alist_map alist_map (\<lambda>_. 20) ''m'' [[7], [8]] ''b'' (service_new wstore) = Inr segs \<and>
     served segs = 1"
proof -
  have "length (takeWhile (remote alist_map alist_map 20 wstore ''b'' ''m'') [[7], [8]]) = 1"
    by (auto simp: remote_def live_owners_def owners_at_def visible_iff wstore_def wnode_def wconfig_def)
  then show ?thesis
    using prefix_query_optimal[of "[[7], [8]]" alist_map alist_map "\<lambda>_. 20" "''m''" "''b''" "service_new wstore"]
    by (auto simp: service_new_def)
qed

end
