(* ===== verification/Meta_Client.thy ===== *)
theory Meta_Client
  imports Meta_Service Read_Cache
begin

text \<open>
  The client of the MetaServer on a storage node
  (\<open>pegaflow-core/src/internode/metaserver_client.rs\<close>): the bounded command queue, heartbeats
  with backoff, backup reports and the registration loop that nets queued inserts and removes
  and sends them in chunks. The gRPC transport is the argument \<open>meta_rpc\<close>, a state machine
  whose state \<open>'s\<close> stands for the network and the server; \<open>direct_rpc\<close> in \<open>Meta_Registration\<close> puts the handlers of
  \<open>Meta_Service\<close> behind it. Rust's \<open>HashMap\<close>s are association lists whose iteration
  order is the argument \<open>iter_order\<close>, any permutation. Times are milliseconds. The read cache
  behind the \<open>Weak\<close> reference is \<open>None\<close> once it cannot be upgraded. Logs and metrics are
  left out, except the two counters of dropped hashes.
\<close>

section \<open>Constants and configuration\<close>

definition default_metaserver_queue_depth :: nat where "default_metaserver_queue_depth = 4096"
definition max_hashes_per_rpc :: nat where "max_hashes_per_rpc = 16384"
definition initial_backoff_ms :: u64 where "initial_backoff_ms = 100"
definition max_backoff_ms :: u64 where "max_backoff_ms = 30000"
definition min_heartbeat_interval_secs :: nat where "min_heartbeat_interval_secs = 1"
definition backup_refill_min_interval :: duration where "backup_refill_min_interval = 1000"
definition default_backup_max_candidates :: nat where "default_backup_max_candidates = 16384"

record client_config =
  metaserver_addr :: string
  advertise_addr :: node_url
  queue_depth :: nat
  backup_max_candidates :: nat

definition client_config_new :: "string \<Rightarrow> node_url \<Rightarrow> client_config" where
  "client_config_new meta adv =
     \<lparr>metaserver_addr = meta, advertise_addr = adv, queue_depth = default_metaserver_queue_depth,
      backup_max_candidates = default_backup_max_candidates\<rparr>"

definition with_queue_depth :: "nat \<Rightarrow> client_config \<Rightarrow> client_config" where
  "with_queue_depth n c = c\<lparr>queue_depth := n\<rparr>"

definition with_backup_max_candidates :: "nat \<Rightarrow> client_config \<Rightarrow> client_config" where
  "with_backup_max_candidates n c = c\<lparr>backup_max_candidates := n\<rparr>"

section \<open>Heartbeat and backup state\<close>

record heartbeat_state =
  node_registered :: bool
  backoff_ms :: u64
  hb_period :: duration
  next_at :: instant
  last_sent_at :: instant

definition heartbeat_state_new :: "instant \<Rightarrow> heartbeat_state" where
  "heartbeat_state_new now =
     \<lparr>node_registered = False, backoff_ms = initial_backoff_ms, hb_period = min_heartbeat_interval_secs * 1000,
      next_at = now, last_sent_at = now\<rparr>"

definition advance_backoff :: "heartbeat_state \<Rightarrow> duration \<times> heartbeat_state" where
  "advance_backoff h = (unat (backoff_ms h), h\<lparr>backoff_ms := min (backoff_ms h * 2) max_backoff_ms\<rparr>)"

definition heartbeat_period_from_stale_after :: "nat \<Rightarrow> duration" where
  "heartbeat_period_from_stale_after secs = max (secs div 2) min_heartbeat_interval_secs * 1000"

text \<open>\<open>bs_refill\<close> is the permit of the \<open>Notify\<close>.\<close>

record backup_state =
  bs_has_instance :: bool
  bs_enabled :: bool
  bs_target :: bool
  bs_reported :: usize
  bs_demoted :: usize
  bs_refill :: bool

definition backup_state_default :: backup_state where
  "backup_state_default =
     \<lparr>bs_has_instance = False, bs_enabled = False, bs_target = False, bs_reported = 0, bs_demoted = 0,
      bs_refill = False\<rparr>"

definition backup_is_source :: "backup_state \<Rightarrow> bool" where
  "backup_is_source b \<longleftrightarrow> bs_enabled b \<and> bs_has_instance b \<and> \<not> bs_target b"

definition start_report :: "usize \<Rightarrow> backup_state \<Rightarrow> backup_state" where
  "start_report n b = b\<lparr>bs_reported := n, bs_demoted := 0\<rparr>"

definition record_demotions :: "usize \<Rightarrow> backup_state \<Rightarrow> backup_state" where
  "record_demotions n b =
     (if n = 0 then b
      else let demoted = bs_demoted b + n; b = b\<lparr>bs_demoted := demoted\<rparr>
           in if bs_reported b > 0 \<and> saturating_mul demoted 2 \<ge> bs_reported b \<and> backup_is_source b
              then b\<lparr>bs_refill := True\<rparr> else b)"

definition set_has_instance :: "bool \<Rightarrow> backup_state \<Rightarrow> backup_state" where
  "set_has_instance has b = b\<lparr>bs_has_instance := has\<rparr>"

definition is_backup_target :: "backup_state \<Rightarrow> bool" where
  "is_backup_target b = bs_target b"

definition backup_report_idle :: "backup_state \<Rightarrow> bool" where
  "backup_report_idle b \<longleftrightarrow> bs_reported b = 0 \<and> backup_is_source b"

definition request_backup_report :: "backup_state \<Rightarrow> backup_state" where
  "request_backup_report b = b\<lparr>bs_refill := True\<rparr>"

section \<open>Commands and the queue\<close>

type_synonym hash_key = "string \<times> block_hash"
type_synonym block_hash_batch = "(string \<times> block_hash list) list"

definition alist_push :: "'k \<Rightarrow> 'v \<Rightarrow> ('k \<times> 'v list) list \<Rightarrow> ('k \<times> 'v list) list" where
  "alist_push k v m = AList.update k ((case map_of m k of None \<Rightarrow> [] | Some vs \<Rightarrow> vs) @ [v]) m"

definition batch_from_entries ::
  "((string \<times> block_hash list) list \<Rightarrow> (string \<times> block_hash list) list) \<Rightarrow> hash_key list \<Rightarrow> block_hash_batch" where
  "batch_from_entries order entries = order (fold (\<lambda>(ns, h). alist_push ns h) entries [])"

definition single_namespace :: "string \<Rightarrow> block_hash list \<Rightarrow> block_hash_batch" where
  "single_namespace ns hs = [(ns, hs)]"

definition batch_count :: "block_hash_batch \<Rightarrow> nat" where
  "batch_count b = sum_list (map (length \<circ> snd) b)"

text \<open>A \<open>oneshot\<close> sender is a number; the loop collects the numbers it answers.\<close>

datatype metaserver_command =
    Insert block_hash_batch bool "hash_key \<rightharpoonup> u64"
  | Remove block_hash_batch
  | Flush nat
  | Shutdown nat

record command_queue =
  q_items :: "metaserver_command list"
  q_depth :: nat
  q_closed :: bool

datatype send_outcome = Sent | Full | Closed

definition try_send :: "metaserver_command \<Rightarrow> command_queue \<Rightarrow> command_queue \<times> send_outcome" where
  "try_send c q =
     (if q_closed q then (q, Closed)
      else if q_depth q \<le> length (q_items q) then (q, Full)
      else (q\<lparr>q_items := q_items q @ [c]\<rparr>, Sent))"

definition try_register_with_hint_and_generations ::
  "string \<Rightarrow> block_hash list \<Rightarrow> bool \<Rightarrow> (hash_key \<rightharpoonup> u64) \<Rightarrow> command_queue \<Rightarrow> command_queue" where
  "try_register_with_hint_and_generations ns hs hint gens q =
     (if hs = [] then q else fst (try_send (Insert (single_namespace ns hs) hint gens) q))"

definition try_register_with_generations ::
  "string \<Rightarrow> (block_hash \<times> u64) list \<Rightarrow> command_queue \<Rightarrow> command_queue" where
  "try_register_with_generations ns regs q =
     (if regs = [] then q
      else try_register_with_hint_and_generations ns (map fst regs) True
             (fold (\<lambda>(h, g) m. m((ns, h) \<mapsto> g)) regs Map.empty) q)"

definition try_register_without_reclaim_hint ::
  "string \<Rightarrow> block_hash list \<Rightarrow> command_queue \<Rightarrow> command_queue" where
  "try_register_without_reclaim_hint ns hs q = try_register_with_hint_and_generations ns hs False Map.empty q"

definition try_unregister ::
  "((string \<times> block_hash list) list \<Rightarrow> (string \<times> block_hash list) list) \<Rightarrow> hash_key list \<Rightarrow>
   command_queue \<Rightarrow> command_queue" where
  "try_unregister order entries q =
     (if entries = [] then q else fst (try_send (Remove (batch_from_entries order entries)) q))"

text \<open>\<open>send\<close> waits for room: \<open>None\<close> while the queue is full.\<close>

definition queue_send :: "metaserver_command \<Rightarrow> command_queue \<Rightarrow> (command_queue \<times> send_outcome) option" where
  "queue_send c q = (case try_send c q of (q', Full) \<Rightarrow> None | r \<Rightarrow> Some r)"

definition client_flush :: "nat \<Rightarrow> command_queue \<Rightarrow> (command_queue \<times> send_outcome) option" where
  "client_flush done q = queue_send (Flush done) q"

text \<open>\<open>shutdown\<close> gives up after its timeout instead of waiting.\<close>

definition client_shutdown :: "nat \<Rightarrow> command_queue \<Rightarrow> command_queue" where
  "client_shutdown done q = (case queue_send (Shutdown done) q of None \<Rightarrow> q | Some (q', _) \<Rightarrow> q')"

section \<open>Transport\<close>

datatype rpc_code = FailedPrecondition | OtherCode

record 's meta_rpc =
  rpc_connect :: "'s \<Rightarrow> 's \<times> bool"
  rpc_heartbeat :: "node_url \<Rightarrow> string \<Rightarrow> bool \<Rightarrow> backup_candidates list \<Rightarrow> 's \<Rightarrow> 's \<times> (rpc_code + heartbeat_response)"
  rpc_insert :: "string \<Rightarrow> block_hash list \<Rightarrow> node_url \<Rightarrow> string \<Rightarrow> 's \<Rightarrow> 's \<times> (rpc_code + insert_response)"
  rpc_remove :: "string \<Rightarrow> block_hash list \<Rightarrow> node_url \<Rightarrow> string \<Rightarrow> 's \<Rightarrow> 's \<times> (rpc_code + remove_response)"
  rpc_unregister :: "node_url \<Rightarrow> string \<Rightarrow> 's \<Rightarrow> 's \<times> (rpc_code + nat) option"
  rpc_query :: "string \<Rightarrow> block_hash list \<Rightarrow> node_url \<Rightarrow> 's \<Rightarrow> 's \<times> (rpc_code + fetch_segment list)"
  rpc_pull :: "node_url \<Rightarrow> string \<Rightarrow> u64 \<Rightarrow> 's \<Rightarrow> 's \<times> (rpc_code + backup_plan)"

datatype client_error = RpcFailed

definition query_plan ::
  "'s meta_rpc \<Rightarrow> string \<Rightarrow> block_hash list \<Rightarrow> node_url \<Rightarrow> 's \<Rightarrow> 's \<times> (client_error + fetch_segment list)" where
  "query_plan R ns hs exclude s =
     (case rpc_query R ns hs exclude s of
        (s', Inl _) \<Rightarrow> (s', Inl RpcFailed)
      | (s', Inr segs) \<Rightarrow> (s', Inr segs))"

definition client_pull_backup_plan ::
  "'s meta_rpc \<Rightarrow> node_url \<Rightarrow> string \<Rightarrow> u64 \<Rightarrow> 's \<Rightarrow> 's \<times> (client_error + backup_plan)" where
  "client_pull_backup_plan R node node_id max_bytes s =
     (case rpc_pull R node node_id max_bytes s of
        (s', Inl _) \<Rightarrow> (s', Inl RpcFailed)
      | (s', Inr plan) \<Rightarrow> (s', Inr plan))"

section \<open>Loop state\<close>

datatype pending_operation = PendingInsert bool "u64 option" | PendingRemove

type_synonym net_ops = "(hash_key \<times> pending_operation) list"
type_synonym insert_groups = "((string \<times> bool) \<times> (block_hash \<times> u64 option) list) list"

record iter_order =
  it_net :: "net_ops \<Rightarrow> net_ops"
  it_ins :: "insert_groups \<Rightarrow> insert_groups"
  it_rem :: "(string \<times> block_hash list) list \<Rightarrow> (string \<times> block_hash list) list"

definition iter_ok :: "iter_order \<Rightarrow> bool" where
  "iter_ok I \<longleftrightarrow> (\<forall>xs. mset (it_net I xs) = mset xs) \<and> (\<forall>xs. mset (it_ins I xs) = mset xs) \<and>
     (\<forall>xs. mset (it_rem I xs) = mset xs)"

record ('l, 'm, 's) client_env =
  e_lru :: "'l block_lru"
  e_meta :: "'m meta_lru"
  e_cfg :: cache_config
  e_strong :: "nat \<Rightarrow> nat"
  e_max_candidates :: nat
  e_rpc :: "'s meta_rpc"
  e_node :: node_url
  e_id :: string
  e_order :: iter_order

record ('l, 'm, 's) loop_state =
  lp_connected :: bool
  lp_heartbeat :: heartbeat_state
  lp_backup :: backup_state
  lp_cache :: "('l, 'm) read_cache option"
  lp_server :: 's
  lp_acks :: "nat list"
  registration_failures :: nat
  removal_failures :: nat

definition loop_start :: "instant \<Rightarrow> ('l, 'm) read_cache option \<Rightarrow> 's \<Rightarrow> ('l, 'm, 's) loop_state" where
  "loop_start now cache s =
     \<lparr>lp_connected = False, lp_heartbeat = heartbeat_state_new now, lp_backup = backup_state_default,
      lp_cache = cache, lp_server = s, lp_acks = [], registration_failures = 0, removal_failures = 0\<rparr>"

section \<open>Backup reports\<close>

fun add_candidate :: "block_key \<times> u64 \<Rightarrow> backup_candidates list \<Rightarrow> backup_candidates list" where
  "add_candidate (k, bytes) [] = [\<lparr>bc_namespace = namespace k, bc_hashes = [hash k], bc_bytes = 0 + bytes\<rparr>]"
| "add_candidate (k, bytes) (g # gs) =
     (if bc_namespace g = namespace k
      then g\<lparr>bc_hashes := bc_hashes g @ [hash k], bc_bytes := bc_bytes g + bytes\<rparr> # gs
      else g # add_candidate (k, bytes) gs)"

definition mean_bytes :: "backup_candidates \<Rightarrow> backup_candidates" where
  "mean_bytes g = g\<lparr>bc_bytes := bc_bytes g div of_nat (length (bc_hashes g))\<rparr>"

definition reporter_candidates ::
  "('l, 'm, 's) client_env \<Rightarrow> backup_state \<Rightarrow> ('l, 'm) read_cache option \<Rightarrow> backup_candidates list" where
  "reporter_candidates E b cache =
     (if \<not> backup_is_source b then []
      else case cache of
             None \<Rightarrow> []
           | Some c \<Rightarrow>
               let budget = backup_report_budget (e_cfg E) c
               in if budget = 0 then []
                  else map mean_bytes (fold add_candidate
                         (backup_candidates (e_lru E) (e_meta E) (e_strong E) c budget (e_max_candidates E)) []))"

fun demote_groups ::
  "'l block_lru \<Rightarrow> 'm meta_lru \<Rightarrow> ('l, 'm) read_cache \<Rightarrow> backup_candidates list \<Rightarrow> nat \<times> ('l, 'm) read_cache" where
  "demote_groups L M c [] = (0, c)"
| "demote_groups L M c (g # gs) =
     (let (n, c1) = mark_reclaimable_hashes L M c (bc_namespace g) (bc_hashes g);
          (k, c2) = demote_groups L M c1 gs
      in (n + k, c2))"

definition reporter_apply ::
  "('l, 'm, 's) client_env \<Rightarrow> heartbeat_response \<Rightarrow> backup_state \<Rightarrow> ('l, 'm) read_cache option \<Rightarrow>
   backup_state \<times> ('l, 'm) read_cache option" where
  "reporter_apply E r b cache =
     (let b = b\<lparr>bs_enabled := backup_enabled r, bs_target := backup_target r\<rparr> in
      if backed_hashes r = [] then (b, cache)
      else case cache of
             None \<Rightarrow> (b, None)
           | Some c \<Rightarrow>
               let (n, c') = demote_groups (e_lru E) (e_meta E) c (backed_hashes r)
               in (record_demotions (of_nat n) b, Some c'))"

section \<open>Heartbeats\<close>

definition ensure_connected :: "('l, 'm, 's) client_env \<Rightarrow> ('l, 'm, 's) loop_state \<Rightarrow> ('l, 'm, 's) loop_state" where
  "ensure_connected E st =
     (if lp_connected st then st
      else case rpc_connect (e_rpc E) (lp_server st) of
             (s, ok) \<Rightarrow> st\<lparr>lp_server := s, lp_connected := ok,
                          lp_heartbeat := (if ok then (lp_heartbeat st)\<lparr>backoff_ms := initial_backoff_ms\<rparr>
                                           else lp_heartbeat st)\<rparr>)"

definition reset_registration :: "rpc_code \<Rightarrow> heartbeat_state \<Rightarrow> heartbeat_state" where
  "reset_registration e h = (if e = FailedPrecondition then h\<lparr>node_registered := False\<rparr> else h)"

definition send_heartbeat ::
  "('l, 'm, 's) client_env \<Rightarrow> instant \<Rightarrow> ('l, 'm, 's) loop_state \<Rightarrow> ('l, 'm, 's) loop_state \<times> (duration + duration)" where
  "send_heartbeat E now st =
     (let st = ensure_connected E st; h = lp_heartbeat st in
      if \<not> lp_connected st
      then (case advance_backoff h of (delay, h') \<Rightarrow> (st\<lparr>lp_heartbeat := h'\<rparr>, Inl delay))
      else
        let h = h\<lparr>last_sent_at := now\<rparr>;
            cands = reporter_candidates E (lp_backup st) (lp_cache st);
            b = start_report (of_nat (sum_list (map (length \<circ> bc_hashes) cands))) (lp_backup st)
        in case rpc_heartbeat (e_rpc E) (e_node E) (e_id E) (bs_has_instance b) cands (lp_server st) of
             (s, Inr r) \<Rightarrow>
               (case reporter_apply E r b (lp_cache st) of
                  (b', c') \<Rightarrow>
                    (st\<lparr>lp_server := s, lp_backup := b', lp_cache := c',
                        lp_heartbeat := h\<lparr>node_registered := True, backoff_ms := initial_backoff_ms\<rparr>\<rparr>,
                     Inr (heartbeat_period_from_stale_after (stale_after_secs r))))
           | (s, Inl e) \<Rightarrow>
               (case advance_backoff (reset_registration e h) of
                  (delay, h') \<Rightarrow>
                    (st\<lparr>lp_server := s, lp_backup := b, lp_connected := False, lp_heartbeat := h'\<rparr>, Inl delay)))"

definition schedule_next :: "instant \<Rightarrow> duration + duration \<Rightarrow> heartbeat_state \<Rightarrow> heartbeat_state" where
  "schedule_next now r h =
     (case r of Inr p \<Rightarrow> h\<lparr>hb_period := p, next_at := now + p\<rparr> | Inl retry_after \<Rightarrow> h\<lparr>next_at := now + retry_after\<rparr>)"

definition heartbeat_and_schedule ::
  "('l, 'm, 's) client_env \<Rightarrow> instant \<Rightarrow> instant \<Rightarrow> ('l, 'm, 's) loop_state \<Rightarrow> ('l, 'm, 's) loop_state \<times> bool" where
  "heartbeat_and_schedule E sent later st =
     (case send_heartbeat E sent st of
        (st', r) \<Rightarrow> (st'\<lparr>lp_heartbeat := schedule_next later r (lp_heartbeat st')\<rparr>, \<not> isl r))"

definition ensure_heartbeat_registered ::
  "('l, 'm, 's) client_env \<Rightarrow> clock \<Rightarrow> ('l, 'm, 's) loop_state \<Rightarrow> ('l, 'm, 's) loop_state \<times> bool" where
  "ensure_heartbeat_registered E clk st =
     (if node_registered (lp_heartbeat st) \<and> lp_connected st then (st, True)
      else if clk 0 < next_at (lp_heartbeat st) then (st, False)
      else heartbeat_and_schedule E (clk 1) (clk 2) st)"

definition unregister_current_session ::
  "('l, 'm, 's) client_env \<Rightarrow> ('l, 'm, 's) loop_state \<Rightarrow> ('l, 'm, 's) loop_state" where
  "unregister_current_session E st =
     (let (s, ok) = (if lp_connected st then (lp_server st, True) else rpc_connect (e_rpc E) (lp_server st)) in
      if \<not> ok then st\<lparr>lp_server := s\<rparr>
      else st\<lparr>lp_connected := True, lp_server := fst (rpc_unregister (e_rpc E) (e_node E) (e_id E) s)\<rparr>)"

section \<open>Netting\<close>

definition net_batch ::
  "(hash_key \<Rightarrow> pending_operation) \<Rightarrow> block_hash_batch \<Rightarrow> net_ops \<Rightarrow> net_ops" where
  "net_batch op batch net = fold (\<lambda>(ns, hs). fold (\<lambda>h. AList.update (ns, h) (op (ns, h))) hs) batch net"

definition insert_op :: "bool \<Rightarrow> (hash_key \<rightharpoonup> u64) \<Rightarrow> hash_key \<Rightarrow> pending_operation" where
  "insert_op hint gens k = PendingInsert hint (if hint then gens k else None)"

fun drain_commands :: "metaserver_command list \<Rightarrow> net_ops \<Rightarrow> nat list \<Rightarrow> nat + net_ops \<times> nat list" where
  "drain_commands [] net acks = Inr (net, acks)"
| "drain_commands (Insert batch hint gens # cs) net acks = drain_commands cs (net_batch (insert_op hint gens) batch net) acks"
| "drain_commands (Remove batch # cs) net acks = drain_commands cs (net_batch (\<lambda>_. PendingRemove) batch net) acks"
| "drain_commands (Flush done # cs) net acks = drain_commands cs net (acks @ [done])"
| "drain_commands (Shutdown done # cs) net acks = Inl done"

fun split_net :: "net_ops \<Rightarrow> insert_groups \<Rightarrow> block_hash_batch \<Rightarrow> insert_groups \<times> block_hash_batch" where
  "split_net [] ins rem = (ins, rem)"
| "split_net (((ns, h), PendingInsert hint g) # ops) ins rem = split_net ops (alist_push (ns, hint) (h, g) ins) rem"
| "split_net (((ns, h), PendingRemove) # ops) ins rem = split_net ops ins (alist_push ns h rem)"

definition group_total :: "('k \<times> 'v list) list \<Rightarrow> nat" where
  "group_total gs = sum_list (map (length \<circ> snd) gs)"

section \<open>Chunked sends\<close>

function chunks :: "nat \<Rightarrow> 'a list \<Rightarrow> 'a list list" where
  "chunks n xs = (if xs = [] \<or> n = 0 then [] else take n xs # chunks n (drop n xs))"
  by pat_completeness auto
termination by (relation "measure (\<lambda>(n, xs). length xs)") auto

declare chunks.simps [simp del]

text \<open>
  The nested loop over namespaces and chunks; \<open>send\<close> tells whether the request succeeded. A
  failure ends both loops with the index of the namespace and the offset of the chunk.
\<close>

fun send_chunks ::
  "('v list \<Rightarrow> 'st \<Rightarrow> 'st \<times> bool) \<Rightarrow> nat \<Rightarrow> nat \<Rightarrow> 'v list list \<Rightarrow> 'st \<Rightarrow> 'st \<times> (nat \<times> nat) option" where
  "send_chunks send i chunk_idx [] st = (st, None)"
| "send_chunks send i chunk_idx (c # cs) st =
     (case send c st of
        (st', True) \<Rightarrow> send_chunks send i (Suc chunk_idx) cs st'
      | (st', False) \<Rightarrow> (st', Some (i, chunk_idx * max_hashes_per_rpc)))"

fun send_groups ::
  "('k \<Rightarrow> 'v list \<Rightarrow> 'st \<Rightarrow> 'st \<times> bool) \<Rightarrow> nat \<Rightarrow> ('k \<times> 'v list) list \<Rightarrow> 'st \<Rightarrow> 'st \<times> (nat \<times> nat) option" where
  "send_groups send i [] st = (st, None)"
| "send_groups send i ((k, vs) # gs) st =
     (case send_chunks (send k) i 0 (chunks max_hashes_per_rpc vs) st of
        (st', None) \<Rightarrow> send_groups send (Suc i) gs st'
      | (st', Some failed_at) \<Rightarrow> (st', Some failed_at))"

definition unsent_after_failure :: "('k \<times> 'v list) list \<Rightarrow> nat \<Rightarrow> nat \<Rightarrow> nat" where
  "unsent_after_failure gs failed_idx failed_offset =
     (length (snd (gs ! failed_idx)) - failed_offset) + group_total (drop (failed_idx + 1) gs)"

definition apply_hints ::
  "('l, 'm, 's) client_env \<Rightarrow> string \<Rightarrow> (block_hash \<times> u64 option) list \<Rightarrow> block_hash list \<Rightarrow>
   ('l, 'm) read_cache \<Rightarrow> ('l, 'm) read_cache" where
  "apply_hints E ns chunk hints c =
     (let gens = List.map_filter (\<lambda>(h, g). map_option (Pair h) g) chunk
      in if gens = [] then snd (mark_reclaimable_hashes (e_lru E) (e_meta E) c ns hints)
         else mark_reclaimable_hashes_if_generation (e_lru E) (e_meta E) c ns (map_of (rev gens)) hints)"

definition insert_chunk ::
  "('l, 'm, 's) client_env \<Rightarrow> string \<times> bool \<Rightarrow> (block_hash \<times> u64 option) list \<Rightarrow>
   ('l, 'm, 's) loop_state \<Rightarrow> ('l, 'm, 's) loop_state \<times> bool" where
  "insert_chunk E g chunk st =
     (let (ns, hint) = g in
      case rpc_insert (e_rpc E) ns (map fst chunk) (e_node E) (e_id E) (lp_server st) of
        (s, Inr r) \<Rightarrow>
          (st\<lparr>lp_server := s,
              lp_cache := (if hint \<and> reclaimable_hashes r \<noteq> []
                           then map_option (apply_hints E ns chunk (reclaimable_hashes r)) (lp_cache st)
                           else lp_cache st)\<rparr>, True)
      | (s, Inl e) \<Rightarrow> (st\<lparr>lp_server := s, lp_heartbeat := reset_registration e (lp_heartbeat st)\<rparr>, False))"

definition remove_chunk ::
  "('l, 'm, 's) client_env \<Rightarrow> string \<Rightarrow> block_hash list \<Rightarrow> ('l, 'm, 's) loop_state \<Rightarrow> ('l, 'm, 's) loop_state \<times> bool" where
  "remove_chunk E ns chunk st =
     (case rpc_remove (e_rpc E) ns chunk (e_node E) (e_id E) (lp_server st) of
        (s, Inr r) \<Rightarrow> (st\<lparr>lp_server := s\<rparr>, True)
      | (s, Inl e) \<Rightarrow> (st\<lparr>lp_server := s, lp_heartbeat := reset_registration e (lp_heartbeat st)\<rparr>, False))"

section \<open>The registration loop\<close>

definition ack_flushes :: "nat list \<Rightarrow> ('l, 'm, 's) loop_state \<Rightarrow> ('l, 'm, 's) loop_state" where
  "ack_flushes acks st = st\<lparr>lp_acks := lp_acks st @ acks\<rparr>"

definition send_removes ::
  "('l, 'm, 's) client_env \<Rightarrow> block_hash_batch \<Rightarrow> ('l, 'm, 's) loop_state \<Rightarrow> ('l, 'm, 's) loop_state" where
  "send_removes E gs st =
     (case send_groups (remove_chunk E) 0 gs st of
        (st', None) \<Rightarrow> st'
      | (st', Some (idx, offset)) \<Rightarrow>
          st'\<lparr>removal_failures := removal_failures st' + unsent_after_failure gs idx offset, lp_connected := False\<rparr>)"

definition send_net ::
  "('l, 'm, 's) client_env \<Rightarrow> insert_groups \<Rightarrow> block_hash_batch \<Rightarrow> ('l, 'm, 's) loop_state \<Rightarrow> ('l, 'm, 's) loop_state" where
  "send_net E ins rem st =
     (let gs = it_ins (e_order E) ins in
      case send_groups (insert_chunk E) 0 gs st of
        (st', Some (idx, offset)) \<Rightarrow>
          st'\<lparr>registration_failures := registration_failures st' + unsent_after_failure gs idx offset,
              removal_failures := removal_failures st' + group_total rem, lp_connected := False\<rparr>
      | (st', None) \<Rightarrow> send_removes E (it_rem (e_order E) rem) st')"

datatype loop_flow = Continue | Stop | Panicked

definition process_commands ::
  "('l, 'm, 's) client_env \<Rightarrow> clock \<Rightarrow> metaserver_command list \<Rightarrow> ('l, 'm, 's) loop_state \<Rightarrow>
   ('l, 'm, 's) loop_state \<times> loop_flow" where
  "process_commands E clk cmds st =
     (case drain_commands cmds [] [] of
        Inl done \<Rightarrow> (ack_flushes [done] (unregister_current_session E st), Stop)
      | Inr (net, acks) \<Rightarrow>
          let (ins, rem) = split_net (it_net (e_order E) net) [] [] in
          case ensure_heartbeat_registered E clk st of
            (st', False) \<Rightarrow>
              (ack_flushes acks (st'\<lparr>registration_failures := registration_failures st' + group_total ins,
                                    removal_failures := removal_failures st' + group_total rem\<rparr>), Continue)
          | (st', True) \<Rightarrow>
              if \<not> lp_connected st' then (st', Panicked) else (ack_flushes acks (send_net E ins rem st'), Continue))"

text \<open>
  One round of \<open>registration_loop\<close>: the queue closed, a refill permit was taken, the
  heartbeat timer fired, or a command arrived with the commands drained behind it.
\<close>

datatype loop_event = QueueClosed | Refill | HeartbeatDue | Received metaserver_command "metaserver_command list"

definition refill_heartbeat :: "instant \<Rightarrow> heartbeat_state \<Rightarrow> heartbeat_state" where
  "refill_heartbeat now h =
     (if node_registered h \<and> backoff_ms h = initial_backoff_ms
      then h\<lparr>next_at := min (next_at h) (max (last_sent_at h + backup_refill_min_interval) now)\<rparr> else h)"

fun registration_step ::
  "('l, 'm, 's) client_env \<Rightarrow> clock \<Rightarrow> loop_event \<Rightarrow> ('l, 'm, 's) loop_state \<Rightarrow> ('l, 'm, 's) loop_state \<times> loop_flow" where
  "registration_step E clk QueueClosed st = (st, Stop)"
| "registration_step E clk Refill st =
     (st\<lparr>lp_backup := (lp_backup st)\<lparr>bs_refill := False\<rparr>, lp_heartbeat := refill_heartbeat (clk 0) (lp_heartbeat st)\<rparr>, Continue)"
| "registration_step E clk HeartbeatDue st = (fst (heartbeat_and_schedule E (clk 0) (clk 1) st), Continue)"
| "registration_step E clk (Received c cs) st =
     (case c of
        Shutdown done \<Rightarrow> (ack_flushes [done] (unregister_current_session E st), Stop)
      | _ \<Rightarrow> process_commands E clk (c # cs) st)"

section \<open>Chunks\<close>

lemma chunks_Nil [simp]: "chunks n [] = []"
  by (simp add: chunks.simps)

lemma chunks_step: "vs \<noteq> [] \<Longrightarrow> 0 < n \<Longrightarrow> chunks n vs = take n vs # chunks n (drop n vs)"
  by (subst chunks.simps) simp

lemma rpc_limit_pos [simp]: "0 < max_hashes_per_rpc"
  by (simp add: max_hashes_per_rpc_def)

lemma send_chunks_position:
  assumes "send_chunks send i c (chunks max_hashes_per_rpc vs) st = (st', Some (i', off))"
  shows "i' = i \<and> c * max_hashes_per_rpc \<le> off \<and> off - c * max_hashes_per_rpc < length vs"
  using assms
proof (induction max_hashes_per_rpc vs arbitrary: c st rule: chunks.induct)
  case (1 vs)
  show ?case
  proof (cases "vs = []")
    case False
    with 1 show ?thesis
      by (force simp: chunks_step split: prod.splits bool.splits)
  qed (use 1 in simp)
qed

lemma send_groups_position:
  assumes "send_groups send i gs st = (st', Some (idx, off))"
  shows "i \<le> idx \<and> idx - i < length gs \<and> off < length (snd (gs ! (idx - i)))"
  using assms
proof (induction gs arbitrary: i st)
  case (Cons g gs)
  obtain k vs where g: "g = (k, vs)" by (cases g)
  show ?case
  proof (cases "send_chunks (send k) i 0 (chunks max_hashes_per_rpc vs) st")
    case (Pair st1 r)
    show ?thesis
    proof (cases r)
      case None
      with Cons.prems Pair g have "send_groups send (Suc i) gs st1 = (st', Some (idx, off))" by simp
      from Cons.IH[OF this] have r: "Suc i \<le> idx" "idx - Suc i < length gs" "off < length (snd (gs ! (idx - Suc i)))" by auto
      then have "idx - i = Suc (idx - Suc i)" by linarith
      with r show ?thesis by simp
    next
      case (Some f)
      with Cons.prems Pair g have "send_chunks (send k) i 0 (chunks max_hashes_per_rpc vs) st = (st', Some (idx, off))" by simp
      from send_chunks_position[OF this] g show ?thesis by simp
    qed
  qed
qed simp

lemma unsent_positive:
  "send_groups send 0 gs st = (st', Some (idx, off)) \<Longrightarrow> 0 < unsent_after_failure gs idx off"
  using send_groups_position[of send 0 gs st st' idx off] by (simp add: unsent_after_failure_def)

text \<open>The items of a list of groups, in sending order.\<close>

definition group_items :: "('k \<times> 'v list) list \<Rightarrow> ('k \<times> 'v) list" where
  "group_items gs = concat (map (\<lambda>(k, vs). map (Pair k) vs) gs)"

lemma group_items_simps [simp]:
  "group_items [] = []" "group_items ((k, vs) # gs) = map (Pair k) vs @ group_items gs"
  by (simp_all add: group_items_def)

lemma length_group_items: "length (group_items gs) = group_total gs"
  by (induction gs) (auto simp: group_total_def)

text \<open>
  A sender whose accepted requests append to what has been sent: \<open>step st xs st'\<close> says that the
  items \<open>xs\<close> went out between \<open>st\<close> and \<open>st'\<close>.
\<close>

locale chunked_sender =
  fixes send :: "'k \<Rightarrow> 'v list \<Rightarrow> 'st \<Rightarrow> 'st \<times> bool"
    and item :: "'k \<times> 'v \<Rightarrow> 'x"
    and step :: "'st \<Rightarrow> 'x list \<Rightarrow> 'st \<Rightarrow> bool"
  assumes step_nil: "step st [] st"
    and step_append: "step st xs st' \<Longrightarrow> step st' ys st'' \<Longrightarrow> step st (xs @ ys) st''"
    and step_send: "c \<noteq> [] \<Longrightarrow> length c \<le> max_hashes_per_rpc \<Longrightarrow> send k c st = (st', True) \<Longrightarrow>
      step st (map (item \<circ> Pair k) c) st'"
begin

lemma chunks_sent:
  assumes "send_chunks (send k) i c (chunks max_hashes_per_rpc vs) st = (st', None)"
  shows "step st (map (item \<circ> Pair k) vs) st'"
  using assms
proof (induction max_hashes_per_rpc vs arbitrary: c st rule: chunks.induct)
  case (1 vs)
  let ?n = max_hashes_per_rpc
  show ?case
  proof (cases "vs = []")
    case False
    then obtain st1 where s: "send k (take ?n vs) st = (st1, True)"
      and r: "send_chunks (send k) i (Suc c) (chunks ?n (drop ?n vs)) st1 = (st', None)"
      using "1.prems" by (auto simp: chunks_step split: prod.splits bool.splits)
    have "step st (map (item \<circ> Pair k) (take ?n vs) @ map (item \<circ> Pair k) (drop ?n vs)) st'"
      using step_append[OF step_send[OF _ _ s] "1.hyps"[OF _ r]] False by simp
    then show ?thesis by (simp flip: map_append)
  qed (use 1 step_nil in simp)
qed

lemma groups_sent:
  "send_groups send i gs st = (st', None) \<Longrightarrow> step st (map item (group_items gs)) st'"
proof (induction gs arbitrary: i st)
  case (Cons g gs)
  obtain k vs where g: "g = (k, vs)" by (cases g)
  obtain st1 where s: "send_chunks (send k) i 0 (chunks max_hashes_per_rpc vs) st = (st1, None)"
    and r: "send_groups send (Suc i) gs st1 = (st', None)"
    using Cons.prems g by (auto split: prod.splits option.splits)
  from step_append[OF chunks_sent[OF s] Cons.IH[OF r]] g show ?case by (simp add: comp_def)
qed (simp add: step_nil)

end

text \<open>A sender whose rejected requests send nothing loses exactly the items it reports as unsent.\<close>

locale failing_sender = chunked_sender +
  assumes step_failed: "send k c st = (st', False) \<Longrightarrow> step st [] st'"
begin

lemma chunks_failed:
  assumes "send_chunks (send k) i c (chunks max_hashes_per_rpc vs) st = (st', Some (i', off))"
  shows "step st (map (item \<circ> Pair k) (take (off - c * max_hashes_per_rpc) vs)) st'"
  using assms
proof (induction max_hashes_per_rpc vs arbitrary: c st rule: chunks.induct)
  case (1 vs)
  let ?n = max_hashes_per_rpc
  show ?case
  proof (cases "vs = []")
    case False
    show ?thesis
    proof (cases "send k (take ?n vs) st")
      case (Pair st1 ok)
      show ?thesis
      proof (cases ok)
        case True
        then have r: "send_chunks (send k) i (Suc c) (chunks ?n (drop ?n vs)) st1 = (st', Some (i', off))"
          using "1.prems" False Pair by (simp add: chunks_step)
        let ?d = "off - Suc c * ?n"
        have d: "off - c * ?n = ?n + ?d" using send_chunks_position[OF r] by simp
        have "step st (map (item \<circ> Pair k) (take ?n vs) @ map (item \<circ> Pair k) (take ?d (drop ?n vs))) st'"
          using step_append[OF step_send[of "take ?n vs"] "1.hyps"[OF _ r]] False Pair True by simp
        then show ?thesis by (simp add: d take_add flip: map_append)
      next
        case False
        with "1.prems" \<open>vs \<noteq> []\<close> Pair have "st1 = st'" "off = c * ?n" by (simp_all add: chunks_step)
        with step_failed[of k "take ?n vs" st st1] Pair False show ?thesis by simp
      qed
    qed
  qed (use 1 in simp)
qed

lemma groups_failed:
  assumes "send_groups send i gs st = (st', Some (idx, off))"
  shows "\<exists>n. step st (map item (take n (group_items gs))) st' \<and>
           n + unsent_after_failure gs (idx - i) off = group_total gs"
  using assms
proof (induction gs arbitrary: i st)
  case (Cons g gs)
  obtain k vs where g: "g = (k, vs)" by (cases g)
  show ?case
  proof (cases "send_chunks (send k) i 0 (chunks max_hashes_per_rpc vs) st")
    case (Pair st1 r)
    show ?thesis
    proof (cases r)
      case None
      with Cons.prems Pair g have r: "send_groups send (Suc i) gs st1 = (st', Some (idx, off))" by simp
      from Cons.IH[OF r] obtain n where n: "step st1 (map item (take n (group_items gs))) st'"
          "n + unsent_after_failure gs (idx - Suc i) off = group_total gs" by blast
      have i: "idx - i = Suc (idx - Suc i)" using send_groups_position[OF r] by linarith
      have "step st (map item (take (length vs + n) (group_items (g # gs)))) st'"
        using step_append[OF chunks_sent n(1), of k i 0 vs st] Pair None g by (simp add: comp_def)
      moreover have "length vs + n + unsent_after_failure (g # gs) (idx - i) off = group_total (g # gs)"
        using n(2) g i by (simp add: unsent_after_failure_def group_total_def)
      ultimately show ?thesis by blast
    next
      case (Some f)
      with Cons.prems Pair g have s: "send_chunks (send k) i 0 (chunks max_hashes_per_rpc vs) st = (st', Some (idx, off))" by simp
      have p: "idx = i" "off < length vs" using send_chunks_position[OF s] by auto
      have "step st (map item (take off (group_items (g # gs)))) st'"
        using chunks_failed[OF s] g p by (simp add: comp_def take_map)
      moreover have "off + unsent_after_failure (g # gs) (idx - i) off = group_total (g # gs)"
        using g p by (simp add: unsent_after_failure_def group_total_def)
      ultimately show ?thesis by blast
    qed
  qed
qed simp

end

section \<open>Netting keeps the last operation\<close>

definition batch_ops :: "(hash_key \<Rightarrow> pending_operation) \<Rightarrow> block_hash_batch \<Rightarrow> net_ops" where
  "batch_ops op batch = map (\<lambda>k. (k, op k)) (group_items batch)"

fun command_ops :: "metaserver_command \<Rightarrow> net_ops" where
  "command_ops (Insert batch hint gens) = batch_ops (insert_op hint gens) batch"
| "command_ops (Remove batch) = batch_ops (\<lambda>_. PendingRemove) batch"
| "command_ops _ = []"

fun command_acks :: "metaserver_command \<Rightarrow> nat list" where
  "command_acks (Flush done) = [done]"
| "command_acks _ = []"

text \<open>The last operation the commands ask for on a key.\<close>

definition last_op :: "metaserver_command list \<Rightarrow> hash_key \<rightharpoonup> pending_operation" where
  "last_op cmds = map_of (rev (concat (map command_ops cmds)))"

definition update_all :: "net_ops \<Rightarrow> net_ops \<Rightarrow> net_ops" where
  "update_all ops net = fold (\<lambda>(k, v). AList.update k v) ops net"

lemma update_all_append: "update_all (xs @ ys) net = update_all ys (update_all xs net)"
  by (simp add: update_all_def)

lemma net_batch_update_all: "net_batch op batch net = update_all (batch_ops op batch) net"
proof (induction batch arbitrary: net)
  case (Cons g batch)
  obtain ns hs where g: "g = (ns, hs)" by (cases g)
  have "fold (\<lambda>h. AList.update (ns, h) (op (ns, h))) hs net = update_all (map (\<lambda>h. ((ns, h), op (ns, h))) hs) net"
    by (simp add: update_all_def fold_map comp_def)
  with Cons g show ?case by (simp add: net_batch_def batch_ops_def update_all_append comp_def)
qed (simp add: net_batch_def batch_ops_def update_all_def)

lemma update_all_map: "map_of (update_all ops net) = map_of net ++ map_of (rev ops)"
  by (induction ops arbitrary: net) (auto simp: update_all_def update_conv')

lemma update_all_distinct: "distinct (map fst net) \<Longrightarrow> distinct (map fst (update_all ops net))"
  by (induction ops arbitrary: net) (auto simp: update_all_def distinct_update)

lemma drain_commands_eq:
  "\<forall>d. Shutdown d \<notin> set cmds \<Longrightarrow>
   drain_commands cmds net acks = Inr (update_all (concat (map command_ops cmds)) net, acks @ concat (map command_acks cmds))"
proof (induction cmds arbitrary: net acks)
  case (Cons c cmds)
  then show ?case by (cases c) (auto simp: net_batch_update_all update_all_append update_all_def[of "[]"])
qed (simp add: update_all_def)

lemma drain_commands_net:
  assumes "\<forall>d. Shutdown d \<notin> set cmds"
  obtains net where "drain_commands cmds [] [] = Inr (net, concat (map command_acks cmds))"
    "map_of net = last_op cmds" "distinct (map fst net)"
  using drain_commands_eq[OF assms, of "[]" "[]"] update_all_distinct[of "[]"]
  by (simp add: last_op_def update_all_map)

section \<open>Grouping\<close>

lemma alist_push_distinct: "distinct (map fst m) \<Longrightarrow> distinct (map fst (alist_push k v m))"
  by (simp add: alist_push_def distinct_update)

lemma alist_push_items:
  "distinct (map fst m) \<Longrightarrow> mset (group_items (alist_push k v m)) = add_mset (k, v) (mset (group_items m))"
proof (induction m)
  case (Cons x m)
  obtain k' vs where x: "x = (k', vs)" by (cases x)
  show ?case
  proof (cases "k' = k")
    case True
    with x show ?thesis by (simp add: alist_push_def)
  next
    case False
    with x have "alist_push k v (x # m) = x # alist_push k v m" by (simp add: alist_push_def)
    with Cons x show ?thesis by simp
  qed
qed (simp add: alist_push_def)

definition is_insert :: "pending_operation \<Rightarrow> bool" where
  "is_insert op \<longleftrightarrow> op \<noteq> PendingRemove"

definition insert_item :: "(string \<times> bool) \<times> (block_hash \<times> u64 option) \<Rightarrow> hash_key" where
  "insert_item x = (fst (fst x), fst (snd x))"

lemma split_net_items:
  assumes "split_net ops ins rem = (ins', rem')" "distinct (map fst ins)" "distinct (map fst rem)"
  shows "image_mset insert_item (mset (group_items ins')) =
           image_mset insert_item (mset (group_items ins)) + mset (map fst (filter (is_insert \<circ> snd) ops))"
    and "mset (group_items rem') = mset (group_items rem) + mset (map fst (filter (Not \<circ> is_insert \<circ> snd) ops))"
  using assms
  by (induction ops ins rem rule: split_net.induct)
    (auto simp: is_insert_def insert_item_def alist_push_items alist_push_distinct)

lemma mset_group_items: "mset xs = mset ys \<Longrightarrow> mset (group_items xs) = mset (group_items ys)"
proof -
  have "mset (group_items xs) = sum_mset (image_mset (\<lambda>(k, vs). mset (map (Pair k) vs)) (mset xs))" for xs :: "('a \<times> 'b list) list"
    by (induction xs) auto
  then show "mset xs = mset ys \<Longrightarrow> ?thesis" by simp
qed

text \<open>What a drained batch sends: the keys whose last operation is an insert, and those whose last operation is a remove.\<close>

definition net_keys :: "metaserver_command list \<Rightarrow> (pending_operation \<Rightarrow> bool) \<Rightarrow> hash_key set" where
  "net_keys cmds p = {k. \<exists>op. last_op cmds k = Some op \<and> p op}"

lemma filtered_keys:
  assumes "distinct (map fst net)" "map_of net = last_op cmds" "mset net' = mset net"
  shows "distinct (map fst (filter (p \<circ> snd) net'))"
    and "set (map fst (filter (p \<circ> snd) net')) = net_keys cmds p"
proof -
  have d: "distinct (map fst net')" using assms(1,3) by (metis mset_eq_imp_distinct_iff mset_map)
  then show "distinct (map fst (filter (p \<circ> snd) net'))" by (simp add: distinct_map_filter)
  have "set net' = set net" using assms(3) by (rule mset_eq_setD)
  then show "set (map fst (filter (p \<circ> snd) net')) = net_keys cmds p"
    using assms(1) by (force simp: net_keys_def assms(2)[symmetric])
qed

lemma process_groups:
  assumes "iter_ok I" "\<forall>d. Shutdown d \<notin> set cmds"
  obtains net ins rem where "drain_commands cmds [] [] = Inr (net, concat (map command_acks cmds))"
    "split_net (it_net I net) [] [] = (ins, rem)"
    "distinct (map insert_item (group_items (it_ins I ins)))"
    "insert_item ` set (group_items (it_ins I ins)) = net_keys cmds is_insert"
    "distinct (group_items (it_rem I rem))"
    "set (group_items (it_rem I rem)) = net_keys cmds (Not \<circ> is_insert)"
    "group_total ins = card (net_keys cmds is_insert)"
    "group_total rem = card (net_keys cmds (Not \<circ> is_insert))"
    "group_total (it_ins I ins) = group_total ins"
    "group_total (it_rem I rem) = group_total rem"
proof -
  obtain net where net: "drain_commands cmds [] [] = Inr (net, concat (map command_acks cmds))"
    "map_of net = last_op cmds" "distinct (map fst net)" using drain_commands_net[OF assms(2)] .
  obtain ins rem where s: "split_net (it_net I net) [] [] = (ins, rem)" by fastforce
  have perm: "mset (it_net I net) = mset net" "mset (it_ins I ins) = mset ins" "mset (it_rem I rem) = mset rem"
    using assms(1) by (auto simp: iter_ok_def)
  note keys = filtered_keys[OF net(3,2) perm(1)]
  have i: "mset (map insert_item (group_items ins)) = mset (map fst (filter (is_insert \<circ> snd) (it_net I net)))"
    and r: "mset (group_items rem) = mset (map fst (filter (Not \<circ> is_insert \<circ> snd) (it_net I net)))"
    using split_net_items[OF s] by simp_all
  have i': "mset (map insert_item (group_items (it_ins I ins))) = mset (map fst (filter (is_insert \<circ> snd) (it_net I net)))"
    and r': "mset (group_items (it_rem I rem)) = mset (map fst (filter (Not \<circ> is_insert \<circ> snd) (it_net I net)))"
    using i r mset_group_items[OF perm(2)] mset_group_items[OF perm(3)] by simp_all
  have di: "distinct (map insert_item (group_items (it_ins I ins)))"
    using mset_eq_imp_distinct_iff[OF i'] keys(1)[of is_insert] by simp
  have dr: "distinct (group_items (it_rem I rem))"
    using mset_eq_imp_distinct_iff[OF r'] keys(1)[of "Not \<circ> is_insert"] by (simp add: comp_assoc)
  have si: "insert_item ` set (group_items (it_ins I ins)) = net_keys cmds is_insert"
    using mset_eq_setD[OF i'] keys(2)[of is_insert] by simp
  have sr: "set (group_items (it_rem I rem)) = net_keys cmds (Not \<circ> is_insert)"
    using mset_eq_setD[OF r'] keys(2)[of "Not \<circ> is_insert"] by (simp add: comp_assoc)
  have ti: "group_total (it_ins I ins) = card (net_keys cmds is_insert)"
    using distinct_card[OF di] si by (simp add: length_group_items)
  have tr: "group_total (it_rem I rem) = card (net_keys cmds (Not \<circ> is_insert))"
    using distinct_card[OF dr] sr by (simp add: length_group_items)
  have "group_total (it_ins I ins) = group_total ins" "group_total (it_rem I rem) = group_total rem"
    using mset_group_items[OF perm(2)] mset_group_items[OF perm(3)]
    by (metis length_group_items size_mset)+
  with that[OF net(1) s di si dr sr] ti tr show thesis by simp
qed

section \<open>Every operation is sent or counted\<close>

text \<open>\<open>recording R\<close> is the transport \<open>R\<close> with a log of the accepted requests.\<close>

datatype request = InsertRequest string "block_hash list" | RemoveRequest string "block_hash list"

fun request_hashes :: "request \<Rightarrow> block_hash list" where
  "request_hashes (InsertRequest ns hs) = hs"
| "request_hashes (RemoveRequest ns hs) = hs"

fun request_inserts :: "request \<Rightarrow> hash_key list" where
  "request_inserts (InsertRequest ns hs) = map (Pair ns) hs"
| "request_inserts (RemoveRequest ns hs) = []"

fun request_removes :: "request \<Rightarrow> hash_key list" where
  "request_removes (InsertRequest ns hs) = []"
| "request_removes (RemoveRequest ns hs) = map (Pair ns) hs"

definition logged :: "request \<Rightarrow> ('s \<times> (rpc_code + 'r)) \<Rightarrow> request list \<Rightarrow> ('s \<times> request list) \<times> (rpc_code + 'r)" where
  "logged q r log = (case r of (s, Inr v) \<Rightarrow> ((s, log @ [q]), Inr v) | (s, Inl e) \<Rightarrow> ((s, log), Inl e))"

definition recording :: "'s meta_rpc \<Rightarrow> ('s \<times> request list) meta_rpc" where
  "recording R =
     \<lparr>rpc_connect = \<lambda>(s, log). map_prod (\<lambda>s. (s, log)) id (rpc_connect R s),
      rpc_heartbeat = \<lambda>node nid has cands (s, log). map_prod (\<lambda>s. (s, log)) id (rpc_heartbeat R node nid has cands s),
      rpc_insert = \<lambda>ns hs node nid (s, log). logged (InsertRequest ns hs) (rpc_insert R ns hs node nid s) log,
      rpc_remove = \<lambda>ns hs node nid (s, log). logged (RemoveRequest ns hs) (rpc_remove R ns hs node nid s) log,
      rpc_unregister = \<lambda>node nid (s, log). map_prod (\<lambda>s. (s, log)) id (rpc_unregister R node nid s),
      rpc_query = \<lambda>ns hs node (s, log). map_prod (\<lambda>s. (s, log)) id (rpc_query R ns hs node s),
      rpc_pull = \<lambda>node nid mb (s, log). map_prod (\<lambda>s. (s, log)) id (rpc_pull R node nid mb s)\<rparr>"

definition send_frame :: "('l, 'm, 's) loop_state \<Rightarrow> ('l, 'm, 's) loop_state \<Rightarrow> bool" where
  "send_frame st st' \<longleftrightarrow> lp_acks st' = lp_acks st \<and> registration_failures st' = registration_failures st \<and>
     removal_failures st' = removal_failures st"

definition fits_rpc :: "request \<Rightarrow> bool" where
  "fits_rpc q \<longleftrightarrow> 1 \<le> length (request_hashes q) \<and> length (request_hashes q) \<le> max_hashes_per_rpc"

text \<open>\<open>delivered st ins rem st'\<close>: the requests accepted between the states carry exactly these keys.\<close>

definition delivered ::
  "('l, 'm, 's \<times> request list) loop_state \<Rightarrow> hash_key list \<Rightarrow> hash_key list \<Rightarrow> ('l, 'm, 's \<times> request list) loop_state \<Rightarrow> bool" where
  "delivered st ins rem st' \<longleftrightarrow>
     (\<exists>qs. snd (lp_server st') = snd (lp_server st) @ qs \<and> (\<forall>q \<in> set qs. fits_rpc q) \<and>
        concat (map request_inserts qs) = ins \<and> concat (map request_removes qs) = rem)"

lemma delivered_refl: "snd (lp_server st') = snd (lp_server st) \<Longrightarrow> delivered st [] [] st'"
  by (auto simp: delivered_def)

lemma delivered_trans:
  assumes "delivered st a b st'" "delivered st' c d st''"
  shows "delivered st (a @ c) (b @ d) st''"
proof -
  obtain qs where q: "snd (lp_server st') = snd (lp_server st) @ qs" "\<forall>q \<in> set qs. fits_rpc q"
    "concat (map request_inserts qs) = a" "concat (map request_removes qs) = b"
    using assms(1) by (auto simp: delivered_def)
  obtain rs where r: "snd (lp_server st'') = snd (lp_server st') @ rs" "\<forall>q \<in> set rs. fits_rpc q"
    "concat (map request_inserts rs) = c" "concat (map request_removes rs) = d"
    using assms(2) by (auto simp: delivered_def)
  show ?thesis unfolding delivered_def by (rule exI[of _ "qs @ rs"]) (use q r in auto)
qed

lemma delivered_one:
  "snd (lp_server st') = snd (lp_server st) @ [q] \<Longrightarrow> fits_rpc q \<Longrightarrow> delivered st (request_inserts q) (request_removes q) st'"
  by (auto simp: delivered_def)

interpretation insert_log: failing_sender "insert_chunk (E\<lparr>e_rpc := recording R\<rparr>)" insert_item
  "\<lambda>st xs st'. send_frame st st' \<and> delivered st xs [] st'" for E R
proof (unfold_locales, goal_cases)
  case (3 c k st st')
  obtain ns hint where k: "k = (ns, hint)" by (cases k)
  let ?q = "InsertRequest ns (map fst c)"
  have f: "send_frame st st'" and l: "snd (lp_server st') = snd (lp_server st) @ [?q]"
    using 3(3) by (auto simp: k insert_chunk_def recording_def logged_def send_frame_def split: prod.splits sum.splits)
  have "delivered st (request_inserts ?q) (request_removes ?q) st'"
    using delivered_one[OF l] 3(1,2) by (simp add: fits_rpc_def Suc_le_eq)
  moreover have "request_inserts ?q = map (insert_item \<circ> Pair k) c" by (simp add: k insert_item_def)
  ultimately show ?case using f by (metis request_removes.simps(1))
next
  case (4 k c st st')
  then show ?case
    by (auto simp: insert_chunk_def recording_def logged_def send_frame_def intro!: delivered_refl
        split: prod.splits sum.splits)
qed (use delivered_trans[of _ _ "[]" _ _ "[]"] in \<open>auto simp: send_frame_def intro: delivered_refl\<close>)

interpretation remove_log: failing_sender "remove_chunk (E\<lparr>e_rpc := recording R\<rparr>)" id
  "\<lambda>st xs st'. send_frame st st' \<and> delivered st [] xs st'" for E R
proof (unfold_locales, goal_cases)
  case (3 c k st st')
  let ?q = "RemoveRequest k c"
  have f: "send_frame st st'" and l: "snd (lp_server st') = snd (lp_server st) @ [?q]"
    using 3(3) by (auto simp: remove_chunk_def recording_def logged_def send_frame_def split: prod.splits sum.splits)
  moreover have "request_removes ?q = map (id \<circ> Pair k) c" by simp
  ultimately show ?case using delivered_one[OF l] 3(1,2) by (simp add: fits_rpc_def Suc_le_eq)
next
  case (4 k c st st')
  then show ?case
    by (auto simp: remove_chunk_def recording_def logged_def send_frame_def intro!: delivered_refl
        split: prod.splits sum.splits)
qed (use delivered_trans[of _ "[]" _ _ "[]"] in \<open>auto simp: send_frame_def intro: delivered_refl\<close>)

text \<open>A heartbeat changes the server only through the two calls it makes.\<close>

lemma ensure_connected_server:
  assumes "\<And>s. V (fst (rpc_connect (e_rpc E) s)) = V s"
  shows "V (lp_server (ensure_connected E st)) = V (lp_server st)" "send_frame st (ensure_connected E st)"
  using assms[of "lp_server st"]
  by (auto simp: ensure_connected_def send_frame_def split: prod.splits)

lemma send_heartbeat_server:
  assumes "\<And>s. V (fst (rpc_connect (e_rpc E) s)) = V s"
    and "\<And>has cands s. V (fst (rpc_heartbeat (e_rpc E) (e_node E) (e_id E) has cands s)) = V s"
    and "send_heartbeat E now st = (st', r)"
  shows "V (lp_server st') = V (lp_server st) \<and> send_frame st st'"
proof -
  let ?c = "ensure_connected E st"
  let ?cands = "reporter_candidates E (lp_backup ?c) (lp_cache ?c)"
  let ?b = "start_report (of_nat (sum_list (map (length \<circ> bc_hashes) ?cands))) (lp_backup ?c)"
  have "V (lp_server st') = V (lp_server ?c) \<and> send_frame ?c st'"
    using assms(2)[of "bs_has_instance ?b" ?cands "lp_server ?c"] assms(3)
    unfolding send_heartbeat_def Let_def
    by (auto simp: send_frame_def split: if_splits prod.splits sum.splits)
  with ensure_connected_server[where V = V, OF assms(1), of st] show ?thesis by (simp add: send_frame_def)
qed

lemma ensure_registered_server:
  assumes "\<And>s. V (fst (rpc_connect (e_rpc E) s)) = V s"
    and "\<And>has cands s. V (fst (rpc_heartbeat (e_rpc E) (e_node E) (e_id E) has cands s)) = V s"
    and "ensure_heartbeat_registered E clk st = (st', ok)"
  shows "V (lp_server st') = V (lp_server st) \<and> send_frame st st'"
proof (cases "send_heartbeat E (clk 1) st")
  case (Pair st1 r)
  from send_heartbeat_server[where V = V, OF assms(1,2) this] Pair assms(3) show ?thesis
    by (auto simp: ensure_heartbeat_registered_def heartbeat_and_schedule_def send_frame_def split: if_splits)
qed

lemma ensure_registered_connected:
  assumes "ensure_heartbeat_registered E clk st = (st', True)"
  shows "lp_connected st'"
proof (cases "send_heartbeat E (clk 1) st")
  case (Pair st1 r)
  then have "\<not> isl r \<Longrightarrow> lp_connected st1"
    by (auto simp: send_heartbeat_def Let_def split: if_splits prod.splits sum.splits)
  with Pair assms show ?thesis
    by (auto simp: ensure_heartbeat_registered_def heartbeat_and_schedule_def split: if_splits)
qed

lemma send_removes_spec:
  fixes E :: "('l, 'm, 's \<times> request list) client_env"
  shows "\<exists>n. delivered st [] (take n (group_items gs)) (send_removes (E\<lparr>e_rpc := recording R\<rparr>) gs st) \<and>
     n \<le> group_total gs \<and>
     lp_acks (send_removes (E\<lparr>e_rpc := recording R\<rparr>) gs st) = lp_acks st \<and>
     registration_failures (send_removes (E\<lparr>e_rpc := recording R\<rparr>) gs st) = registration_failures st \<and>
     removal_failures (send_removes (E\<lparr>e_rpc := recording R\<rparr>) gs st) = removal_failures st + (group_total gs - n)"
proof -
  let ?E = "E\<lparr>e_rpc := recording R\<rparr>"
  obtain st1 f where s: "send_groups (remove_chunk ?E) 0 gs st = (st1, f)" by fastforce
  show ?thesis
  proof (cases f)
    case None
    from remove_log.groups_sent[OF s[unfolded None]] s None show ?thesis
      by (intro exI[of _ "group_total gs"]) (simp add: send_removes_def send_frame_def flip: length_group_items)
  next
    case (Some p)
    obtain idx off where p: "p = (idx, off)" by (cases p)
    from remove_log.groups_failed[OF s[unfolded Some p]] obtain n where
      n: "send_frame st st1" "delivered st [] (take n (group_items gs)) st1"
        "n + unsent_after_failure gs idx off = group_total gs" by auto
    then show ?thesis using s Some p
      by (intro exI[of _ n]) (auto simp: send_removes_def send_frame_def delivered_def)
  qed
qed

lemma send_net_spec:
  fixes E :: "('l, 'm, 's \<times> request list) client_env"
  assumes "group_total (it_ins (e_order E) ins) = group_total ins" "group_total (it_rem (e_order E) rem) = group_total rem"
  shows "\<exists>n k. delivered st (take n (map insert_item (group_items (it_ins (e_order E) ins))))
       (take k (group_items (it_rem (e_order E) rem))) (send_net (E\<lparr>e_rpc := recording R\<rparr>) ins rem st) \<and>
     n \<le> group_total ins \<and> k \<le> group_total rem \<and>
     lp_acks (send_net (E\<lparr>e_rpc := recording R\<rparr>) ins rem st) = lp_acks st \<and>
     registration_failures (send_net (E\<lparr>e_rpc := recording R\<rparr>) ins rem st) = registration_failures st + (group_total ins - n) \<and>
     removal_failures (send_net (E\<lparr>e_rpc := recording R\<rparr>) ins rem st) = removal_failures st + (group_total rem - k)"
proof -
  let ?E = "E\<lparr>e_rpc := recording R\<rparr>" and ?gs = "it_ins (e_order E) ins" and ?rs = "it_rem (e_order E) rem"
  obtain st1 f where s: "send_groups (insert_chunk ?E) 0 ?gs st = (st1, f)" by fastforce
  show ?thesis
  proof (cases f)
    case None
    from insert_log.groups_sent[OF s[unfolded None]] have d: "send_frame st st1"
      "delivered st (map insert_item (group_items ?gs)) [] st1" by auto
    obtain k where k: "delivered st1 [] (take k (group_items ?rs)) (send_removes ?E ?rs st1)" "k \<le> group_total rem"
       "lp_acks (send_removes ?E ?rs st1) = lp_acks st1"
       "registration_failures (send_removes ?E ?rs st1) = registration_failures st1"
       "removal_failures (send_removes ?E ?rs st1) = removal_failures st1 + (group_total rem - k)"
      using send_removes_spec[where st = st1 and gs = ?rs and E = E and R = R] assms(2) by auto
    have "delivered st (take (group_total ins) (map insert_item (group_items ?gs))) (take k (group_items ?rs)) (send_removes ?E ?rs st1)"
      using delivered_trans[OF d(2) k(1)] by (simp add: length_group_items assms(1))
    with d(1) k s None show ?thesis
      by (intro exI[of _ "group_total ins"] exI[of _ k]) (simp add: send_net_def send_frame_def)
  next
    case (Some p)
    obtain idx off where p: "p = (idx, off)" by (cases p)
    from insert_log.groups_failed[OF s[unfolded Some p]] obtain n where
      n: "send_frame st st1" "delivered st (map insert_item (take n (group_items ?gs))) [] st1"
        "n + unsent_after_failure ?gs idx off = group_total ins" using assms(1) by auto
    then show ?thesis using s Some p
      by (intro exI[of _ n] exI[of _ 0]) (auto simp: send_net_def send_frame_def delivered_def take_map)
  qed
qed

lemma process_commands_spec:
  assumes "iter_ok (e_order E)" and "\<forall>d. Shutdown d \<notin> set cmds"
    and "process_commands (E\<lparr>e_rpc := recording R\<rparr>) clk cmds st = (st', flow)"
  shows "\<exists>ins rem n k. delivered st (take n ins) (take k rem) st' \<and> n \<le> length ins \<and> k \<le> length rem \<and>
     distinct ins \<and> set ins = net_keys cmds is_insert \<and> distinct rem \<and> set rem = net_keys cmds (Not \<circ> is_insert) \<and>
     lp_acks st' = lp_acks st @ concat (map command_acks cmds) \<and> flow = Continue \<and>
     registration_failures st' = registration_failures st + (length ins - n) \<and>
     removal_failures st' = removal_failures st + (length rem - k)"
proof -
  let ?E = "E\<lparr>e_rpc := recording R\<rparr>"
  obtain net ins rem where g: "drain_commands cmds [] [] = Inr (net, concat (map command_acks cmds))"
    "split_net (it_net (e_order E) net) [] [] = (ins, rem)"
    "distinct (map insert_item (group_items (it_ins (e_order E) ins)))"
    "insert_item ` set (group_items (it_ins (e_order E) ins)) = net_keys cmds is_insert"
    "distinct (group_items (it_rem (e_order E) rem))"
    "set (group_items (it_rem (e_order E) rem)) = net_keys cmds (Not \<circ> is_insert)"
    "group_total ins = card (net_keys cmds is_insert)"
    "group_total rem = card (net_keys cmds (Not \<circ> is_insert))"
    "group_total (it_ins (e_order E) ins) = group_total ins"
    "group_total (it_rem (e_order E) rem) = group_total rem"
    by (rule process_groups[OF assms(1,2)])
  obtain st1 ok where h: "ensure_heartbeat_registered ?E clk st = (st1, ok)" by fastforce
  have f: "snd (lp_server st1) = snd (lp_server st)" "send_frame st st1"
    using ensure_registered_server[of snd ?E, OF _ _ h] by (auto simp: recording_def)
  have "\<exists>n k. delivered st (take n (map insert_item (group_items (it_ins (e_order E) ins))))
       (take k (group_items (it_rem (e_order E) rem))) st' \<and> n \<le> group_total ins \<and> k \<le> group_total rem \<and>
     lp_acks st' = lp_acks st @ concat (map command_acks cmds) \<and> flow = Continue \<and>
     registration_failures st' = registration_failures st + (group_total ins - n) \<and>
     removal_failures st' = removal_failures st + (group_total rem - k)"
  proof (cases ok)
    case True
    let ?s = "send_net ?E ins rem st1"
    have st': "st' = ack_flushes (concat (map command_acks cmds)) ?s" "flow = Continue"
      using assms(3) g(1,2) h True ensure_registered_connected[of ?E clk st st1]
      by (auto simp: process_commands_def)
    with send_net_spec[OF g(9,10), where st = st1 and R = R] f show ?thesis
      by (auto simp: ack_flushes_def send_frame_def delivered_def)
  next
    case False
    with assms(3) g(1,2) h f show ?thesis
      by (intro exI[of _ 0]) (auto simp: process_commands_def ack_flushes_def send_frame_def delivered_def)
  qed
  then show ?thesis using g
    by (intro exI[of _ "map insert_item (group_items (it_ins (e_order E) ins))"] exI[of _ "group_items (it_rem (e_order E) rem)"])
      (simp add: length_group_items)
qed

text \<open>
  C11. Every netted operation is sent or counted as dropped. The loop nets a drained batch of
  commands to the last operation per hash and talks to the server through some transport. The
  requests it accepts carry between 1 and 16384 hashes; no hash is sent twice; an insert is sent
  only for a hash whose last command was an insert and a remove only where it was a remove; the
  failure counters grow by exactly the operations that were not accepted; every flush in the batch
  is answered; and the loop does not panic.
\<close>

theorem batch_sent_or_counted:
  assumes "iter_ok (e_order E)" and "\<forall>d. Shutdown d \<notin> set cmds"
    and "process_commands (E\<lparr>e_rpc := recording R\<rparr>) clk cmds st = (st', flow)"
  shows "(\<exists>qs. snd (lp_server st') = snd (lp_server st) @ qs \<and>
      (\<forall>q \<in> set qs. 1 \<le> length (request_hashes q) \<and> length (request_hashes q) \<le> 16384) \<and>
      distinct (concat (map request_inserts qs)) \<and> distinct (concat (map request_removes qs)) \<and>
      set (concat (map request_inserts qs)) \<subseteq> net_keys cmds is_insert \<and>
      set (concat (map request_removes qs)) \<subseteq> net_keys cmds (Not \<circ> is_insert) \<and>
      length (concat (map request_inserts qs)) + registration_failures st' =
        card (net_keys cmds is_insert) + registration_failures st \<and>
      length (concat (map request_removes qs)) + removal_failures st' =
        card (net_keys cmds (Not \<circ> is_insert)) + removal_failures st) \<and>
    lp_acks st' = lp_acks st @ concat (map command_acks cmds) \<and> flow = Continue"
proof -
  obtain ins rem n k where d: "delivered st (take n ins) (take k rem) st'" "n \<le> length ins" "k \<le> length rem"
     and s: "distinct ins" "set ins = net_keys cmds is_insert" "distinct rem" "set rem = net_keys cmds (Not \<circ> is_insert)"
     and r: "lp_acks st' = lp_acks st @ concat (map command_acks cmds)" "flow = Continue"
     and c: "registration_failures st' = registration_failures st + (length ins - n)"
       "removal_failures st' = removal_failures st + (length rem - k)"
    using process_commands_spec[OF assms] by blast
  have t: "card (net_keys cmds is_insert) = length ins" "card (net_keys cmds (Not \<circ> is_insert)) = length rem"
    using distinct_card[OF s(1)] distinct_card[OF s(3)] s(2,4) by simp_all
  from d(1) obtain qs where q: "snd (lp_server st') = snd (lp_server st) @ qs" "\<forall>q \<in> set qs. fits_rpc q"
      "concat (map request_inserts qs) = take n ins" "concat (map request_removes qs) = take k rem"
    unfolding delivered_def by blast
  show ?thesis
  proof (intro conjI exI[of _ qs])
    show "\<forall>q \<in> set qs. 1 \<le> length (request_hashes q) \<and> length (request_hashes q) \<le> 16384"
      using q(2) by (simp add: fits_rpc_def max_hashes_per_rpc_def)
    show "set (concat (map request_inserts qs)) \<subseteq> net_keys cmds is_insert"
      unfolding q(3) using set_take_subset[of n ins] s(2) by simp
    show "set (concat (map request_removes qs)) \<subseteq> net_keys cmds (Not \<circ> is_insert)"
      unfolding q(4) using set_take_subset[of k rem] s(4) by simp
  qed (use q(1) r c t d(2,3) s(1,3) in \<open>simp_all add: q(3,4)\<close>)
qed

section \<open>Example\<close>

definition wrefusing :: "unit meta_rpc" where
  "wrefusing =
     \<lparr>rpc_connect = \<lambda>s. (s, False), rpc_heartbeat = \<lambda>_ _ _ _ s. (s, Inl OtherCode),
      rpc_insert = \<lambda>_ _ _ _ s. (s, Inl OtherCode), rpc_remove = \<lambda>_ _ _ _ s. (s, Inl OtherCode),
      rpc_unregister = \<lambda>_ _ s. (s, None), rpc_query = \<lambda>_ _ _ s. (s, Inl OtherCode),
      rpc_pull = \<lambda>_ _ _ s. (s, Inl OtherCode)\<rparr>"

definition worder :: iter_order where
  "worder = \<lparr>it_net = rev, it_ins = id, it_rem = id\<rparr>"

definition wenv :: "'s meta_rpc \<Rightarrow> ((block_key \<times> arc_block) list, (block_key \<times> resident_metadata) list, 's) client_env" where
  "wenv R = \<lparr>e_lru = list_lru, e_meta = list_lru, e_cfg = \<lparr>capacity_bytes = 100, backup_reclaimable_percent = 10\<rparr>,
             e_strong = \<lambda>_. 1, e_max_candidates = 4, e_rpc = R, e_node = ''a'', e_id = ''1'', e_order = worder\<rparr>"

text \<open>Node \<open>a\<close> owns the hash 7; it replaces it by the hash 8.\<close>

definition wcmds :: "metaserver_command list" where
  "wcmds = [Insert [(''m'', [[7], [8]])] False Map.empty, Flush 3, Remove [(''m'', [[7]])]]"

definition wloop :: "'s \<Rightarrow> ((block_key \<times> arc_block) list, (block_key \<times> resident_metadata) list, 's) loop_state" where
  "wloop s = (loop_start 0 None s)\<lparr>lp_connected := True, lp_heartbeat := (heartbeat_state_new 0)\<lparr>node_registered := True\<rparr>\<rparr>"

lemma wdrain: "drain_commands wcmds [] [] =
    Inr ([((''m'', [7]), PendingRemove), ((''m'', [8]), PendingInsert False None)], [3])"
  by (simp add: wcmds_def net_batch_def insert_op_def)

lemma wlast: "last_op wcmds = [(''m'', [7]) \<mapsto> PendingRemove, (''m'', [8]) \<mapsto> PendingInsert False None]"
  by (auto simp: last_op_def wcmds_def batch_ops_def insert_op_def)

lemma worder_ok: "iter_ok worder"
  by (simp add: iter_ok_def worder_def)

theorem batch_sent_or_counted_witness:
  "\<exists>st' qs. process_commands (wenv (recording wrefusing)) (\<lambda>_. 5) wcmds (wloop ((), [])) = (st', Continue) \<and>
     snd (lp_server st') = qs \<and> registration_failures st' + length (concat (map request_inserts qs)) = 1 \<and> lp_acks st' = [3]"
proof -
  obtain st' f where p: "process_commands (wenv (recording wrefusing)) (\<lambda>_. 5) wcmds (wloop ((), [])) = (st', f)" by fastforce
  have e: "(wenv (recording wrefusing))\<lparr>e_rpc := recording wrefusing\<rparr> = wenv (recording wrefusing)" by (simp add: wenv_def)
  have "net_keys wcmds is_insert = {(''m'', [8])}" by (auto simp: net_keys_def wlast is_insert_def split: if_splits)
  with batch_sent_or_counted[where E = "wenv (recording wrefusing)" and R = wrefusing and cmds = wcmds, unfolded e, OF _ _ p] p
  show ?thesis using worder_ok by (auto simp: wenv_def wcmds_def wloop_def loop_start_def)
qed

end
