(* ===== verification/Meta_Heartbeat.thy ===== *)
theory Meta_Heartbeat
  imports Meta_Client
begin

text \<open>
  The heartbeat schedule of the MetaServer client: the backoff stays within its bounds in every
  state the registration loop can reach, and what a heartbeat leaves behind.
\<close>

section \<open>Heartbeat schedule\<close>

text \<open>
  The states of the loop: it starts, takes rounds, and between rounds the other users of the
  backup state, the cache and the server change those.
\<close>

inductive loop_reach :: "('l, 'm, 's) client_env \<Rightarrow> ('l, 'm, 's) loop_state \<Rightarrow> bool" for E where
  lr_start: "loop_reach E (loop_start now cache s)"
| lr_step: "loop_reach E st \<Longrightarrow> registration_step E clk ev st = (st', Continue) \<Longrightarrow> loop_reach E st'"
| lr_other: "loop_reach E st \<Longrightarrow> loop_reach E (st\<lparr>lp_backup := b, lp_cache := c, lp_server := s\<rparr>)"

definition backoff_ok :: "('l, 'm, 's) loop_state \<Rightarrow> bool" where
  "backoff_ok st \<longleftrightarrow> 100 \<le> unat (backoff_ms (lp_heartbeat st)) \<and> unat (backoff_ms (lp_heartbeat st)) \<le> 30000"

lemma backoff_step:
  assumes "100 \<le> unat (w :: u64)" "unat w \<le> 30000"
  shows "unat (min (w * 2) max_backoff_ms) = min (2 * unat w) 30000"
proof -
  have "unat (w * 2) = 2 * unat w" using assms(2) by (simp add: unat_mult_fits)
  then show ?thesis by (simp add: min_def word_le_nat_alt max_backoff_ms_def)
qed

lemma initial_backoff_ok: "unat initial_backoff_ms = 100"
  by (simp add: initial_backoff_ms_def)

lemma reset_backoff [simp]: "backoff_ms (reset_registration e h) = backoff_ms h"
  by (simp add: reset_registration_def)

lemma connected_backoff: "backoff_ok st \<Longrightarrow> backoff_ok (ensure_connected E st)"
  by (auto simp: ensure_connected_def backoff_ok_def initial_backoff_ok split: prod.split)

lemma send_heartbeat_outcome:
  assumes "backoff_ok st" "send_heartbeat E now st = (st', r)"
  shows "backoff_ok st'"
    and "r = Inl d \<Longrightarrow> 100 \<le> d \<and> d \<le> 30000 \<and> unat (backoff_ms (lp_heartbeat st')) = min (2 * d) 30000 \<and> \<not> lp_connected st'"
    and "r = Inr p \<Longrightarrow> 1000 \<le> p \<and> lp_connected st' \<and> node_registered (lp_heartbeat st') \<and>
      backoff_ms (lp_heartbeat st') = initial_backoff_ms"
proof -
  note ok = connected_backoff[OF assms(1), of E, unfolded backoff_ok_def]
  note step = backoff_step[OF ok[THEN conjunct1] ok[THEN conjunct2]]
  show "backoff_ok st'" using assms(2) ok step
    unfolding send_heartbeat_def Let_def
    by (auto simp: advance_backoff_def backoff_ok_def initial_backoff_ok split: if_splits prod.splits sum.splits)
  show "100 \<le> d \<and> d \<le> 30000 \<and> unat (backoff_ms (lp_heartbeat st')) = min (2 * d) 30000 \<and> \<not> lp_connected st'" if "r = Inl d"
    using assms(2) ok step that unfolding send_heartbeat_def Let_def
    by (auto simp: advance_backoff_def split: if_splits prod.splits sum.splits)
  show "1000 \<le> p \<and> lp_connected st' \<and> node_registered (lp_heartbeat st') \<and> backoff_ms (lp_heartbeat st') = initial_backoff_ms"
    if "r = Inr p"
    using assms(2) that unfolding send_heartbeat_def Let_def
    by (auto simp: heartbeat_period_from_stale_after_def min_heartbeat_interval_secs_def
        split: if_splits prod.splits sum.splits)
qed

lemma schedule_backoff [simp]: "backoff_ms (schedule_next now r h) = backoff_ms h"
  by (simp add: schedule_next_def split: sum.split)

lemma heartbeat_and_schedule_backoff:
  "backoff_ok st \<Longrightarrow> backoff_ok (fst (heartbeat_and_schedule E a b st))"
  using send_heartbeat_outcome(1)[of st E a]
  by (auto simp: heartbeat_and_schedule_def backoff_ok_def split: prod.split)

lemma send_groups_keeps:
  assumes "\<And>k c st. V (fst (send k c st)) = V st"
  shows "V (fst (send_groups send i gs st)) = V st"
proof -
  have ch: "V (fst (send_chunks (send k) i c cs st)) = V st" for k i c cs st
  proof (induction cs arbitrary: c st)
    case (Cons x cs)
    obtain st1 ok where s: "send k x st = (st1, ok)" by fastforce
    with assms[of k x st] Cons.IH[of "Suc c" st1] show ?case by (cases ok) auto
  qed simp
  show ?thesis
  proof (induction gs arbitrary: i st)
    case (Cons g gs)
    obtain k vs where g: "g = (k, vs)" by (cases g)
    obtain st1 r where s: "send_chunks (send k) i 0 (chunks max_hashes_per_rpc vs) st = (st1, r)" by fastforce
    have "V st1 = V st" using ch[of k i 0 "chunks max_hashes_per_rpc vs" st] s by simp
    with s g Cons.IH[of "Suc i" st1] show ?case by (cases r) auto
  qed simp
qed

lemma send_net_backoff: "backoff_ms (lp_heartbeat (send_net E ins rem st)) = backoff_ms (lp_heartbeat st)"
proof -
  let ?V = "\<lambda>st. backoff_ms (lp_heartbeat st)"
  have i: "?V (fst (send_groups (insert_chunk E) 0 gs st)) = ?V st" for gs st
    by (rule send_groups_keeps) (auto simp: insert_chunk_def split: prod.split sum.split)
  have r: "?V (fst (send_groups (remove_chunk E) 0 gs st)) = ?V st" for gs st
    by (rule send_groups_keeps) (auto simp: remove_chunk_def split: prod.split sum.split)
  have "?V (send_removes E gs st) = ?V st" for gs st
    using r[of gs st] by (auto simp: send_removes_def split: prod.split option.split)
  then show ?thesis using i[of "it_ins (e_order E) ins" st]
    by (auto simp: send_net_def Let_def split: prod.split option.split)
qed

lemma process_commands_backoff:
  assumes "backoff_ok st"
  shows "backoff_ok (fst (process_commands E clk cmds st))"
proof (cases "drain_commands cmds [] []")
  case (Inl d)
  then show ?thesis using assms
    by (auto simp: process_commands_def ack_flushes_def unregister_current_session_def backoff_ok_def Let_def split: prod.split)
next
  case (Inr x)
  obtain net acks where x: "x = (net, acks)" by (cases x)
  obtain ins rem where g: "split_net (it_net (e_order E) net) [] [] = (ins, rem)" by fastforce
  obtain st1 ok where h: "ensure_heartbeat_registered E clk st = (st1, ok)" by fastforce
  have "backoff_ok st1"
    using h assms heartbeat_and_schedule_backoff[OF assms, of E "clk 1" "clk 2"]
    by (auto simp: ensure_heartbeat_registered_def split: if_splits)
  with Inr x g h show ?thesis
    by (cases ok) (auto simp: process_commands_def ack_flushes_def backoff_ok_def send_net_backoff)
qed

lemma loop_reach_backoff: "loop_reach E st \<Longrightarrow> backoff_ok st"
proof (induction rule: loop_reach.induct)
  case (lr_start now cache s)
  then show ?case by (simp add: loop_start_def heartbeat_state_new_def backoff_ok_def initial_backoff_ok)
next
  case (lr_step st clk ev st')
  show ?case
  proof (cases ev)
    case Refill
    with lr_step show ?thesis by (auto simp: backoff_ok_def refill_heartbeat_def)
  next
    case HeartbeatDue
    with lr_step show ?thesis using heartbeat_and_schedule_backoff[OF lr_step.IH, of E "clk 0" "clk 1"] by simp
  next
    case (Received c cs)
    with lr_step.hyps(2) process_commands_backoff[OF lr_step.IH, of E clk "c # cs"] show ?thesis
      by (cases c) auto
  qed (use lr_step in auto)
qed (simp add: backoff_ok_def)

text \<open>
  C36. In every state of the registration loop the backoff lies between 100 ms and 30 s. A failed
  heartbeat asks for a retry after the current delay, which lies in the same bounds, doubles the
  next one up to the cap and drops the connection; an accepted one leaves the node
  registered and connected, resets the backoff and schedules the next heartbeat at least a
  second later.
\<close>

theorem heartbeat_schedule:
  assumes "loop_reach E st" and "send_heartbeat E now st = (st', r)"
  shows "100 \<le> unat (backoff_ms (lp_heartbeat st)) \<and> unat (backoff_ms (lp_heartbeat st)) \<le> 30000 \<and>
    (case r of
       Inl d \<Rightarrow> 100 \<le> d \<and> d \<le> 30000 \<and> unat (backoff_ms (lp_heartbeat st')) = min (2 * d) 30000 \<and> \<not> lp_connected st'
     | Inr p \<Rightarrow> 1000 \<le> p \<and> lp_connected st' \<and> node_registered (lp_heartbeat st') \<and>
         backoff_ms (lp_heartbeat st') = initial_backoff_ms)"
  using loop_reach_backoff[OF assms(1)] send_heartbeat_outcome(2,3)[OF loop_reach_backoff[OF assms(1)] assms(2)]
  by (auto simp: backoff_ok_def split: sum.split)

text \<open>
  C38. A successful connection resets the backoff before the heartbeat is sent, and a failed heartbeat
  drops the connection. While the server accepts connections and rejects heartbeats, every
  retry is therefore scheduled after the initial delay, and the delay never grows.
\<close>

theorem rejected_heartbeat_never_backs_off:
  assumes "\<And>s. snd (rpc_connect (e_rpc E) s)"
    and "\<And>node nid has cands s. isl (snd (rpc_heartbeat (e_rpc E) node nid has cands s))"
    and "\<not> lp_connected st"
  shows "snd (send_heartbeat E now st) = Inl 100 \<and> \<not> lp_connected (fst (send_heartbeat E now st))"
proof -
  let ?c = "ensure_connected E st"
  have c: "lp_connected ?c" "backoff_ms (lp_heartbeat ?c) = initial_backoff_ms"
    using assms(1)[of "lp_server st"] assms(3) by (auto simp: ensure_connected_def split: prod.split)
  let ?cands = "reporter_candidates E (lp_backup ?c) (lp_cache ?c)"
  let ?b = "start_report (of_nat (sum_list (map (length \<circ> bc_hashes) ?cands))) (lp_backup ?c)"
  obtain s e where "rpc_heartbeat (e_rpc E) (e_node E) (e_id E) (bs_has_instance ?b) ?cands (lp_server ?c) = (s, Inl e)"
    using assms(2)[of "e_node E" "e_id E" "bs_has_instance ?b" ?cands "lp_server ?c"]
    by (metis isl_def prod.collapse)
  with c show ?thesis unfolding send_heartbeat_def Let_def by (simp add: advance_backoff_def initial_backoff_ok)
qed

section \<open>Example\<close>

theorem heartbeat_schedule_witness:
  "snd (send_heartbeat (wenv wrefusing) 5 (loop_start 0 None ())) = Inl 100 \<and>
   unat (backoff_ms (lp_heartbeat (fst (send_heartbeat (wenv wrefusing) 5 (loop_start 0 None ()))))) = 200"
proof -
  obtain st' r where s: "send_heartbeat (wenv wrefusing) 5 (loop_start 0 None ()) = (st', r)" by fastforce
  then have r: "r = Inl 100"
    by (auto simp: send_heartbeat_def ensure_connected_def wenv_def wrefusing_def loop_start_def advance_backoff_def
        heartbeat_state_new_def initial_backoff_ok)
  from heartbeat_schedule[OF lr_start s] r s show ?thesis by simp
qed

theorem rejected_heartbeat_never_backs_off_witness:
  "snd (send_heartbeat (wenv (wrefusing\<lparr>rpc_connect := \<lambda>s. (s, True)\<rparr>)) 5 (loop_start 0 None ())) = Inl 100"
  using rejected_heartbeat_never_backs_off[of "wenv (wrefusing\<lparr>rpc_connect := \<lambda>s. (s, True)\<rparr>)" "loop_start 0 None ()" 5]
  by (simp add: wenv_def wrefusing_def loop_start_def)

end
