(* ===== verification/Meta_Registration.thy ===== *)
theory Meta_Registration
  imports Meta_Heartbeat
begin

text \<open>
  The client's registration loop and the MetaServer together: \<open>ownership_server\<close> is what the
  client relies on, \<open>direct_rpc\<close> puts the handlers of \<open>Meta_Service\<close> behind a network that may
  lose requests and responses, and the interpretation \<open>meta_server\<close> shows that the handlers
  provide it.
\<close>

section \<open>Registrations follow the last command\<close>

definition counters :: "('l, 'm, 's) loop_state \<Rightarrow> nat list \<times> nat \<times> nat" where
  "counters st = (lp_acks st, registration_failures st, removal_failures st)"

lemma send_frame_counters: "send_frame st st' \<longleftrightarrow> counters st' = counters st"
  by (simp add: send_frame_def counters_def)

lemma insert_groups_frame: "send_frame st (fst (send_groups (insert_chunk E) i gs st))"
  unfolding send_frame_counters
  by (rule send_groups_keeps) (auto simp: insert_chunk_def counters_def split: prod.split sum.split)

lemma remove_groups_frame: "send_frame st (fst (send_groups (remove_chunk E) i gs st))"
  unfolding send_frame_counters
  by (rule send_groups_keeps) (auto simp: remove_chunk_def counters_def split: prod.split sum.split)

text \<open>
  What the client relies on: an accepted insert makes the node own the hashes, an accepted
  remove makes it not own them, and connecting or a heartbeat changes no ownership.
\<close>

locale ownership_server =
  fixes R :: "'s meta_rpc" and node :: node_url and nid :: string
    and inv :: "'s \<Rightarrow> bool" and owns :: "'s \<Rightarrow> hash_key \<Rightarrow> bool"
  assumes insert_owns: "inv s \<Longrightarrow> hs \<noteq> [] \<Longrightarrow> rpc_insert R ns hs node nid s = (s', Inr r) \<Longrightarrow>
      inv s' \<and> (\<forall>k. owns s' k \<longleftrightarrow> owns s k \<or> k \<in> Pair ns ` set hs)"
    and remove_owns: "inv s \<Longrightarrow> hs \<noteq> [] \<Longrightarrow> rpc_remove R ns hs node nid s = (s', Inr r') \<Longrightarrow>
      inv s' \<and> (\<forall>k. owns s' k \<longleftrightarrow> owns s k \<and> k \<notin> Pair ns ` set hs)"
    and connect_owns: "(inv (fst (rpc_connect R s)), owns (fst (rpc_connect R s))) = (inv s, owns s)"
    and heartbeat_owns: "(inv (fst (rpc_heartbeat R node nid has cands s)), owns (fst (rpc_heartbeat R node nid has cands s))) =
      (inv s, owns s)"
begin

definition env_of :: "('l, 'm, 's) client_env \<Rightarrow> ('l, 'm, 's) client_env" where
  "env_of E = E\<lparr>e_rpc := R, e_node := node, e_id := nid\<rparr>"

definition gained :: "('l, 'm, 's) loop_state \<Rightarrow> hash_key list \<Rightarrow> ('l, 'm, 's) loop_state \<Rightarrow> bool" where
  "gained st xs st' \<longleftrightarrow> send_frame st st' \<and> (inv (lp_server st) \<longrightarrow>
     inv (lp_server st') \<and> (\<forall>k. owns (lp_server st') k \<longleftrightarrow> owns (lp_server st) k \<or> k \<in> set xs))"

definition lost :: "('l, 'm, 's) loop_state \<Rightarrow> hash_key list \<Rightarrow> ('l, 'm, 's) loop_state \<Rightarrow> bool" where
  "lost st xs st' \<longleftrightarrow> send_frame st st' \<and> (inv (lp_server st) \<longrightarrow>
     inv (lp_server st') \<and> (\<forall>k. owns (lp_server st') k \<longleftrightarrow> owns (lp_server st) k \<and> k \<notin> set xs))"

lemma insert_chunk_gained:
  assumes "c \<noteq> []" "insert_chunk (env_of E) g c st = (st', True)"
  shows "gained st (map (insert_item \<circ> Pair g) c) st'"
proof -
  obtain ns hint where g: "g = (ns, hint)" by (cases g)
  obtain s r where r: "rpc_insert R ns (map fst c) node nid (lp_server st) = (s, Inr r)"
    and st': "lp_server st' = s" "send_frame st st'"
    using assms(2) by (auto simp: insert_chunk_def g env_of_def send_frame_def split: prod.splits sum.splits)
  have "map (insert_item \<circ> Pair g) c = map (Pair ns) (map fst c)" by (simp add: g insert_item_def)
  with insert_owns[OF _ _ r] assms(1) st' show ?thesis by (auto simp: gained_def image_image)
qed

lemma remove_chunk_lost:
  assumes "c \<noteq> []" "remove_chunk (env_of E) ns c st = (st', True)"
  shows "lost st (map (id \<circ> Pair ns) c) st'"
proof -
  obtain s r where r: "rpc_remove R ns c node nid (lp_server st) = (s, Inr r)"
    and st': "lp_server st' = s" "send_frame st st'"
    using assms(2) by (auto simp: remove_chunk_def env_of_def send_frame_def split: prod.splits sum.splits)
  with remove_owns[OF _ assms(1) r] show ?thesis by (auto simp: lost_def)
qed

sublocale gains: chunked_sender "insert_chunk (env_of E)" insert_item gained for E
proof (unfold_locales, goal_cases)
  case (3 c k st st')
  then show ?case by (intro insert_chunk_gained)
qed (auto simp: gained_def send_frame_def)

sublocale losses: chunked_sender "remove_chunk (env_of E)" id lost for E
proof (unfold_locales, goal_cases)
  case (3 c k st st')
  then show ?case by (intro remove_chunk_lost)
qed (auto simp: lost_def send_frame_def)

lemma send_removes_applied:
  assumes "inv (lp_server st)" and "removal_failures (send_removes (env_of E) gs st) = removal_failures st"
  shows "inv (lp_server (send_removes (env_of E) gs st)) \<and>
    (\<forall>k. owns (lp_server (send_removes (env_of E) gs st)) k \<longleftrightarrow> owns (lp_server st) k \<and> k \<notin> set (group_items gs))"
proof (cases "send_groups (remove_chunk (env_of E)) 0 gs st")
  case (Pair st1 f)
  have fr: "send_frame st st1" using remove_groups_frame[of st "env_of E" 0 gs] Pair by simp
  have "f = None" using assms(2) Pair fr unsent_positive
    by (fastforce simp: send_removes_def send_frame_def split: option.splits)
  with losses.groups_sent[of E 0 gs st st1] Pair assms(1) show ?thesis by (simp add: send_removes_def lost_def)
qed

lemma send_net_applied:
  assumes "inv (lp_server st)" and "registration_failures (send_net (env_of E) ins rem st) = registration_failures st"
    and "removal_failures (send_net (env_of E) ins rem st) = removal_failures st"
  shows "inv (lp_server (send_net (env_of E) ins rem st)) \<and>
    (\<forall>k. owns (lp_server (send_net (env_of E) ins rem st)) k \<longleftrightarrow>
      (owns (lp_server st) k \<or> k \<in> insert_item ` set (group_items (it_ins (e_order E) ins))) \<and>
      k \<notin> set (group_items (it_rem (e_order E) rem)))"
proof (cases "send_groups (insert_chunk (env_of E)) 0 (it_ins (e_order E) ins) st")
  case (Pair st1 f)
  have o: "e_order (env_of E) = e_order E" by (simp add: env_of_def)
  have fr: "send_frame st st1"
    using insert_groups_frame[of st "env_of E" 0 "it_ins (e_order E) ins"] Pair by simp
  have f: "f = None" using assms(2) Pair fr unsent_positive
    by (fastforce simp: send_net_def o send_frame_def Let_def split: option.splits)
  then have s: "send_net (env_of E) ins rem st = send_removes (env_of E) (it_rem (e_order E) rem) st1"
    using Pair by (simp add: send_net_def o)
  have g: "inv (lp_server st1)"
    "\<forall>k. owns (lp_server st1) k \<longleftrightarrow> owns (lp_server st) k \<or> k \<in> insert_item ` set (group_items (it_ins (e_order E) ins))"
    using gains.groups_sent[of E 0 "it_ins (e_order E) ins" st st1] Pair f assms(1) by (auto simp: gained_def)
  from send_removes_applied[OF g(1), of E "it_rem (e_order E) rem"] g(2) assms(3) fr s show ?thesis
    by (simp add: send_frame_def)
qed

lemma commands_applied:
  assumes "iter_ok (e_order E)" and "\<forall>d. Shutdown d \<notin> set cmds" and "inv (lp_server st)"
    and p: "process_commands (env_of E) clk cmds st = (st', flow)"
    and c: "registration_failures st' = registration_failures st" "removal_failures st' = removal_failures st"
  shows "owns (lp_server st') k \<longleftrightarrow>
    (case last_op cmds k of None \<Rightarrow> owns (lp_server st) k | Some op \<Rightarrow> is_insert op)"
proof -
  have o: "e_order (env_of E) = e_order E" by (simp add: env_of_def)
  obtain net ins rem where g: "drain_commands cmds [] [] = Inr (net, concat (map command_acks cmds))"
    "split_net (it_net (e_order E) net) [] [] = (ins, rem)"
    "insert_item ` set (group_items (it_ins (e_order E) ins)) = net_keys cmds is_insert"
    "set (group_items (it_rem (e_order E) rem)) = net_keys cmds (Not \<circ> is_insert)"
    "group_total (it_ins (e_order E) ins) = group_total ins"
    "group_total (it_rem (e_order E) rem) = group_total rem"
    by (rule process_groups[OF assms(1,2)])
  obtain st1 ok where h: "ensure_heartbeat_registered (env_of E) clk st = (st1, ok)" by fastforce
  have "(inv (lp_server st1), owns (lp_server st1)) = (inv (lp_server st), owns (lp_server st)) \<and> send_frame st st1"
    by (rule ensure_registered_server[where V = "\<lambda>s. (inv s, owns s)", OF _ _ h])
      (simp_all add: env_of_def connect_owns[simplified] heartbeat_owns[simplified])
  then have f: "inv (lp_server st1)" "owns (lp_server st1) = owns (lp_server st)" "send_frame st st1"
    using assms(3) by auto
  have "owns (lp_server st') k \<longleftrightarrow> (owns (lp_server st) k \<or> k \<in> net_keys cmds is_insert) \<and> k \<notin> net_keys cmds (Not \<circ> is_insert)"
  proof (cases ok)
    case True
    then have st': "st' = ack_flushes (concat (map command_acks cmds)) (send_net (env_of E) ins rem st1)"
      using p g(1,2) h o ensure_registered_connected[of "env_of E" clk st st1] by (auto simp: process_commands_def)
    from send_net_applied[OF f(1), of E ins rem] st' c f(2,3) g(3,4) show ?thesis
      by (cases k) (auto simp: ack_flushes_def send_frame_def)
  next
    case False
    with p g(1,2) h o have st': "lp_server st' = lp_server st1" "group_total ins = 0" "group_total rem = 0"
      using c f(3) by (auto simp: process_commands_def ack_flushes_def send_frame_def)
    then have "group_items (it_ins (e_order E) ins) = []" "group_items (it_rem (e_order E) rem) = []"
      using g(5,6) by (simp_all flip: length_0_conv add: length_group_items)
    with st' g(3,4) f(2) show ?thesis by simp
  qed
  then show ?thesis by (auto simp: net_keys_def split: option.split)
qed

end

text \<open>
  The MetaServer behind a network. The state counts the calls; \<open>time i\<close> is the clock during
  call \<open>i\<close> and \<open>fault i\<close> says whether its request or its response is lost.
\<close>

datatype fault = Delivered | RequestLost | ResponseLost

fun code_of :: "rpc_status \<Rightarrow> rpc_code" where
  "code_of UnknownNodeStatus = FailedPrecondition"
| "code_of StaleSessionStatus = FailedPrecondition"
| "code_of _ = OtherCode"

type_synonym ('b, 'n) server = "('b, 'n) meta_service \<times> nat"

definition call ::
  "(nat \<Rightarrow> fault) \<Rightarrow> (nat \<Rightarrow> ('b, 'n) meta_service \<Rightarrow> ('b, 'n) meta_service \<times> (rpc_status + 'r)) \<Rightarrow>
   ('b, 'n) server \<Rightarrow> ('b, 'n) server \<times> (rpc_code + 'r)" where
  "call fault handler s =
     (let (svc, i) = s in
      case fault i of
        RequestLost \<Rightarrow> ((svc, Suc i), Inl OtherCode)
      | ResponseLost \<Rightarrow> ((fst (handler i svc), Suc i), Inl OtherCode)
      | Delivered \<Rightarrow> (case handler i svc of (svc', r) \<Rightarrow> ((svc', Suc i), map_sum code_of id r)))"

definition direct_rpc ::
  "'b block_ops \<Rightarrow> 'n node_ops \<Rightarrow> (string \<Rightarrow> uuid option) \<Rightarrow> nat \<Rightarrow> (node_url \<Rightarrow> node_url \<Rightarrow> u64) \<Rightarrow>
   (node_url \<Rightarrow> block_hash \<Rightarrow> u64) \<Rightarrow> (nat \<Rightarrow> clock) \<Rightarrow> (nat \<Rightarrow> fault) \<Rightarrow> ('b, 'n) server meta_rpc" where
  "direct_rpc B N parse sec node_score block_score time fault =
     \<lparr>rpc_connect = \<lambda>(svc, i). ((svc, Suc i), fault i = Delivered),
      rpc_heartbeat = \<lambda>node nid has cands. call fault (\<lambda>i. rpc_heartbeat_node B N parse sec (time i) node nid has cands),
      rpc_insert = \<lambda>ns hs node nid. call fault (\<lambda>i. rpc_insert_block_hashes B N parse (time i) ns hs node nid),
      rpc_remove = \<lambda>ns hs node nid. call fault (\<lambda>i. rpc_remove_block_hashes B N parse (time i) ns hs node nid),
      rpc_unregister = \<lambda>node nid s. map_prod id Some (call fault (\<lambda>i. rpc_unregister_node B N parse node nid) s),
      rpc_query = \<lambda>ns hs exclude. call fault (\<lambda>i svc. (svc, rpc_query_prefix_blocks B N (time i) ns hs exclude svc)),
      rpc_pull = \<lambda>node nid mb. call fault (\<lambda>i. rpc_pull_backup_plan B N parse node_score block_score (time i) node nid mb)\<rparr>"

definition store_key :: "hash_key \<Rightarrow> block_key" where
  "store_key k = \<lparr>namespace = fst k, hash = snd k\<rparr>"

lemma store_key_eq [simp]: "store_key j = \<lparr>namespace = ns, hash = h\<rparr> \<longleftrightarrow> j = (ns, h)"
  by (cases j) (simp add: store_key_def)

lemma insert_hash_holds:
  assumes "map_laws B" "insert_hash B N now ns node sid s h = Inr (s', hint)"
  shows "holds_session B node sid s' (store_key k) \<longleftrightarrow> holds_session B node sid s (store_key k) \<or> k = (ns, h)"
proof (cases "k = (ns, h)")
  case True
  then show ?thesis
    unfolding insert_hash_Inr(2)[OF assms(2)] holds_session_def
    by (auto simp: owners_at_set_owners[OF assms(1)] intro!: exI update_self_in_set)
next
  case False
  then show ?thesis
    unfolding insert_hash_Inr(2)[OF assms(2)] holds_session_def
    by (simp add: owners_at_set_owners[OF assms(1)])
qed

lemma insert_loop_holds:
  assumes "map_laws B" "table_inv B s" "insert_loop B N now ns node sid s hs acc = (s', Inr hints)"
  shows "table_inv B s' \<and> (\<forall>k. holds_session B node sid s' (store_key k) \<longleftrightarrow>
    holds_session B node sid s (store_key k) \<or> k \<in> Pair ns ` set hs)"
  using assms(2,3)
proof (induction hs arbitrary: s acc)
  case (Cons h hs)
  obtain s1 hint where h: "insert_hash B N now ns node sid s h = Inr (s1, hint)"
    and r: "insert_loop B N now ns node sid s1 hs (if hint then acc @ [h] else acc) = (s', Inr hints)"
    using Cons.prems(2) by (auto split: sum.splits)
  from Cons.IH[OF insert_hash_inv[OF assms(1) Cons.prems(1) h] r] insert_hash_holds[OF assms(1) h]
  show ?case by auto
qed simp

lemma remove_hash_holds:
  assumes "map_laws B" "table_inv B s"
  shows "holds_session B node sid (fst (remove_hash B ns node sid s h)) (store_key k) \<longleftrightarrow>
    holds_session B node sid s (store_key k) \<and> k \<noteq> (ns, h)"
proof -
  let ?k = "\<lparr>namespace = ns, hash = h\<rparr>"
  let ?os = "owners_at B s ?k"
  have d: "distinct (map fst ?os)" using table_inv_distinct[OF assms(2)] .
  have "fst (remove_hash B ns node sid s h) =
      (if m_get B (blocks s) ?k = None then s
       else set_owners B ?k (if (\<exists>ow. map_of ?os node = Some ow \<and> owner_session ow = sid) then AList.delete node ?os else ?os) s)"
    by (auto simp: remove_hash_def set_owners_def owners_at_def Let_def split: option.splits)
  then show ?thesis using d
    by (auto simp: holds_session_def owners_at_set_owners[OF assms(1)] owners_at_None store_key_def AList.delete_eq
        split: if_splits)
qed

lemma remove_loop_holds:
  assumes "map_laws B" "table_inv B s" "remove_loop B ns node sid s hs n = (s', m)"
  shows "table_inv B s' \<and> (\<forall>k. holds_session B node sid s' (store_key k) \<longleftrightarrow>
    holds_session B node sid s (store_key k) \<and> k \<notin> Pair ns ` set hs)"
  using assms(2,3)
proof (induction hs arbitrary: s n)
  case (Cons h hs)
  obtain s1 j where h: "remove_hash B ns node sid s h = (s1, j)"
    and r: "remove_loop B ns node sid s1 hs (n + j) = (s', m)"
    using Cons.prems(2) by (auto split: prod.splits)
  have "table_inv B s1" using remove_hash_inv[OF assms(1) Cons.prems(1), of ns node sid h] h by simp
  from Cons.IH[OF this r] remove_hash_holds[OF assms(1) Cons.prems(1), of node sid ns h] h show ?case by auto
qed simp

lemma holds_session_cong: "blocks s' = blocks s \<Longrightarrow> holds_session B node sid s' k = holds_session B node sid s k"
  by (simp add: holds_session_def owners_at_def)

lemma touched_tables:
  assumes "touch_node_session N t node sid s = (s', r)"
  shows "blocks s' = blocks s" "redundancy s' = redundancy s"
  using node_ops_tables(5,6)[of N t node sid s] assms by simp_all

lemma insert_handler_holds:
  assumes "map_laws B" "table_inv B (svc_store svc)" "parse nid = Some sid" "hs \<noteq> []"
    and "rpc_insert_block_hashes B N parse clk ns hs node nid svc = (svc', Inr r)"
  shows "table_inv B (svc_store svc') \<and> (\<forall>k. holds_session B node sid (svc_store svc') (store_key k) \<longleftrightarrow>
    holds_session B node sid (svc_store svc) (store_key k) \<or> k \<in> Pair ns ` set hs)"
proof -
  obtain st1 hints where l: "touch_node_session N (clk 0) node sid (svc_store svc) = (st1, Inr ())"
    "insert_loop B N (clk 1) ns node sid st1 hs [] = (svc_store svc', Inr hints)"
    using assms(3-5)
    by (auto simp: rpc_insert_block_hashes_def parse_node_id_def insert_hashes_def split: prod.splits sum.splits)
  note t = touched_tables[OF l(1)]
  from insert_loop_holds[OF assms(1) _ l(2)] assms(2) show ?thesis
    by (simp add: table_inv_cong[OF t] holds_session_cong[OF t(1)])
qed

lemma remove_handler_holds:
  assumes "map_laws B" "table_inv B (svc_store svc)" "parse nid = Some sid" "hs \<noteq> []"
    and "rpc_remove_block_hashes B N parse clk ns hs node nid svc = (svc', Inr r)"
  shows "table_inv B (svc_store svc') \<and> (\<forall>k. holds_session B node sid (svc_store svc') (store_key k) \<longleftrightarrow>
    holds_session B node sid (svc_store svc) (store_key k) \<and> k \<notin> Pair ns ` set hs)"
proof -
  obtain st1 n where l: "touch_node_session N (clk 0) node sid (svc_store svc) = (st1, Inr ())"
    "remove_loop B ns node sid st1 hs 0 = (svc_store svc', n)"
    using assms(3-5)
    by (auto simp: rpc_remove_block_hashes_def parse_node_id_def remove_hashes_def split: prod.splits sum.splits)
  note t = touched_tables[OF l(1)]
  from remove_loop_holds[OF assms(1) _ l(2)] assms(2) show ?thesis
    by (simp add: table_inv_cong[OF t] holds_session_cong[OF t(1)])
qed

lemma heartbeat_handler_tables:
  "blocks (svc_store (fst (rpc_heartbeat_node B N parse sec clk node nid has cands svc))) = blocks (svc_store svc)"
  "redundancy (svc_store (fst (rpc_heartbeat_node B N parse sec clk node nid has cands svc))) = redundancy (svc_store svc)"
proof -
  have b: "svc_store x = set_node_has_instance N (clk 1) node sid has (svc_store s)"
    if "backup_heartbeat B N clk node sid has cands resp s = (x, y)" for sid resp s x y
    using that by (auto simp: backup_heartbeat_def Let_def split: option.splits prod.splits if_splits)
  have "blocks (svc_store (fst (rpc_heartbeat_node B N parse sec clk node nid has cands svc))) = blocks (svc_store svc) \<and>
    redundancy (svc_store (fst (rpc_heartbeat_node B N parse sec clk node nid has cands svc))) = redundancy (svc_store svc)"
  proof (cases "parse_node_id parse nid")
    case (Inr sid)
    obtain st1 r where h: "heartbeat_node N (clk 0) node sid (svc_store svc) = (st1, r)" by fastforce
    have t: "blocks st1 = blocks (svc_store svc)" "redundancy st1 = redundancy (svc_store svc)"
      using node_ops_tables(1,2)[of N "clk 0" node sid "svc_store svc"] h by simp_all
    show ?thesis using Inr h t
      by (cases r) (auto simp: rpc_heartbeat_node_def Let_def split: prod.splits dest!: b)
  qed (simp add: rpc_heartbeat_node_def)
  then show "blocks (svc_store (fst (rpc_heartbeat_node B N parse sec clk node nid has cands svc))) = blocks (svc_store svc)"
    "redundancy (svc_store (fst (rpc_heartbeat_node B N parse sec clk node nid has cands svc))) = redundancy (svc_store svc)"
    by auto
qed

lemma call_Inr:
  assumes "call fault handler s = (s', Inr r)"
  shows "\<exists>svc i svc'. s = (svc, i) \<and> s' = (svc', Suc i) \<and> handler i svc = (svc', Inr r)"
proof -
  obtain svc i where s: "s = (svc, i)" by (cases s)
  obtain svc' v where h: "handler i svc = (svc', v)" by fastforce
  show ?thesis using assms s h by (cases "fault i"; cases v) (auto simp: call_def)
qed

lemma call_state: "fst (fst (call fault handler (svc, i))) = svc \<or> fst (fst (call fault handler (svc, i))) = fst (handler i svc)"
  by (cases "fault i"; cases "handler i svc") (auto simp: call_def)

lemma direct_insert: "rpc_insert (direct_rpc B N parse sec node_score block_score time fault) ns hs node nid =
    call fault (\<lambda>i. rpc_insert_block_hashes B N parse (time i) ns hs node nid)"
  by (simp add: direct_rpc_def)

lemma direct_remove: "rpc_remove (direct_rpc B N parse sec node_score block_score time fault) ns hs node nid =
    call fault (\<lambda>i. rpc_remove_block_hashes B N parse (time i) ns hs node nid)"
  by (simp add: direct_rpc_def)

lemma direct_heartbeat: "rpc_heartbeat (direct_rpc B N parse sec node_score block_score time fault) node nid has cands =
    call fault (\<lambda>i. rpc_heartbeat_node B N parse sec (time i) node nid has cands)"
  by (simp add: direct_rpc_def)

interpretation meta_server: ownership_server "direct_rpc B N parse sec node_score block_score time fault" node nid
  "\<lambda>s. map_laws B \<and> parse nid = Some sid \<and> table_inv B (svc_store (fst s))"
  "\<lambda>s k. holds_session B node sid (svc_store (fst s)) (store_key k)"
  for B N parse sec node_score block_score time fault node nid sid
proof (unfold_locales, goal_cases)
  case (1 s hs ns s' r)
  from call_Inr[OF 1(3)[unfolded direct_insert]] obtain svc i svc' where s: "s = (svc, i)" "s' = (svc', Suc i)"
    "rpc_insert_block_hashes B N parse (time i) ns hs node nid svc = (svc', Inr r)" by blast
  from insert_handler_holds[OF _ _ _ _ s(3), of sid] 1(1,2) s(1,2) show ?case by simp
next
  case (2 s hs ns s' r)
  from call_Inr[OF 2(3)[unfolded direct_remove]] obtain svc i svc' where s: "s = (svc, i)" "s' = (svc', Suc i)"
    "rpc_remove_block_hashes B N parse (time i) ns hs node nid svc = (svc', Inr r)" by blast
  from remove_handler_holds[OF _ _ _ _ s(3), of sid] 2(1,2) s(1,2) show ?case by simp
next
  case (3 s)
  then show ?case by (cases s) (simp add: direct_rpc_def)
next
  case (4 has cands s)
  obtain svc i where s: "s = (svc, i)" by (cases s)
  note t = heartbeat_handler_tables[of B N parse sec "time i" node nid has cands svc]
  show ?case
    using call_state[of fault "\<lambda>i. rpc_heartbeat_node B N parse sec (time i) node nid has cands" svc i]
    unfolding direct_heartbeat s
    by (elim disjE) (simp_all only: fst_conv table_inv_cong[OF t] holds_session_cong[OF t(1)])
qed

text \<open>
  C10. Registrations follow the last command. The loop of a node drains a batch of commands and
  sends it to the MetaServer's handlers over a network that may lose requests and responses. If
  the failure counters did not move, then afterwards the node's session owns exactly the hashes
  whose last command was an insert, does not own those whose last command was a remove, and
  owns a hash no command names if and only if it did before.
\<close>

theorem registrations_follow_commands:
  assumes "map_laws B" and "parse nid = Some sid" and "table_inv B (svc_store (fst (lp_server st)))"
    and "iter_ok (e_order E)" and "\<forall>d. Shutdown d \<notin> set cmds"
    and "process_commands (E\<lparr>e_rpc := direct_rpc B N parse sec node_score block_score time fault, e_node := node, e_id := nid\<rparr>)
           clk cmds st = (st', flow)"
    and "registration_failures st' = registration_failures st" and "removal_failures st' = removal_failures st"
  shows "holds_session B node sid (svc_store (fst (lp_server st'))) \<lparr>namespace = fst k, hash = snd k\<rparr> \<longleftrightarrow>
    (case last_op cmds k of
       None \<Rightarrow> holds_session B node sid (svc_store (fst (lp_server st))) \<lparr>namespace = fst k, hash = snd k\<rparr>
     | Some op \<Rightarrow> op \<noteq> PendingRemove)"
  using meta_server.commands_applied[OF assms(4,5), of B parse nid sid st N sec node_score block_score time fault node clk st' flow k]
    assms by (simp add: meta_server.env_of_def store_key_def is_insert_def split: option.split)

section \<open>Example\<close>

definition wserver :: "(((block_key \<times> owners) list, (node_url \<times> node_record) list) meta_service \<times> nat) meta_rpc" where
  "wserver = direct_rpc alist_map alist_map (\<lambda>_. Some 1) 1 (\<lambda>_ _. 0) (\<lambda>_ _. 0) (\<lambda>_ _. 5) (\<lambda>_. Delivered)"

lemma wlimit: "chunks max_hashes_per_rpc [x] = [[x]]"
  by (simp add: chunks_step max_hashes_per_rpc_def)

lemmas wrun = process_commands_def wdrain worder_def wenv_def alist_push_def ensure_heartbeat_registered_def wloop_def
  send_net_def wlimit insert_chunk_def remove_chunk_def send_removes_def ack_flushes_def

lemmas whandlers = wserver_def direct_rpc_def call_def rpc_insert_block_hashes_def rpc_remove_block_hashes_def
  parse_node_id_def insert_hashes_def remove_hashes_def touch_node_session_def insert_hash_def remove_hash_def
  service_new_def wstore_def wnode_def

lemma winsert: "\<exists>svc r. rpc_insert wserver ''m'' [[8]] ''a'' ''1'' (service_new wstore, 0) = ((svc, 1), Inr r) \<and>
    nodes (svc_store svc) = [(''a'', \<lparr>node_session = 1, last_seen = 5, idle_since = Some 0\<rparr>)]"
  by (simp add: whandlers Let_def)

lemma wremove: "nodes (svc_store svc) = [(''a'', \<lparr>node_session = 1, last_seen = 5, idle_since = Some 0\<rparr>)] \<Longrightarrow>
    \<exists>svc' r. rpc_remove wserver ''m'' [[7]] ''a'' ''1'' (svc, 1) = ((svc', 2), Inr r)"
  by (simp add: whandlers Let_def split: prod.split)

lemma wprocess:
  "\<exists>st'. process_commands (wenv wserver) (\<lambda>_. 5) wcmds (wloop (service_new wstore, 0)) = (st', Continue) \<and>
     registration_failures st' = 0 \<and> removal_failures st' = 0"
proof -
  obtain svc r where i: "rpc_insert wserver ''m'' [[8]] ''a'' ''1'' (service_new wstore, 0) = ((svc, 1), Inr r)"
    "nodes (svc_store svc) = [(''a'', \<lparr>node_session = 1, last_seen = 5, idle_since = Some 0\<rparr>)]" using winsert by blast
  obtain svc' r' where "rpc_remove wserver ''m'' [[7]] ''a'' ''1'' (svc, 1) = ((svc', 2), Inr r')" using wremove[OF i(2)] by blast
  with i show ?thesis by (simp add: wrun loop_start_def)
qed

theorem registrations_follow_commands_witness:
  "\<exists>st'. process_commands (wenv wserver) (\<lambda>_. 5) wcmds (wloop (service_new wstore, 0)) = (st', Continue) \<and>
     holds_session alist_map ''a'' 1 (svc_store (fst (lp_server st'))) \<lparr>namespace = ''m'', hash = [8]\<rparr> \<and>
     \<not> holds_session alist_map ''a'' 1 (svc_store (fst (lp_server st'))) \<lparr>namespace = ''m'', hash = [7]\<rparr>"
proof -
  obtain st' where p: "process_commands (wenv wserver) (\<lambda>_. 5) wcmds (wloop (service_new wstore, 0)) = (st', Continue)"
    "registration_failures st' = 0" "removal_failures st' = 0" using wprocess by blast
  have t: "table_inv alist_map wstore" using store_reach_inv[OF alist_map_laws wstore_reach] .
  note law = registrations_follow_commands[where B = alist_map and parse = "\<lambda>_. Some 1" and nid = "''1''" and node = "''a''" and
      E = "wenv wserver" and st = "wloop (service_new wstore, 0)" and cmds = wcmds and st' = st', OF alist_map_laws]
  have "wenv wserver = (wenv wserver)\<lparr>e_rpc := wserver, e_node := ''a'', e_id := ''1''\<rparr>" by (simp add: wenv_def)
  with p(1) have "process_commands ((wenv wserver)\<lparr>e_rpc := wserver, e_node := ''a'', e_id := ''1''\<rparr>) (\<lambda>_. 5) wcmds
      (wloop (service_new wstore, 0)) = (st', Continue)" by simp
  note q = this[unfolded wserver_def]
  have k: "holds_session alist_map ''a'' 1 (svc_store (fst (lp_server st'))) \<lparr>namespace = fst k, hash = snd k\<rparr> \<longleftrightarrow>
    (case last_op wcmds k of
       None \<Rightarrow> holds_session alist_map ''a'' 1 wstore \<lparr>namespace = fst k, hash = snd k\<rparr>
     | Some op \<Rightarrow> op \<noteq> PendingRemove)" for k
    using law[unfolded wserver_def, OF refl _ _ _ q, of k] p(2,3) t worder_ok
    by (simp add: wloop_def loop_start_def service_new_def wenv_def wcmds_def cong: option.case_cong)
  from k[of "(''m'', [8])"] k[of "(''m'', [7])"] p(1) show ?thesis by (simp add: wlast)
qed

end
