(* ===== verification/Query_Lease.thy ===== *)
theory Query_Lease
  imports Tiny_Lfu
begin

text \<open>
  Query leases (\<open>pegaflow-core/src/lease.rs\<close>): a query that found blocks keeps them alive
  under a token until as many consumers as it announced have fetched them, it is released,
  its instance goes away, or ten minutes pass. The table under the mutex is a map from
  tokens; an \<open>Instant\<close> is a natural number of milliseconds, and every operation takes the
  instants it reads and the token the UUID generator returns as arguments. A poisoned mutex
  and the background task that calls \<open>sweep_expired\<close> periodically are not modelled; a sweep
  may happen at any point of a history.
\<close>

section \<open>State and operations\<close>

type_synonym lease_token = "u8 list"

definition default_lease_ttl :: nat where
  "default_lease_ttl = 600 * 1000"

datatype lease_id_error = LeaseIdEmpty | LeaseIdLength nat

definition lease_id_from_bytes :: "u8 list \<Rightarrow> lease_id_error + lease_token" where
  "lease_id_from_bytes bytes =
     (if bytes = [] then Inl LeaseIdEmpty
      else if length bytes \<noteq> 16 then Inl (LeaseIdLength (length bytes))
      else Inr bytes)"

record query_lease =
  lease_instance :: string
  lease_blocks :: "arc_block list"
  remaining_consumers :: nat
  expires_at :: nat

type_synonym leases = "lease_token \<rightharpoonup> query_lease"

datatype lease_error = LeaseUnknown | LeaseForeign string

definition lease_sweep_expired :: "nat \<Rightarrow> leases \<Rightarrow> leases" where
  "lease_sweep_expired now L = (\<lambda>tok. case L tok of
     None \<Rightarrow> None | Some l \<Rightarrow> if expires_at l > now then Some l else None)"

definition lease_create ::
  "nat \<Rightarrow> nat \<Rightarrow> lease_token \<Rightarrow> string \<Rightarrow> arc_block list \<Rightarrow> nat \<Rightarrow> leases \<Rightarrow> leases" where
  "lease_create swept now tok inst blocks consumers L =
     (lease_sweep_expired swept L)(tok \<mapsto>
        \<lparr>lease_instance = inst, lease_blocks = blocks, remaining_consumers = max consumers 1,
         expires_at = now + default_lease_ttl\<rparr>)"

definition lease_consume ::
  "nat \<Rightarrow> string \<Rightarrow> lease_token \<Rightarrow> leases \<Rightarrow> leases \<times> (lease_error + arc_block list)" where
  "lease_consume swept inst tok L =
     (let L = lease_sweep_expired swept L in
      case L tok of
        None \<Rightarrow> (L, Inl LeaseUnknown)
      | Some l \<Rightarrow>
          if lease_instance l \<noteq> inst then (L, Inl (LeaseForeign (lease_instance l)))
          else if remaining_consumers l > 1
          then (L(tok \<mapsto> l\<lparr>remaining_consumers := remaining_consumers l - 1\<rparr>), Inr (lease_blocks l))
          else (L(tok := None), Inr (lease_blocks l)))"

definition lease_release :: "nat \<Rightarrow> lease_token \<Rightarrow> leases \<Rightarrow> leases \<times> bool" where
  "lease_release swept tok L =
     (let L = lease_sweep_expired swept L in (L(tok := None), L tok \<noteq> None))"

definition lease_release_instance :: "string \<Rightarrow> leases \<Rightarrow> leases" where
  "lease_release_instance inst L = (\<lambda>tok. case L tok of
     None \<Rightarrow> None | Some l \<Rightarrow> if lease_instance l \<noteq> inst then Some l else None)"

section \<open>Histories\<close>

datatype lease_op =
    LCreate nat nat lease_token string "arc_block list" nat
  | LConsume nat string lease_token
  | LRelease nat lease_token
  | LReleaseInstance string
  | LSweep nat

fun lease_step :: "lease_op \<Rightarrow> leases \<Rightarrow> leases" where
  "lease_step (LCreate swept now tok inst bs n) L = lease_create swept now tok inst bs n L"
| "lease_step (LConsume swept inst tok) L = fst (lease_consume swept inst tok L)"
| "lease_step (LRelease swept tok) L = fst (lease_release swept tok L)"
| "lease_step (LReleaseInstance inst) L = lease_release_instance inst L"
| "lease_step (LSweep now) L = lease_sweep_expired now L"

text \<open>The blocks one operation hands out under a token, if any, and those of a history.\<close>

fun granted :: "lease_token \<Rightarrow> lease_op \<Rightarrow> leases \<Rightarrow> arc_block list list" where
  "granted tok (LConsume swept inst t) L =
     (if t = tok then (case snd (lease_consume swept inst t L) of Inl _ \<Rightarrow> [] | Inr bs \<Rightarrow> [bs]) else [])"
| "granted tok _ L = []"

fun grants :: "lease_token \<Rightarrow> lease_op list \<Rightarrow> leases \<Rightarrow> arc_block list list" where
  "grants tok [] L = []"
| "grants tok (op # ops) L = granted tok op L @ grants tok ops (lease_step op L)"

definition leases_inv :: "leases \<Rightarrow> bool" where
  "leases_inv L \<longleftrightarrow> (\<forall>tok l. L tok = Some l \<longrightarrow> 1 \<le> remaining_consumers l)"

fun creates :: "lease_token \<Rightarrow> lease_op \<Rightarrow> bool" where
  "creates tok (LCreate swept now t inst bs n) = (t = tok)"
| "creates tok _ = False"

text \<open>Operations that neither let the lease expire nor release it.\<close>

fun spares :: "lease_token \<Rightarrow> query_lease \<Rightarrow> lease_op \<Rightarrow> bool" where
  "spares tok l (LCreate swept now t inst bs n) = (t \<noteq> tok \<and> swept < expires_at l)"
| "spares tok l (LConsume swept inst t) = (swept < expires_at l)"
| "spares tok l (LRelease swept t) = (t \<noteq> tok \<and> swept < expires_at l)"
| "spares tok l (LReleaseInstance inst) = (inst \<noteq> lease_instance l)"
| "spares tok l (LSweep now) = (now < expires_at l)"

fun asks :: "lease_token \<Rightarrow> query_lease \<Rightarrow> lease_op \<Rightarrow> bool" where
  "asks tok l (LConsume swept inst t) = (t = tok \<and> inst = lease_instance l)"
| "asks tok l _ = False"

lemmas lease_defs = lease_create_def lease_consume_def lease_release_def lease_release_instance_def
  lease_sweep_expired_def Let_def

lemma lease_step_inv: "leases_inv L \<Longrightarrow> leases_inv (lease_step op L)"
  by (cases op) (auto simp: leases_inv_def lease_defs split: option.splits if_splits)

text \<open>One step on the lease of a token that is not created again.\<close>

lemma lease_step_token:
  assumes "\<not> creates tok op" and "L tok = None"
  shows "lease_step op L tok = None" and "granted tok op L = []"
  using assms by (cases op; auto simp: lease_defs split: option.splits if_splits)+

lemma lease_step_lease:
  assumes "\<not> creates tok op" and "L tok = Some l"
  shows "lease_step op L tok = None \<or>
      (\<exists>n. lease_step op L tok = Some (l\<lparr>remaining_consumers := n\<rparr>) \<and> n + length (granted tok op L) = remaining_consumers l)"
    and "granted tok op L = [] \<or> granted tok op L = [lease_blocks l]"
  using assms by (cases op; auto simp: lease_defs intro: exI[of _ "remaining_consumers l"] split: option.splits if_splits)+

lemma grants_none: "\<forall>op \<in> set ops. \<not> creates tok op \<Longrightarrow> L tok = None \<Longrightarrow> grants tok ops L = []"
  by (induction ops arbitrary: L) (simp_all add: lease_step_token)

lemma grants_bounded:
  "\<forall>op \<in> set ops. \<not> creates tok op \<Longrightarrow> leases_inv L \<Longrightarrow> L tok = Some l \<Longrightarrow>
   length (grants tok ops L) \<le> remaining_consumers l \<and> set (grants tok ops L) \<subseteq> {lease_blocks l}"
proof (induction ops arbitrary: L l)
  case (Cons op ops)
  have c: "\<not> creates tok op" "\<forall>op \<in> set ops. \<not> creates tok op" using Cons.prems(1) by auto
  have g: "granted tok op L = [] \<or> granted tok op L = [lease_blocks l]"
    by (rule lease_step_lease(2)[of tok op L l, OF c(1) Cons.prems(3)])
  have "1 \<le> remaining_consumers l" using Cons.prems(2,3) by (simp add: leases_inv_def)
  from lease_step_lease(1)[of tok op L l, OF c(1) Cons.prems(3)] show ?case
  proof (elim disjE exE conjE)
    assume "lease_step op L tok = None"
    then show ?thesis using g grants_none[OF c(2)] \<open>1 \<le> remaining_consumers l\<close> by auto
  next
    fix n assume n: "lease_step op L tok = Some (l\<lparr>remaining_consumers := n\<rparr>)"
        "n + length (granted tok op L) = remaining_consumers l"
    then show ?thesis using g Cons.IH[of "lease_step op L", OF c(2) lease_step_inv[OF Cons.prems(2)] n(1)] by auto
  qed
qed simp

lemma spared_consume:
  assumes "swept < expires_at l" and "L tok = Some l" and "1 \<le> remaining_consumers l"
  shows "lease_consume swept (lease_instance l) tok L =
      ((lease_sweep_expired swept L)(tok := (if remaining_consumers l = 1 then None
        else Some (l\<lparr>remaining_consumers := remaining_consumers l - 1\<rparr>))), Inr (lease_blocks l))"
  using assms by (auto simp: lease_consume_def lease_sweep_expired_def Let_def)

lemma consume_frame: "t \<noteq> tok \<Longrightarrow> fst (lease_consume swept inst t L) tok = lease_sweep_expired swept L tok"
  unfolding lease_consume_def Let_def by (auto split: option.split)

lemma sweep_keeps: "L tok = Some l \<Longrightarrow> swept < expires_at l \<Longrightarrow> lease_sweep_expired swept L tok = Some l"
  by (simp add: lease_sweep_expired_def)

lemma consume_foreign:
  "L tok = Some l \<Longrightarrow> swept < expires_at l \<Longrightarrow> inst \<noteq> lease_instance l \<Longrightarrow>
   lease_consume swept inst tok L = (lease_sweep_expired swept L, Inl (LeaseForeign (lease_instance l)))"
  by (simp add: lease_consume_def sweep_keeps)

lemma spared_step:
  assumes "spares tok l op" and "L tok = Some l" and "1 \<le> remaining_consumers l"
  shows "\<not> asks tok l op \<Longrightarrow> lease_step op L tok = Some l \<and> granted tok op L = []"
    and "asks tok l op \<Longrightarrow> granted tok op L = [lease_blocks l] \<and>
      lease_step op L tok = (if remaining_consumers l = 1 then None
        else Some (l\<lparr>remaining_consumers := remaining_consumers l - 1\<rparr>))"
proof -
  assume "\<not> asks tok l op"
  then show "lease_step op L tok = Some l \<and> granted tok op L = []"
  proof (cases op)
    case (LConsume swept inst t)
    show ?thesis
    proof (cases "t = tok")
      case True
      then show ?thesis using LConsume assms \<open>\<not> asks tok l op\<close> consume_foreign[of L tok l swept inst] sweep_keeps[of L tok l swept]
        by simp
    next
      case False
      then show ?thesis using LConsume assms consume_frame[of t tok swept inst L] sweep_keeps[of L tok l swept] by simp
    qed
  qed (use assms in \<open>auto simp: lease_defs\<close>)
next
  assume "asks tok l op"
  then obtain swept where "op = LConsume swept (lease_instance l) tok" by (cases op) auto
  then show "granted tok op L = [lease_blocks l] \<and> lease_step op L tok = (if remaining_consumers l = 1 then None
        else Some (l\<lparr>remaining_consumers := remaining_consumers l - 1\<rparr>))"
    using spared_consume[of swept l L tok] assms by simp
qed

lemma asks_remaining [simp]: "asks tok (l\<lparr>remaining_consumers := n\<rparr>) = asks tok l"
proof
  fix op show "asks tok (l\<lparr>remaining_consumers := n\<rparr>) op = asks tok l op" by (cases op) auto
qed

lemma spares_remaining [simp]: "spares tok (l\<lparr>remaining_consumers := n\<rparr>) = spares tok l"
proof
  fix op show "spares tok (l\<lparr>remaining_consumers := n\<rparr>) op = spares tok l op" by (cases op) auto
qed

lemma spares_creates: "spares tok l op \<Longrightarrow> \<not> creates tok op"
  by (cases op) auto

lemma grants_exact:
  "\<forall>op \<in> set ops. spares tok l op \<Longrightarrow> leases_inv L \<Longrightarrow> L tok = Some l \<Longrightarrow>
   length (grants tok ops L) = min (remaining_consumers l) (length (filter (asks tok l) ops))"
proof (induction ops arbitrary: L l)
  case (Cons op ops)
  have sp: "spares tok l op" "\<forall>op \<in> set ops. spares tok l op" using Cons.prems(1) by auto
  have rem: "1 \<le> remaining_consumers l" using Cons.prems(2,3) by (simp add: leases_inv_def)
  note inv = lease_step_inv[OF Cons.prems(2), of op]
  show ?case
  proof (cases "asks tok l op")
    case False
    then show ?thesis using spared_step(1)[of tok l op L, OF sp(1) Cons.prems(3) rem] Cons.IH[of l "lease_step op L"] sp(2) inv by simp
  next
    case True
    note st = spared_step(2)[of tok l op L, OF sp(1) Cons.prems(3) rem True]
    show ?thesis
    proof (cases "remaining_consumers l = 1")
      case True
      have "\<forall>op \<in> set ops. \<not> creates tok op" using sp(2) spares_creates by blast
      then show ?thesis using st True \<open>asks tok l op\<close> grants_none by simp
    next
      case False
      let ?l = "l\<lparr>remaining_consumers := remaining_consumers l - 1\<rparr>"
      have "length (grants tok ops (lease_step op L)) = min (remaining_consumers l - 1) (length (filter (asks tok l) ops))"
        using Cons.IH[of ?l "lease_step op L"] sp(2) inv st False by simp
      then show ?thesis using st \<open>asks tok l op\<close> rem by simp
    qed
  qed
qed simp

text \<open>
  C19. A lease hands out its blocks to as many consumers as it announced and to no more:
  in any history in which its token is not drawn again, every grant returns exactly the
  blocks of the lease and there are at most \<open>max consumers 1\<close> grants; if nothing releases the
  lease and no operation sees its deadline pass, then the first that many requests of its
  own instance are all granted.
\<close>

theorem lease_grants_exact:
  assumes "L = lease_create swept now tok inst bs consumers L0" and "leases_inv L0"
    and "\<forall>op \<in> set ops. \<not> creates tok op"
  shows "length (grants tok ops L) \<le> max consumers 1 \<and> set (grants tok ops L) \<subseteq> {bs} \<and>
    ((\<forall>op \<in> set ops. spares tok (the (L tok)) op) \<longrightarrow>
       length (grants tok ops L) = min (max consumers 1) (length (filter (asks tok (the (L tok))) ops)))"
proof -
  let ?l = "\<lparr>lease_instance = inst, lease_blocks = bs, remaining_consumers = max consumers 1,
         expires_at = now + default_lease_ttl\<rparr>"
  have at: "L tok = Some ?l" by (simp add: assms(1) lease_create_def)
  have inv: "leases_inv L"
    using lease_step_inv[OF assms(2), of "LCreate swept now tok inst bs consumers"] by (simp add: assms(1))
  show ?thesis using grants_bounded[of ops tok L ?l, OF assms(3) inv at] grants_exact[of ops tok ?l L] inv at by simp
qed

section \<open>Witness\<close>

theorem lease_grants_exact_witness:
  "length (grants [1] [LConsume 5 ''i'' [1], LConsume 6 ''x'' [1], LConsume 7 ''i'' [1], LConsume 8 ''i'' [1]]
     (lease_create 0 1 [1] ''i'' [] 2 Map.empty)) = 2"
proof -
  let ?ops = "[LConsume 5 ''i'' [1], LConsume 6 ''x'' [1], LConsume 7 ''i'' [1], LConsume 8 ''i'' [1]]"
  have "leases_inv Map.empty" "\<forall>op \<in> set ?ops. \<not> creates [1] op" by (simp_all add: leases_inv_def)
  from lease_grants_exact[OF refl this, of 0 1 "''i''" "[]" 2] show ?thesis
    by (simp add: lease_create_def default_lease_ttl_def)
qed

end
