(* ===== verification/Transfer_Lock.thy ===== *)
theory Transfer_Lock
  imports Query_Lease
begin

text \<open>
  Transfer locks (\<open>pegaflow-core/src/storage/transfer_lock.rs\<close>): while another node reads
  blocks over RDMA, a session holds references to them, so that eviction cannot free their
  memory. A session ends when it is released or when the garbage collector finds it older
  than the timeout. The session table is an association list, the active gauge an integer as
  in the metrics; session ids come from the UUID generator and are arguments.
\<close>

record transfer_session =
  ts_blocks :: "(block_key \<times> arc_block) list"
  created_at :: nat
  requester_id :: string

record transfer_locks =
  tl_sessions :: "(string \<times> transfer_session) list"
  lock_timeout :: nat
  lock_active :: int
  lock_timeouts_total :: nat

definition transfer_locks_new :: "nat \<Rightarrow> transfer_locks" where
  "transfer_locks_new timeout = \<lparr>tl_sessions = [], lock_timeout = timeout, lock_active = 0, lock_timeouts_total = 0\<rparr>"

definition lock_blocks ::
  "string \<Rightarrow> nat \<Rightarrow> string \<Rightarrow> (block_key \<times> arc_block) list \<Rightarrow> transfer_locks \<Rightarrow> transfer_locks" where
  "lock_blocks sid now requester bs t =
     t\<lparr>tl_sessions := AList.update sid \<lparr>ts_blocks = bs, created_at = now, requester_id = requester\<rparr> (tl_sessions t),
       lock_active := lock_active t + int (length bs)\<rparr>"

definition lock_release :: "string \<Rightarrow> transfer_locks \<Rightarrow> transfer_locks \<times> block_key list" where
  "lock_release sid t =
     (case map_of (tl_sessions t) sid of
        Some session \<Rightarrow>
          (t\<lparr>tl_sessions := AList.delete sid (tl_sessions t),
             lock_active := lock_active t + - int (length (ts_blocks session))\<rparr>, map fst (ts_blocks session))
      | None \<Rightarrow> (t, []))"

fun gc_loop ::
  "string list \<Rightarrow> (string \<times> transfer_session) list \<Rightarrow> nat \<Rightarrow> nat \<Rightarrow> (string \<times> transfer_session) list \<times> nat \<times> nat" where
  "gc_loop [] sessions expired_count expired_blocks = (sessions, expired_count, expired_blocks)"
| "gc_loop (sid # ids) sessions expired_count expired_blocks =
     (case map_of sessions sid of
        Some session \<Rightarrow>
          gc_loop ids (AList.delete sid sessions) (expired_count + 1) (expired_blocks + length (ts_blocks session))
      | None \<Rightarrow> gc_loop ids sessions expired_count expired_blocks)"

definition session_expired :: "nat \<Rightarrow> nat \<Rightarrow> transfer_session \<Rightarrow> bool" where
  "session_expired timeout now session \<longleftrightarrow> now - created_at session > timeout"

definition lock_gc_expired :: "nat \<Rightarrow> transfer_locks \<Rightarrow> transfer_locks \<times> nat" where
  "lock_gc_expired now t =
     (let expired = map fst (filter (\<lambda>(_, session). session_expired (lock_timeout t) now session) (tl_sessions t));
          (sessions, expired_count, expired_blocks) = gc_loop expired (tl_sessions t) 0 0;
          t = t\<lparr>tl_sessions := sessions\<rparr>
      in (if expired_count > 0
          then t\<lparr>lock_active := lock_active t + - int expired_blocks,
                 lock_timeouts_total := lock_timeouts_total t + expired_count\<rparr>
          else t, expired_count))"

section \<open>Accounting\<close>

definition locked_total :: "(string \<times> transfer_session) list \<Rightarrow> nat" where
  "locked_total ss = sum_list (map (length \<circ> ts_blocks \<circ> snd) ss)"

definition lock_inv :: "transfer_locks \<Rightarrow> bool" where
  "lock_inv t \<longleftrightarrow> distinct (map fst (tl_sessions t)) \<and> lock_active t = int (locked_total (tl_sessions t))"

text \<open>Histories in which the UUID generator never returns the id of a live session.\<close>

inductive lock_reach :: "nat \<Rightarrow> transfer_locks \<Rightarrow> bool" for timeout where
  lk_new: "lock_reach timeout (transfer_locks_new timeout)"
| lk_lock: "lock_reach timeout t \<Longrightarrow> sid \<notin> fst ` set (tl_sessions t) \<Longrightarrow>
    lock_reach timeout (lock_blocks sid now requester bs t)"
| lk_release: "lock_reach timeout t \<Longrightarrow> lock_reach timeout (fst (lock_release sid t))"
| lk_gc: "lock_reach timeout t \<Longrightarrow> lock_reach timeout (fst (lock_gc_expired now t))"

lemma update_new_key: "k \<notin> fst ` set xs \<Longrightarrow> AList.update k v xs = xs @ [(k, v)]"
  by (induction xs) auto

lemma delete_key:
  "distinct (map fst xs) \<Longrightarrow> map_of xs k = Some v \<Longrightarrow>
     locked_total xs = length (ts_blocks v) + locked_total (AList.delete k xs)"
proof (induction xs)
  case (Cons x xs)
  have "AList.delete k xs = xs" if "k = fst x" using Cons.prems(1) that
    by (auto simp: AList.delete_eq filter_id_conv image_iff)
  then show ?case using Cons by (auto simp: locked_total_def split: if_splits)
qed simp

lemma gc_loop_spec:
  "distinct (map fst ss) \<Longrightarrow> distinct ids \<Longrightarrow> set ids \<subseteq> fst ` set ss \<Longrightarrow>
   gc_loop ids ss n m = (filter (\<lambda>(i, _). i \<notin> set ids) ss, n + length ids,
     m + (locked_total ss - locked_total (filter (\<lambda>(i, _). i \<notin> set ids) ss))) \<and>
   locked_total (filter (\<lambda>(i, _). i \<notin> set ids) ss) \<le> locked_total ss"
proof (induction ids arbitrary: ss n m)
  case Nil
  then show ?case by simp
next
  case (Cons sid ids)
  obtain v where v: "map_of ss sid = Some v" using Cons.prems(1,3) by (metis insert_subset list.set(2) map_of_eq_None_iff not_Some_eq option.exhaust)
  let ?ss = "AList.delete sid ss"
  have d: "distinct (map fst ?ss)" using Cons.prems(1) by (rule distinct_delete)
  have sub: "set ids \<subseteq> fst ` set ?ss" using Cons.prems(2,3) delete_keys[of sid ss] by (auto simp flip: set_map)
  have f: "filter (\<lambda>(i, _). i \<notin> set ids) ?ss = filter (\<lambda>(i, _). i \<notin> set (sid # ids)) ss"
    by (induction ss) (auto simp: AList.delete_eq)
  note IH = Cons.IH[OF d _ sub, of "n + 1" "m + length (ts_blocks v)"]
  show ?case using IH Cons.prems(2) v delete_key[OF Cons.prems(1) v] unfolding f by simp
qed

lemma gc_expired_spec:
  assumes "lock_inv t"
  shows "tl_sessions (fst (lock_gc_expired now t)) =
      filter (\<lambda>(_, s). \<not> session_expired (lock_timeout t) now s) (tl_sessions t)"
    and "snd (lock_gc_expired now t) = length (filter (\<lambda>(_, s). session_expired (lock_timeout t) now s) (tl_sessions t))"
    and "lock_inv (fst (lock_gc_expired now t))"
proof -
  let ?ss = "tl_sessions t"
  let ?ex = "filter (\<lambda>(_, s). session_expired (lock_timeout t) now s) ?ss"
  have d: "distinct (map fst ?ss)" using assms by (simp add: lock_inv_def)
  have ids: "distinct (map fst ?ex)" "set (map fst ?ex) \<subseteq> fst ` set ?ss"
    using d by (auto simp: distinct_map_filter)
  have keep: "filter (\<lambda>(i, _). i \<notin> set (map fst ?ex)) ?ss = filter (\<lambda>(_, s). \<not> session_expired (lock_timeout t) now s) ?ss"
  proof (intro filter_cong refl)
    fix x assume "x \<in> set ?ss"
    then have "fst x \<in> fst ` {y \<in> set ?ss. session_expired (lock_timeout t) now (snd y)} \<longleftrightarrow>
        session_expired (lock_timeout t) now (snd x)"
      using d by (auto simp: distinct_map dest: inj_onD)
    then show "(case x of (i, _) \<Rightarrow> i \<notin> set (map fst ?ex)) = (case x of (_, s) \<Rightarrow> \<not> session_expired (lock_timeout t) now s)"
      by (simp add: split_beta)
  qed
  note g = gc_loop_spec[OF d ids, of 0 0, unfolded keep]
  show "tl_sessions (fst (lock_gc_expired now t)) = filter (\<lambda>(_, s). \<not> session_expired (lock_timeout t) now s) ?ss"
    and "snd (lock_gc_expired now t) = length ?ex"
    using g by (simp_all add: lock_gc_expired_def Let_def)
  have "locked_total (filter (\<lambda>(_, s). \<not> session_expired (lock_timeout t) now s) ?ss) = locked_total ?ss" if "?ex = []"
    using that by (metis (mono_tags, lifting) case_prod_beta filter_False filter_True filter_empty_conv)
  then show "lock_inv (fst (lock_gc_expired now t))"
    using g assms by (auto simp: lock_gc_expired_def lock_inv_def Let_def distinct_map_filter)
qed

lemma lock_reach_inv: "lock_reach timeout t \<Longrightarrow> lock_inv t \<and> lock_timeout t = timeout"
proof (induction rule: lock_reach.induct)
  case lk_new
  show ?case by (simp add: lock_inv_def transfer_locks_new_def locked_total_def)
next
  case (lk_lock t sid now requester bs)
  then show ?case by (auto simp: lock_inv_def lock_blocks_def update_new_key locked_total_def)
next
  case (lk_release t sid)
  then show ?case using delete_key[of "tl_sessions t" sid]
    by (auto simp: lock_inv_def lock_release_def distinct_delete split: option.split)
next
  case (lk_gc t now)
  then show ?case using gc_expired_spec(3)[of t now] by (auto simp: lock_gc_expired_def Let_def split: prod.splits)
qed

text \<open>
  C20. In every history the active gauge equals the number of blocks the sessions hold; a
  collection removes exactly the sessions older than the timeout, keeps all others with
  their blocks, and returns how many it removed; a release returns exactly the keys of its
  session and touches no other.
\<close>

theorem transfer_locks_exact:
  assumes "lock_reach timeout t"
  shows "lock_active t = int (locked_total (tl_sessions t)) \<and>
    tl_sessions (fst (lock_gc_expired now t)) = filter (\<lambda>(_, s). now - created_at s \<le> timeout) (tl_sessions t) \<and>
    snd (lock_gc_expired now t) = length (filter (\<lambda>(_, s). timeout < now - created_at s) (tl_sessions t)) \<and>
    snd (lock_release sid t) = (case map_of (tl_sessions t) sid of None \<Rightarrow> [] | Some s \<Rightarrow> map fst (ts_blocks s)) \<and>
    map_of (tl_sessions (fst (lock_release sid t))) = (map_of (tl_sessions t))(sid := None)"
proof -
  have inv: "lock_inv t" "lock_timeout t = timeout" using lock_reach_inv[OF assms] by auto
  have "map_of (tl_sessions (fst (lock_release sid t))) = (map_of (tl_sessions t))(sid := None)"
    by (auto simp: lock_release_def delete_conv' fun_upd_idem split: option.split)
  moreover have "snd (lock_release sid t) = (case map_of (tl_sessions t) sid of None \<Rightarrow> [] | Some s \<Rightarrow> map fst (ts_blocks s))"
    by (simp add: lock_release_def split: option.split)
  ultimately show ?thesis using gc_expired_spec[OF inv(1), of now] inv
    by (simp add: session_expired_def lock_inv_def not_less)
qed

section \<open>Witness\<close>

definition wlocks :: transfer_locks where
  "wlocks = lock_blocks ''s'' 5 ''n'' [(\<lparr>namespace = ''m'', hash = [1]\<rparr>,
     \<lparr>arc_id = 0, arc_inner = \<lparr>sealed_slots = [], sealed_footprint = 0, sealed_numas = []\<rparr>\<rparr>)] (transfer_locks_new 10)"

theorem transfer_locks_exact_witness:
  "lock_active wlocks = 1 \<and> tl_sessions (fst (lock_gc_expired 20 wlocks)) = []"
proof -
  have "lock_reach 10 wlocks" unfolding wlocks_def by (intro lk_lock lk_new) (simp add: transfer_locks_new_def)
  from transfer_locks_exact[OF this, of 20 "''s''"] show ?thesis
    by (simp add: wlocks_def lock_blocks_def transfer_locks_new_def locked_total_def)
qed

end
