(* ===== verification/Scaled_Alloc.thy ===== *)
theory Scaled_Alloc
  imports Block_Model "HOL-Library.Log_Nat"
begin

text \<open>
  The scaled allocator (\<open>pegaflow-core/src/allocator.rs\<close>): a byte-level interface over the
  \<open>offset-allocator\<close> crate, which manages a range of \<open>u32\<close> units. Requests are rounded up to
  units and then to a size class of the crate. The crate is not part of the sources: it is
  the argument \<open>R\<close> of the definitions, with \<open>raw_laws\<close> naming what the wrapper relies on.
  Byte and unit counts are natural numbers; \<open>scaled_inv\<close> keeps every product the code forms
  below the capacity, hence within its width.
\<close>

section \<open>Size classes\<close>

definition u32_try_from :: "nat \<Rightarrow> nat option" where
  "u32_try_from n = (if n < 2 ^ 32 then Some n else None)"

definition size_class_mantissa_bits :: nat where
  "size_class_mantissa_bits = 3"

text \<open>\<open>floorlog 2 units\<close> is the bit length \<open>u32::BITS - units.leading_zeros()\<close>.\<close>

definition size_class_units :: "nat \<Rightarrow> nat option" where
  "size_class_units units =
     (let shift = floorlog 2 units - (size_class_mantissa_bits + 1);
          rounded = div_ceil units (2 ^ shift) * 2 ^ shift
      in u32_try_from rounded)"

section \<open>The crate underneath\<close>

record ('r, 'h) raw_ops =
  raw_with_max_allocs :: "nat \<Rightarrow> nat \<Rightarrow> 'r"
  raw_allocate :: "'r \<Rightarrow> nat \<Rightarrow> 'h option \<times> 'r"
  raw_allocation_size :: "'r \<Rightarrow> 'h \<Rightarrow> nat"
  raw_free :: "'r \<Rightarrow> 'h \<Rightarrow> 'r"
  raw_offset :: "'h \<Rightarrow> nat"
  raw_total_free_space :: "'r \<Rightarrow> nat"
  raw_largest_free_region :: "'r \<Rightarrow> nat"

text \<open>
  The boundaries of the crate's size classes: eight per power of two, all sizes below
  eight exact.
\<close>

definition class_boundary :: "nat \<Rightarrow> bool" where
  "class_boundary c \<longleftrightarrow> (\<exists>m e. m < 16 \<and> c = m * 2 ^ e)"

definition regions_apart :: "('r, 'h) raw_ops \<Rightarrow> nat \<Rightarrow> ('h \<times> nat) set \<Rightarrow> bool" where
  "regions_apart R tot H \<longleftrightarrow> finite H \<and>
     (\<forall>(h, n) \<in> H. 0 < n \<and> raw_offset R h + n \<le> tot) \<and>
     (\<forall>(h, n) \<in> H. \<forall>(h', n') \<in> H. (h, n) \<noteq> (h', n') \<longrightarrow>
        h \<noteq> h' \<and> spans_apart (raw_offset R h, n) (raw_offset R h', n'))"

text \<open>
  What the wrapper relies on. \<open>rep r tot H\<close> says that the allocator \<open>r\<close> manages \<open>tot\<close> units
  and has the live allocations \<open>H\<close>, with their sizes: they are disjoint regions of the range;
  an allocation adds a region of at least the requested size, a free removes one; free space
  is never over-reported; the largest free region is reported by the class it is filed under,
  and a request no larger than it succeeds.
\<close>

definition raw_laws ::
  "('r, 'h) raw_ops \<Rightarrow> ('r \<Rightarrow> nat \<Rightarrow> ('h \<times> nat) set \<Rightarrow> bool) \<Rightarrow> bool" where
  "raw_laws R rep \<longleftrightarrow>
     (\<forall>tot limit. rep (raw_with_max_allocs R tot limit) tot {}) \<and>
     (\<forall>r tot H n h r'. rep r tot H \<and> 0 < n \<and> raw_allocate R r n = (Some h, r') \<longrightarrow>
        rep r' tot (insert (h, raw_allocation_size R r' h) H) \<and>
        n \<le> raw_allocation_size R r' h \<and> h \<notin> fst ` H) \<and>
     (\<forall>r tot H n r'. rep r tot H \<and> 0 < n \<and> raw_allocate R r n = (None, r') \<longrightarrow> r' = r) \<and>
     (\<forall>r tot H h n. rep r tot H \<and> (h, n) \<in> H \<longrightarrow> rep (raw_free R r h) tot (H - {(h, n)})) \<and>
     (\<forall>r tot H. rep r tot H \<longrightarrow> regions_apart R tot H \<and>
        raw_total_free_space R r + (\<Sum>(h, n) \<in> H. n) \<le> tot \<and>
        raw_largest_free_region R r \<le> raw_total_free_space R r \<and>
        class_boundary (raw_largest_free_region R r)) \<and>
     (\<forall>r tot H n. rep r tot H \<and> 0 < n \<and> n \<le> raw_largest_free_region R r \<longrightarrow>
        fst (raw_allocate R r n) \<noteq> None)"

section \<open>The wrapper\<close>

datatype allocator_error =
    InvalidUnitSize
  | CapacityTooLarge nat nat
  | RequestTooLarge nat nat

record 'h allocation =
  offset_bytes :: nat
  size_bytes :: nat
  raw_handle :: 'h

record 'r scaled_allocator =
  unit_size :: nat
  total_units :: nat
  inner :: 'r

record storage_report_bytes =
  total_free_bytes :: nat
  largest_free_allocation_bytes :: nat

definition new_with_unit_size_and_max_allocs ::
  "('r, 'h) raw_ops \<Rightarrow> nat \<Rightarrow> nat \<Rightarrow> nat \<Rightarrow> allocator_error + 'r scaled_allocator" where
  "new_with_unit_size_and_max_allocs R tot unit max_allocs =
     (if unit = 0 then Inl InvalidUnitSize
      else case u32_try_from (tot div unit) of
             None \<Rightarrow> Inl (CapacityTooLarge tot unit)
           | Some units \<Rightarrow> Inr \<lparr>unit_size = unit, total_units = units,
                               inner = raw_with_max_allocs R units max_allocs\<rparr>)"

text \<open>
  \<open>allocate\<close>; \<open>None\<close> when the range is exhausted. The outer error is the panic of the
  \<open>expect\<close> on a zero-sized result.
\<close>

datatype alloc_panic = ZeroAllocation

definition scaled_allocate ::
  "('r, 'h) raw_ops \<Rightarrow> 'r scaled_allocator \<Rightarrow> nat \<Rightarrow>
   alloc_panic + ((allocator_error + 'h allocation option) \<times> 'r scaled_allocator)" where
  "scaled_allocate R s sz =
     (if sz = 0 then Inr (Inr None, s)
      else case Option.bind (u32_try_from (div_ceil sz (unit_size s))) size_class_units of
             None \<Rightarrow> Inr (Inl (RequestTooLarge sz (unit_size s)), s)
           | Some class_units \<Rightarrow>
               let (h, r) = raw_allocate R (inner s) class_units; s' = s\<lparr>inner := r\<rparr> in
               case h of
                 None \<Rightarrow> Inr (Inr None, s')
               | Some raw \<Rightarrow>
                   let allocated = raw_allocation_size R r raw * unit_size s in
                   if allocated = 0 then Inl ZeroAllocation
                   else Inr (Inr (Some \<lparr>offset_bytes = raw_offset R raw * unit_size s,
                                        size_bytes = allocated, raw_handle = raw\<rparr>), s'))"

definition scaled_free ::
  "('r, 'h) raw_ops \<Rightarrow> 'r scaled_allocator \<Rightarrow> 'h allocation \<Rightarrow> 'r scaled_allocator" where
  "scaled_free R s a = s\<lparr>inner := raw_free R (inner s) (raw_handle a)\<rparr>"

definition scaled_total_bytes :: "'r scaled_allocator \<Rightarrow> nat" where
  "scaled_total_bytes s = unit_size s * total_units s"

definition scaled_storage_report :: "('r, 'h) raw_ops \<Rightarrow> 'r scaled_allocator \<Rightarrow> storage_report_bytes" where
  "scaled_storage_report R s =
     \<lparr>total_free_bytes = raw_total_free_space R (inner s) * unit_size s,
      largest_free_allocation_bytes = raw_largest_free_region R (inner s) * unit_size s\<rparr>"

section \<open>Rounding\<close>

lemma octave:
  assumes "16 \<le> u"
  shows "8 * 2 ^ (floorlog 2 u - 4) \<le> u" "u < 16 * 2 ^ (floorlog 2 u - 4)"
proof -
  let ?b = "floorlog 2 u"
  have b: "2 ^ (?b - 1) \<le> u \<and> u < 2 ^ ?b" using floorlog_bounds[of u 2] assms by simp
  have "\<not> ?b \<le> 4"
  proof
    assume "?b \<le> 4"
    then have "(2::nat) ^ ?b \<le> 2 ^ 4" by (rule power_increasing) simp
    then show False using b assms by simp
  qed
  then have "(2::nat) ^ (?b - 1) = 2 ^ 3 * 2 ^ (?b - 4)" "(2::nat) ^ ?b = 2 ^ 4 * 2 ^ (?b - 4)"
    unfolding power_add[symmetric] by (simp_all add: Suc_le_eq)
  then show "8 * 2 ^ (?b - 4) \<le> u" "u < 16 * 2 ^ (?b - 4)" using b by simp_all
qed

lemma small_shift: "u < 16 \<Longrightarrow> floorlog 2 u - 4 = 0"
proof -
  assume u: "u < 16"
  have "\<not> 5 \<le> floorlog 2 u"
  proof
    assume "5 \<le> floorlog 2 u"
    then have "0 < u" by (cases "u = 0") (auto simp: floorlog_def)
    then have "2 ^ (floorlog 2 u - 1) \<le> u" using floorlog_bounds[of u 2] by simp
    moreover have "(2::nat) ^ 4 \<le> 2 ^ (floorlog 2 u - 1)"
      using \<open>5 \<le> floorlog 2 u\<close> by (intro power_increasing) auto
    ultimately show False using u by simp
  qed
  then show ?thesis by simp
qed

definition class_round :: "nat \<Rightarrow> nat" where
  "class_round u = div_ceil u (2 ^ (floorlog 2 u - 4)) * 2 ^ (floorlog 2 u - 4)"

lemma size_class_units_alt: "size_class_units u = u32_try_from (class_round u)"
  by (simp add: size_class_units_def class_round_def size_class_mantissa_bits_def Let_def)

lemma class_round_ge: "u \<le> class_round u"
  unfolding class_round_def by (rule div_ceil_ge) simp

lemma class_round_boundary: "class_boundary (class_round u)"
proof (cases "u < 16")
  case True
  then show ?thesis
    unfolding class_round_def class_boundary_def small_shift[OF True]
    by (intro exI[of _ u] exI[of _ 0]) (simp add: div_ceil_def)
next
  case False
  let ?k = "floorlog 2 u - 4"
  have "u \<le> 16 * 2 ^ ?k" using octave(2)[of u] False by simp
  then have le: "div_ceil u (2 ^ ?k) \<le> 16" by (intro div_ceil_least) auto
  show ?thesis
  proof (cases "div_ceil u (2 ^ ?k) = 16")
    case True
    then have "class_round u = 8 * 2 ^ (?k + 1)" by (simp add: class_round_def)
    then show ?thesis unfolding class_boundary_def by (intro exI[of _ 8] exI[of _ "?k + 1"]) simp
  next
    case False
    then show ?thesis using le unfolding class_boundary_def class_round_def
      by (intro exI[of _ "div_ceil u (2 ^ ?k)"] exI[of _ ?k]) simp
  qed
qed

lemma class_round_least:
  assumes "class_boundary c" and "u \<le> c"
  shows "class_round u \<le> c"
proof (cases "u < 16")
  case True
  then show ?thesis using assms(2) by (simp add: class_round_def small_shift div_ceil_def)
next
  case False
  let ?k = "floorlog 2 u - 4"
  obtain m e where c: "m < 16" "c = m * 2 ^ e" using assms(1) by (auto simp: class_boundary_def)
  note o = octave[of u] False
  have up: "class_round u \<le> 16 * 2 ^ ?k"
    unfolding class_round_def using div_ceil_least[of "2 ^ ?k" u 16] o by simp
  show ?thesis
  proof (cases "?k \<le> e")
    case True
    then have "(2::nat) ^ e = 2 ^ (e - ?k) * 2 ^ ?k" by (metis le_add_diff_inverse2 power_add)
    then have "c = (m * 2 ^ (e - ?k)) * 2 ^ ?k" using c(2) by (metis mult.assoc)
    then show ?thesis unfolding class_round_def using assms(2) div_ceil_least[of "2 ^ ?k" u "m * 2 ^ (e - ?k)"]
      by (simp add: mult_le_mono1)
  next
    case False
    define d where "d = ?k - Suc e"
    have d: "?k = e + Suc d" using False by (simp add: d_def)
    have "c < 16 * 2 ^ e" using c by simp
    also have "\<dots> \<le> 8 * 2 ^ ?k" unfolding d power_add power_Suc by simp
    finally show ?thesis using o assms(2) by simp
  qed
qed

lemma class_round_idem: "class_boundary c \<Longrightarrow> class_round c = c"
  using class_round_least[of c c] class_round_ge[of c] by simp

lemma class_round_waste: "8 * (class_round u - u) \<le> u"
proof (cases "u < 16")
  case True
  then show ?thesis by (simp add: class_round_def small_shift div_ceil_def)
next
  case False
  let ?k = "floorlog 2 u - 4"
  have "div_ceil u (2 ^ ?k) \<le> u div 2 ^ ?k + 1" by (simp add: div_ceil_def)
  then have "class_round u \<le> (u div 2 ^ ?k + 1) * 2 ^ ?k" unfolding class_round_def by (rule mult_le_mono1)
  also have "\<dots> \<le> u + 2 ^ ?k" by (simp add: add_mult_distrib)
  finally have "class_round u - u \<le> 2 ^ ?k" by simp
  then show ?thesis using octave(1)[of u] False by simp
qed

lemma size_class_small: "u < 16 \<Longrightarrow> size_class_units u = Some u"
  by (simp add: size_class_units_alt class_round_def small_shift div_ceil_def u32_try_from_def)

text \<open>
  Size classes are exact. \<open>size_class_units\<close> of a \<open>u32\<close> returns the least class boundary
  that holds the request whenever one fits in 32 bits, and only then; the rounding wastes at
  most an eighth of the request; and rounding a rounded size changes nothing, so a region
  freed by an allocation is filed under the class an equal request searches.
\<close>

theorem size_class_exact:
  "(size_class_units u = Some c \<longleftrightarrow>
      c < 2 ^ 32 \<and> class_boundary c \<and> u \<le> c \<and> (\<forall>c'. class_boundary c' \<and> u \<le> c' \<longrightarrow> c \<le> c')) \<and>
   (size_class_units u = Some c \<longrightarrow> 8 * (c - u) \<le> u \<and> size_class_units c = Some c)"
proof -
  have c: "size_class_units u = Some c \<longleftrightarrow> c < 2 ^ 32 \<and> c = class_round u"
    by (auto simp: size_class_units_alt u32_try_from_def)
  have least: "c = class_round u \<longleftrightarrow>
      class_boundary c \<and> u \<le> c \<and> (\<forall>c'. class_boundary c' \<and> u \<le> c' \<longrightarrow> c \<le> c')"
    using class_round_boundary class_round_ge class_round_least by (metis le_antisym)
  have "size_class_units c = Some c" if "c < 2 ^ 32" "c = class_round u"
    using that class_round_idem[OF class_round_boundary[of u]] by (simp add: size_class_units_alt u32_try_from_def)
  then show ?thesis using c least class_round_waste[of u] by blast
qed

theorem size_class_exact_witness:
  "size_class_units 854 = Some 896 \<and> size_class_units 896 = Some 896 \<and> 8 * (896 - 854 :: nat) \<le> 854"
proof -
  have "floorlog 2 (854 :: nat) = 10" by (simp add: compute_floorlog)
  then have "size_class_units 854 = Some 896"
    by (simp add: size_class_units_alt class_round_def div_ceil_def u32_try_from_def)
  with size_class_exact[of 854 896] show ?thesis by blast
qed

section \<open>The wrapper over a lawful allocator\<close>

definition units_of :: "'r scaled_allocator \<Rightarrow> 'h allocation \<Rightarrow> 'h \<times> nat" where
  "units_of s a = (raw_handle a, size_bytes a div unit_size s)"

definition scaled_inv ::
  "('r, 'h) raw_ops \<Rightarrow> ('r \<Rightarrow> nat \<Rightarrow> ('h \<times> nat) set \<Rightarrow> bool) \<Rightarrow> 'r scaled_allocator \<Rightarrow>
   'h allocation set \<Rightarrow> bool" where
  "scaled_inv R rep s A \<longleftrightarrow> 0 < unit_size s \<and> total_units s < 2 ^ 32 \<and>
     rep (inner s) (total_units s) (units_of s ` A) \<and> inj_on raw_handle A \<and>
     (\<forall>a \<in> A. offset_bytes a = raw_offset R (raw_handle a) * unit_size s \<and> unit_size s dvd size_bytes a)"

lemma raw_lawsD:
  assumes "raw_laws R rep"
  shows "rep (raw_with_max_allocs R tot limit) tot {}"
    and "rep r tot H \<Longrightarrow> 0 < n \<Longrightarrow> raw_allocate R r n = (Some h, r') \<Longrightarrow>
      rep r' tot (insert (h, raw_allocation_size R r' h) H) \<and> n \<le> raw_allocation_size R r' h \<and> h \<notin> fst ` H"
    and "rep r tot H \<Longrightarrow> 0 < n \<Longrightarrow> raw_allocate R r n = (None, r') \<Longrightarrow> r' = r"
    and "rep r tot H \<Longrightarrow> (h, n) \<in> H \<Longrightarrow> rep (raw_free R r h) tot (H - {(h, n)})"
    and "rep r tot H \<Longrightarrow> regions_apart R tot H"
    and "rep r tot H \<Longrightarrow> raw_total_free_space R r + (\<Sum>(h, n) \<in> H. n) \<le> tot"
    and "rep r tot H \<Longrightarrow> raw_largest_free_region R r \<le> raw_total_free_space R r"
    and "rep r tot H \<Longrightarrow> class_boundary (raw_largest_free_region R r)"
    and "rep r tot H \<Longrightarrow> 0 < n \<Longrightarrow> n \<le> raw_largest_free_region R r \<Longrightarrow> fst (raw_allocate R r n) \<noteq> None"
  using assms unfolding raw_laws_def by (elim conjE; simp; fail)+

lemma new_scaled_inv:
  assumes "raw_laws R rep" and "new_with_unit_size_and_max_allocs R tot unit limit = Inr s"
  shows "scaled_inv R rep s {} \<and> unit_size s = unit \<and> total_units s = tot div unit"
  using assms(2) raw_lawsD(1)[OF assms(1)]
  by (auto simp: new_with_unit_size_and_max_allocs_def u32_try_from_def scaled_inv_def
      split: if_splits)

lemma scaled_free_inv:
  assumes "raw_laws R rep" and "scaled_inv R rep s A" and "a \<in> A"
  shows "scaled_inv R rep (scaled_free R s a) (A - {a})"
proof -
  have rep: "rep (inner s) (total_units s) (units_of s ` A)" and inj: "inj_on raw_handle A"
    using assms(2) by (auto simp: scaled_inv_def)
  have "inj_on (units_of s) A" using inj by (auto simp: inj_on_def units_of_def)
  then have img: "units_of s ` (A - {a}) = units_of s ` A - {units_of s a}"
    using assms(3) by (simp add: inj_on_image_set_diff[of "units_of s" A A "{a}"])
  have "rep (raw_free R (inner s) (raw_handle a)) (total_units s) (units_of s ` A - {units_of s a})"
    using raw_lawsD(4)[OF assms(1) rep, of "raw_handle a" "size_bytes a div unit_size s"] assms(3)
    by (simp add: units_of_def)
  moreover have "units_of (scaled_free R s a) ` (A - {a}) = units_of s ` A - {units_of s a}"
    unfolding img[symmetric] by (simp add: units_of_def scaled_free_def)
  ultimately show ?thesis using assms(2) inj_on_subset[OF inj, of "A - {a}"]
    unfolding scaled_inv_def by (auto simp: scaled_free_def)
qed

text \<open>What one call of \<open>allocate\<close> can do to the set of live allocations.\<close>

definition alloc_step ::
  "('r, 'h) raw_ops \<Rightarrow> ('r \<Rightarrow> nat \<Rightarrow> ('h \<times> nat) set \<Rightarrow> bool) \<Rightarrow> 'r scaled_allocator \<Rightarrow> 'h allocation set \<Rightarrow>
   nat \<Rightarrow> allocator_error + 'h allocation option \<Rightarrow> 'r scaled_allocator \<Rightarrow> bool" where
  "alloc_step R rep s A sz res s' \<longleftrightarrow>
     unit_size s' = unit_size s \<and> total_units s' = total_units s \<and>
     (case res of
        Inr (Some a) \<Rightarrow> scaled_inv R rep s' (insert a A) \<and> a \<notin> A \<and> sz \<le> size_bytes a
      | _ \<Rightarrow> s' = s)"

lemma scaled_allocate_step:
  assumes laws: "raw_laws R rep" and inv: "scaled_inv R rep s A" and sz: "0 < sz"
  shows "\<exists>res s'. scaled_allocate R s sz = Inr (res, s') \<and> alloc_step R rep s A sz res s'"
proof (cases "Option.bind (u32_try_from (div_ceil sz (unit_size s))) size_class_units")
  case None
  then show ?thesis using sz by (simp add: scaled_allocate_def alloc_step_def)
next
  case (Some c)
  have unit: "0 < unit_size s" and rep: "rep (inner s) (total_units s) (units_of s ` A)"
    using inv by (auto simp: scaled_inv_def)
  have c: "div_ceil sz (unit_size s) \<le> c"
    using Some class_round_ge by (auto simp: bind_eq_Some_conv size_class_units_alt u32_try_from_def split: if_splits)
  then have c0: "0 < c" using div_ceil_pos[OF unit sz] by simp
  obtain h r where raw: "raw_allocate R (inner s) c = (h, r)" by (cases "raw_allocate R (inner s) c")
  show ?thesis
  proof (cases h)
    case None
    then have "r = inner s" using raw_lawsD(3)[OF laws rep c0] raw by simp
    then show ?thesis using None sz Some raw by (simp add: scaled_allocate_def alloc_step_def)
  next
    case (Some x)
    let ?n = "raw_allocation_size R r x" and ?s = "s\<lparr>inner := r\<rparr>"
    let ?a = "\<lparr>offset_bytes = raw_offset R x * unit_size s, size_bytes = ?n * unit_size s, raw_handle = x\<rparr>"
    have new: "rep r (total_units s) (insert (x, ?n) (units_of s ` A))" "c \<le> ?n" "x \<notin> fst ` units_of s ` A"
      using raw_lawsD(2)[OF laws rep c0, of x r] raw Some by simp_all
    have n0: "0 < ?n" using new(2) c0 by simp
    have res: "scaled_allocate R s sz = Inr (Inr (Some ?a), ?s)"
      using sz raw n0 unit \<open>Option.bind _ _ = Some c\<close> Some by (simp add: scaled_allocate_def)
    have fresh: "raw_handle a \<noteq> x" if "a \<in> A" for a using new(3) that by (force simp: units_of_def)
    have img: "units_of ?s ` insert ?a A = insert (x, ?n) (units_of s ` A)"
      using unit by (auto simp: units_of_def)
    have "sz \<le> c * unit_size s"
      by (rule order_trans[OF div_ceil_ge[OF unit] mult_le_mono1[OF c]])
    then have "sz \<le> ?n * unit_size s" by (rule order_trans[OF _ mult_le_mono1[OF new(2)]])
    moreover have "scaled_inv R rep ?s (insert ?a A)"
      using inv new(1) fresh unfolding scaled_inv_def img by (auto simp: inj_on_def)
    moreover have "?a \<notin> A" using fresh[of ?a] by auto
    ultimately have "alloc_step R rep s A sz (Inr (Some ?a)) ?s" by (simp add: alloc_step_def)
    then show ?thesis using res by blast
  qed
qed

lemma scaled_allocate_succeeds:
  assumes laws: "raw_laws R rep" and inv: "scaled_inv R rep s A" and sz: "0 < sz"
    and le: "sz \<le> largest_free_allocation_bytes (scaled_storage_report R s)"
  shows "\<exists>a s'. scaled_allocate R s sz = Inr (Inr (Some a), s')"
proof -
  let ?L = "raw_largest_free_region R (inner s)" and ?u = "div_ceil sz (unit_size s)"
  have unit: "0 < unit_size s" and rep: "rep (inner s) (total_units s) (units_of s ` A)" and t: "total_units s < 2 ^ 32"
    using inv by (auto simp: scaled_inv_def)
  have u: "?u \<le> ?L" using le by (intro div_ceil_least[OF unit]) (simp add: scaled_storage_report_def)
  have L: "?L < 2 ^ 32" using raw_lawsD(6,7)[OF laws rep] t by linarith
  have c: "class_round ?u \<le> ?L" by (rule class_round_least[OF raw_lawsD(8)[OF laws rep] u])
  then have cls: "Option.bind (u32_try_from ?u) size_class_units = Some (class_round ?u)"
    using u L by (simp add: size_class_units_alt u32_try_from_def)
  have "0 < class_round ?u" using div_ceil_pos[OF unit sz] class_round_ge[of ?u] by simp
  then obtain x r where raw: "raw_allocate R (inner s) (class_round ?u) = (Some x, r)"
    using raw_lawsD(9)[OF laws rep _ c] by (cases "raw_allocate R (inner s) (class_round ?u)") auto
  obtain res s' where step: "scaled_allocate R s sz = Inr (res, s')"
    using scaled_allocate_step[OF laws inv sz] by blast
  then show ?thesis using sz cls raw by (auto simp: scaled_allocate_def Let_def split: if_splits)
qed

lemma scaled_regions:
  assumes laws: "raw_laws R rep" and inv: "scaled_inv R rep s A" and a: "a \<in> A"
  shows "0 < size_bytes a" "offset_bytes a + size_bytes a \<le> scaled_total_bytes s"
    and "b \<in> A \<Longrightarrow> a \<noteq> b \<Longrightarrow> spans_apart (offset_bytes a, size_bytes a) (offset_bytes b, size_bytes b)"
proof -
  have unit: "0 < unit_size s" and rep: "rep (inner s) (total_units s) (units_of s ` A)" and inj: "inj_on raw_handle A"
    and off: "\<And>a. a \<in> A \<Longrightarrow> offset_bytes a = raw_offset R (raw_handle a) * unit_size s"
    and sz: "\<And>a. a \<in> A \<Longrightarrow> size_bytes a = (size_bytes a div unit_size s) * unit_size s"
    using inv by (auto simp: scaled_inv_def)
  have apart: "regions_apart R (total_units s) (units_of s ` A)" by (rule raw_lawsD(5)[OF laws rep])
  then have one: "0 < size_bytes a div unit_size s"
      "raw_offset R (raw_handle a) + size_bytes a div unit_size s \<le> total_units s"
    using a by (auto simp: regions_apart_def units_of_def)
  then show "0 < size_bytes a" by (cases "size_bytes a = 0") auto
  have "offset_bytes a + size_bytes a =
      (raw_offset R (raw_handle a) + size_bytes a div unit_size s) * unit_size s"
    using off[OF a] sz[OF a] by (simp add: add_mult_distrib)
  then show "offset_bytes a + size_bytes a \<le> scaled_total_bytes s"
    using mult_le_mono1[OF one(2)] by (metis mult.commute scaled_total_bytes_def)
  assume b: "b \<in> A" "a \<noteq> b"
  then have "raw_handle a \<noteq> raw_handle b" using inj a by (auto simp: inj_on_def)
  then have "spans_apart (raw_offset R (raw_handle a), size_bytes a div unit_size s)
      (raw_offset R (raw_handle b), size_bytes b div unit_size s)"
    using apart a b(1) by (force simp: regions_apart_def units_of_def)
  then show "spans_apart (offset_bytes a, size_bytes a) (offset_bytes b, size_bytes b)"
    using off[OF a] sz[OF a] off[OF b(1)] sz[OF b(1)] mult_le_mono1[of _ _ "unit_size s"]
    unfolding spans_apart_def by (metis add_mult_distrib fst_conv snd_conv)
qed

lemma scaled_usage:
  assumes laws: "raw_laws R rep" and inv: "scaled_inv R rep s A"
  shows "total_free_bytes (scaled_storage_report R s) + (\<Sum>a \<in> A. size_bytes a) \<le> scaled_total_bytes s"
proof -
  have rep: "rep (inner s) (total_units s) (units_of s ` A)" and inj: "inj_on raw_handle A"
    and dvd: "\<And>a. a \<in> A \<Longrightarrow> unit_size s dvd size_bytes a"
    using inv by (auto simp: scaled_inv_def)
  have "inj_on (units_of s) A" using inj by (auto simp: inj_on_def units_of_def)
  then have sum: "(\<Sum>(h, n) \<in> units_of s ` A. n) = (\<Sum>a \<in> A. size_bytes a div unit_size s)"
    by (subst sum.reindex) (auto simp: units_of_def)
  have "(\<Sum>a \<in> A. size_bytes a) = (\<Sum>a \<in> A. size_bytes a div unit_size s) * unit_size s"
    unfolding sum_distrib_right using dvd by (intro sum.cong) auto
  then have "total_free_bytes (scaled_storage_report R s) + (\<Sum>a \<in> A. size_bytes a) =
      (raw_total_free_space R (inner s) + (\<Sum>a \<in> A. size_bytes a div unit_size s)) * unit_size s"
    by (simp add: scaled_storage_report_def add_mult_distrib)
  also have "\<dots> \<le> total_units s * unit_size s"
    by (rule mult_le_mono1[OF raw_lawsD(6)[OF laws rep, unfolded sum]])
  finally show ?thesis by (simp add: scaled_total_bytes_def mult.commute)
qed

end
