(* ===== verification/Pinned_Pool.thy ===== *)
theory Pinned_Pool
  imports Scaled_Alloc
begin

text \<open>
  Pinned memory pools (\<open>pegaflow-core/src/pinned_pool.rs\<close>): one pool per shard over one
  pinned region, shards behind a round-robin cursor, and one sharded pool per NUMA node or
  one for all. The regions come from the operating system and CUDA: the argument \<open>mem\<close> gives
  the region of the shard \<open>i\<close> of a node, and \<open>pin\<close> tells whether a thread could be pinned to
  a node. A guard returned to a caller names the pool it is freed to by \<open>pool_id\<close>.
\<close>

section \<open>One pool\<close>

record backing_memory =
  mem_ptr :: nat
  mem_device_ptr :: nat
  mem_size :: nat

datatype memory_kind = HugePages | RegularPages | CudaHostAlloc

type_synonym memory_source = "memory_kind \<Rightarrow> nat \<Rightarrow> numa_node \<Rightarrow> nat \<Rightarrow> backing_memory option"

datatype pool_panic =
    PoolSizeZero
  | UnitSizeOverflow
  | BackingFailed
  | AllocatorCreation allocator_error
  | AllocPanic alloc_panic
  | OutsideBacking
  | NullPoolPointer
  | RemainderByZeroShards
  | NumaPoolFailed numa_node

record 'r pinned_memory_pool =
  pool_backing :: backing_memory
  pool_allocator :: "'r scaled_allocator"
  allocatable_bytes :: nat
  pool_id :: "numa_node \<times> nat" \<comment> \<open>identity of the \<open>Arc\<close>\<close>

record 'h pool_allocation =
  pa_allocation :: "'h allocation"
  pa_ptr :: nat
  pa_device_ptr :: nat
  pa_pool :: "numa_node \<times> nat"

definition max_allocs :: nat where "max_allocs = 4000000"
definition unit_alignment :: nat where "unit_alignment = 512"

definition compute_unit_size :: "nat \<Rightarrow> nat option \<Rightarrow> pool_panic + nat" where
  "compute_unit_size pool_size hint =
     (let max_units = 2 ^ 32 - 1;
          min_unit_for_capacity = div_ceil pool_size max_units;
          base = (case hint of Some h \<Rightarrow> h | None \<Rightarrow> unit_alignment);
          unit = max base min_unit_for_capacity;
          aligned = div_ceil unit unit_alignment * unit_alignment
      in if aligned < 2 ^ 64 then Inr aligned else Inl UnitSizeOverflow)"

definition pool_over ::
  "('r, 'h) raw_ops \<Rightarrow> nat option \<Rightarrow> numa_node \<times> nat \<Rightarrow> backing_memory \<Rightarrow> pool_panic + 'r pinned_memory_pool" where
  "pool_over R hint pid b =
     bind_res (compute_unit_size (mem_size b) hint) (\<lambda>unit.
       case new_with_unit_size_and_max_allocs R (mem_size b) unit max_allocs of
         Inl e \<Rightarrow> Inl (AllocatorCreation e)
       | Inr s \<Rightarrow> Inr \<lparr>pool_backing = b, pool_allocator = s,
                      allocatable_bytes = mem_size b div unit * unit, pool_id = pid\<rparr>)"

definition pool_new ::
  "('r, 'h) raw_ops \<Rightarrow> memory_source \<Rightarrow> bool \<Rightarrow> bool \<Rightarrow> nat option \<Rightarrow> numa_node \<Rightarrow> nat \<Rightarrow> nat \<Rightarrow>
   pool_panic + 'r pinned_memory_pool" where
  "pool_new R mem use_hugepages ssd_enabled hint node pool_size i =
     (if pool_size = 0 then Inl PoolSizeZero
      else let kind = (if use_hugepages then HugePages else if ssd_enabled then RegularPages else CudaHostAlloc)
           in bind_res (ok_or (mem kind pool_size node i) BackingFailed) (pool_over R hint (node, i)))"

definition allocate_locked ::
  "('r, 'h) raw_ops \<Rightarrow> 'r scaled_allocator \<Rightarrow> nat \<Rightarrow> pool_panic + ('h allocation option \<times> 'r scaled_allocator)" where
  "allocate_locked R s sz =
     (case scaled_allocate R s sz of
        Inl e \<Rightarrow> Inl (AllocPanic e)
      | Inr (Inr a, s') \<Rightarrow> Inr (a, s')
      | Inr (Inl _, s') \<Rightarrow> Inr (None, s'))"

definition pool_wrap :: "'r pinned_memory_pool \<Rightarrow> 'h allocation \<Rightarrow> pool_panic + 'h pool_allocation" where
  "pool_wrap p a =
     (let b = pool_backing p; end_off = offset_bytes a + size_bytes a in
      if \<not> (end_off < 2 ^ 64 \<and> end_off \<le> mem_size b) then Inl OutsideBacking
      else let ptr = mem_ptr b + offset_bytes a; dev = mem_device_ptr b + offset_bytes a in
        if ptr = 0 \<or> dev = 0 then Inl NullPoolPointer
        else Inr \<lparr>pa_allocation = a, pa_ptr = ptr, pa_device_ptr = dev, pa_pool = pool_id p\<rparr>)"

definition pool_allocate ::
  "('r, 'h) raw_ops \<Rightarrow> 'r pinned_memory_pool \<Rightarrow> nat \<Rightarrow>
   pool_panic + ('h pool_allocation option \<times> 'r pinned_memory_pool)" where
  "pool_allocate R p sz =
     bind_res (allocate_locked R (pool_allocator p) sz) (\<lambda>(oa, s).
       let p' = p\<lparr>pool_allocator := s\<rparr> in
       case oa of None \<Rightarrow> Inr (None, p')
       | Some a \<Rightarrow> bind_res (pool_wrap p' a) (\<lambda>g. Inr (Some g, p')))"

fun take_allocations ::
  "('r, 'h) raw_ops \<Rightarrow> nat \<Rightarrow> nat \<Rightarrow> 'r scaled_allocator \<Rightarrow> pool_panic + ('h allocation list \<times> 'r scaled_allocator)" where
  "take_allocations R sz 0 s = Inr ([], s)"
| "take_allocations R sz (Suc n) s =
     bind_res (allocate_locked R s sz) (\<lambda>(oa, s').
       case oa of None \<Rightarrow> Inr ([], s')
       | Some a \<Rightarrow> bind_res (take_allocations R sz n s') (\<lambda>(as, s''). Inr (a # as, s'')))"

fun wrap_all :: "'r pinned_memory_pool \<Rightarrow> 'h allocation list \<Rightarrow> pool_panic + 'h pool_allocation list" where
  "wrap_all p [] = Inr []"
| "wrap_all p (a # as) = bind_res (pool_wrap p a) (\<lambda>g. bind_res (wrap_all p as) (\<lambda>gs. Inr (g # gs)))"

definition pool_allocate_many ::
  "('r, 'h) raw_ops \<Rightarrow> 'r pinned_memory_pool \<Rightarrow> nat \<Rightarrow> nat \<Rightarrow>
   pool_panic + ('h pool_allocation list \<times> 'r pinned_memory_pool)" where
  "pool_allocate_many R p sz count =
     bind_res (take_allocations R sz count (pool_allocator p)) (\<lambda>(as, s).
       let p' = p\<lparr>pool_allocator := s\<rparr> in
       bind_res (wrap_all p' as) (\<lambda>gs. Inr (gs, p')))"

definition free_internal ::
  "('r, 'h) raw_ops \<Rightarrow> 'r pinned_memory_pool \<Rightarrow> 'h allocation \<Rightarrow> 'r pinned_memory_pool" where
  "free_internal R p a = p\<lparr>pool_allocator := scaled_free R (pool_allocator p) a\<rparr>"

definition pool_usage :: "('r, 'h) raw_ops \<Rightarrow> 'r pinned_memory_pool \<Rightarrow> nat \<times> nat" where
  "pool_usage R p =
     (let tot = scaled_total_bytes (pool_allocator p)
      in (tot - total_free_bytes (scaled_storage_report R (pool_allocator p)), tot))"

definition pool_largest_free :: "('r, 'h) raw_ops \<Rightarrow> 'r pinned_memory_pool \<Rightarrow> nat" where
  "pool_largest_free R p = largest_free_allocation_bytes (scaled_storage_report R (pool_allocator p))"

definition pool_memory_region :: "'r pinned_memory_pool \<Rightarrow> nat \<times> nat" where
  "pool_memory_region p = (mem_ptr (pool_backing p), mem_size (pool_backing p))"

section \<open>Shards\<close>

record 'r sharded_pool =
  pool_shards :: "'r pinned_memory_pool list"
  pool_cursor :: nat

definition allocate_many_batch_bytes :: nat where
  "allocate_many_batch_bytes = 256 * 1024 * 1024"

fun new_shards ::
  "(nat \<Rightarrow> pool_panic + 'r pinned_memory_pool) \<Rightarrow> nat list \<Rightarrow> pool_panic + 'r pinned_memory_pool list" where
  "new_shards mk [] = Inr []"
| "new_shards mk (i # is) = bind_res (mk i) (\<lambda>p. bind_res (new_shards mk is) (\<lambda>ps. Inr (p # ps)))"

definition sharded_new ::
  "('r, 'h) raw_ops \<Rightarrow> memory_source \<Rightarrow> nat \<Rightarrow> nat \<Rightarrow> bool \<Rightarrow> bool \<Rightarrow> nat option \<Rightarrow> numa_node \<Rightarrow>
   pool_panic + 'r sharded_pool" where
  "sharded_new R mem total_capacity num_shards use_hugepages ssd_enabled hint node =
     (let n = max num_shards 1; per_shard = total_capacity div n in
      bind_res (new_shards (pool_new R mem use_hugepages ssd_enabled hint node per_shard) [0..<n]) (\<lambda>ps.
        Inr \<lparr>pool_shards = ps, pool_cursor = 0\<rparr>))"

text \<open>The shards in the order one sweep visits them, and the cursor's \<open>fetch_add\<close>.\<close>

definition sweep_order :: "'r sharded_pool \<Rightarrow> nat list" where
  "sweep_order s = (let n = length (pool_shards s); start = pool_cursor s mod n
                    in map (\<lambda>i. (start + i) mod n) [0..<n])"

definition advance_cursor :: "'r sharded_pool \<Rightarrow> 'r sharded_pool" where
  "advance_cursor s = s\<lparr>pool_cursor := (pool_cursor s + 1) mod 2 ^ 64\<rparr>"

fun try_shards ::
  "('r, 'h) raw_ops \<Rightarrow> nat \<Rightarrow> nat list \<Rightarrow> 'r sharded_pool \<Rightarrow>
   pool_panic + ('h pool_allocation option \<times> 'r sharded_pool)" where
  "try_shards R sz [] s = Inr (None, s)"
| "try_shards R sz (i # is) s =
     bind_res (pool_allocate R (pool_shards s ! i) sz) (\<lambda>(g, p).
       let s' = s\<lparr>pool_shards := (pool_shards s)[i := p]\<rparr> in
       if g = None then try_shards R sz is s' else Inr (g, s'))"

definition sharded_allocate ::
  "('r, 'h) raw_ops \<Rightarrow> 'r sharded_pool \<Rightarrow> nat \<Rightarrow> pool_panic + ('h pool_allocation option \<times> 'r sharded_pool)" where
  "sharded_allocate R s sz =
     (if pool_shards s = [] then Inl RemainderByZeroShards
      else try_shards R sz (sweep_order s) (advance_cursor s))"

fun sweep_shards ::
  "('r, 'h) raw_ops \<Rightarrow> nat \<Rightarrow> nat \<Rightarrow> nat list \<Rightarrow> 'r sharded_pool \<Rightarrow>
   pool_panic + ('h pool_allocation list \<times> 'r sharded_pool)" where
  "sweep_shards R sz missing [] s = Inr ([], s)"
| "sweep_shards R sz missing (i # is) s =
     (if missing = 0 then Inr ([], s)
      else bind_res (pool_allocate_many R (pool_shards s ! i) sz missing) (\<lambda>(gs, p).
        let s' = s\<lparr>pool_shards := (pool_shards s)[i := p]\<rparr> in
        bind_res (sweep_shards R sz (missing - length gs) is s') (\<lambda>(gs', s''). Inr (gs @ gs', s''))))"

function batch_loop ::
  "('r, 'h) raw_ops \<Rightarrow> nat \<Rightarrow> nat \<Rightarrow> nat \<Rightarrow> 'h pool_allocation list \<Rightarrow> 'r sharded_pool \<Rightarrow>
   pool_panic + ('h pool_allocation list \<times> 'r sharded_pool)" where
  "batch_loop R sz count per_batch out s =
     (if length out < count then
        let want = min (max per_batch 1) (count - length out) in
        if pool_shards s = [] then Inl RemainderByZeroShards
        else case sweep_shards R sz want (sweep_order s) (advance_cursor s) of
               Inl e \<Rightarrow> Inl e
             | Inr (gs, s') \<Rightarrow>
                 if length gs < want then Inr (out @ gs, s')
                 else batch_loop R sz count per_batch (out @ gs) s'
      else Inr (out, s))"
  by pat_completeness auto
termination
  by (relation "measure (\<lambda>(R, sz, count, per_batch, out, s). count - length out)") (auto simp: not_less)

declare batch_loop.simps [simp del]

definition allocate_many_batched ::
  "('r, 'h) raw_ops \<Rightarrow> 'r sharded_pool \<Rightarrow> nat \<Rightarrow> nat \<Rightarrow> nat \<Rightarrow>
   pool_panic + ('h pool_allocation list \<times> 'r sharded_pool)" where
  "allocate_many_batched R s sz count batch_bytes =
     batch_loop R sz count (max (min (batch_bytes div sz) (2 ^ 64 - 1)) 1) [] s"

definition sharded_allocate_many ::
  "('r, 'h) raw_ops \<Rightarrow> 'r sharded_pool \<Rightarrow> nat \<Rightarrow> nat \<Rightarrow>
   pool_panic + ('h pool_allocation list \<times> 'r sharded_pool)" where
  "sharded_allocate_many R s sz count = allocate_many_batched R s sz count allocate_many_batch_bytes"

definition sharded_usage :: "('r, 'h) raw_ops \<Rightarrow> 'r sharded_pool \<Rightarrow> nat \<times> nat" where
  "sharded_usage R s = fold (\<lambda>p (u, t). let (u', t') = pool_usage R p in (u + u', t + t')) (pool_shards s) (0, 0)"

definition sharded_largest_free :: "('r, 'h) raw_ops \<Rightarrow> 'r sharded_pool \<Rightarrow> nat" where
  "sharded_largest_free R s = fold (\<lambda>p m. max m (pool_largest_free R p)) (pool_shards s) 0"

definition sharded_memory_regions :: "'r sharded_pool \<Rightarrow> (nat \<times> nat) list" where
  "sharded_memory_regions s = map pool_memory_region (pool_shards s)"

section \<open>NUMA nodes\<close>

type_synonym 'r numa_pools = "(numa_node \<times> 'r sharded_pool) list"

datatype 'r pinned_allocator =
    GlobalPool "'r sharded_pool"
  | NumaPools "'r numa_pools"

fun numa_new_loop ::
  "(numa_node \<Rightarrow> bool) \<Rightarrow> (numa_node \<Rightarrow> pool_panic + 'r sharded_pool) \<Rightarrow> numa_node list \<Rightarrow> 'r numa_pools \<Rightarrow>
   pool_panic + 'r numa_pools" where
  "numa_new_loop pin mk [] pools = Inr pools"
| "numa_new_loop pin mk (node # nodes) pools =
     (if is_unknown node then numa_new_loop pin mk nodes pools
      else if \<not> pin node then Inl (NumaPoolFailed node)
      else bind_res (mk node) (\<lambda>s. numa_new_loop pin mk nodes (AList.update node s pools)))"

definition numa_pools_new ::
  "('r, 'h) raw_ops \<Rightarrow> memory_source \<Rightarrow> (numa_node \<Rightarrow> bool) \<Rightarrow> nat \<Rightarrow> numa_node list \<Rightarrow> nat \<Rightarrow> bool \<Rightarrow> bool \<Rightarrow>
   nat option \<Rightarrow> pool_panic + 'r numa_pools" where
  "numa_pools_new R mem pin total_capacity nodes num_shards use_hugepages ssd_enabled hint =
     (if nodes = [] then Inr []
      else let per_node = total_capacity div length nodes in
        numa_new_loop pin (sharded_new R mem per_node num_shards use_hugepages ssd_enabled hint) nodes [])"

definition new_global ::
  "('r, 'h) raw_ops \<Rightarrow> memory_source \<Rightarrow> nat \<Rightarrow> nat \<Rightarrow> bool \<Rightarrow> bool \<Rightarrow> nat option \<Rightarrow> pool_panic + 'r pinned_allocator" where
  "new_global R mem cap num_shards use_hugepages ssd_enabled hint =
     bind_res (sharded_new R mem cap num_shards use_hugepages ssd_enabled hint numa_unknown) (\<lambda>s. Inr (GlobalPool s))"

definition new_numa ::
  "('r, 'h) raw_ops \<Rightarrow> memory_source \<Rightarrow> (numa_node \<Rightarrow> bool) \<Rightarrow> nat \<Rightarrow> numa_node list \<Rightarrow> nat \<Rightarrow> bool \<Rightarrow> bool \<Rightarrow>
   nat option \<Rightarrow> pool_panic + 'r pinned_allocator" where
  "new_numa R mem pin cap nodes num_shards use_hugepages ssd_enabled hint =
     (if nodes = [] then new_global R mem cap num_shards use_hugepages ssd_enabled hint
      else bind_res (numa_pools_new R mem pin cap nodes num_shards use_hugepages ssd_enabled hint) (\<lambda>ps.
        Inr (NumaPools ps)))"

definition numa_allocate ::
  "('r, 'h) raw_ops \<Rightarrow> 'r numa_pools \<Rightarrow> numa_node \<Rightarrow> nat \<Rightarrow> pool_panic + ('h pool_allocation option \<times> 'r numa_pools)" where
  "numa_allocate R ps node sz =
     (if is_unknown node then Inr (None, ps)
      else case map_of ps node of
             None \<Rightarrow> Inr (None, ps)
           | Some s \<Rightarrow> bind_res (sharded_allocate R s sz) (\<lambda>(g, s'). Inr (g, AList.update node s' ps)))"

definition numa_allocate_many ::
  "('r, 'h) raw_ops \<Rightarrow> 'r numa_pools \<Rightarrow> numa_node \<Rightarrow> nat \<Rightarrow> nat \<Rightarrow> pool_panic + ('h pool_allocation list \<times> 'r numa_pools)" where
  "numa_allocate_many R ps node sz count =
     (if is_unknown node then Inr ([], ps)
      else case map_of ps node of
             None \<Rightarrow> Inr ([], ps)
           | Some s \<Rightarrow> bind_res (sharded_allocate_many R s sz count) (\<lambda>(gs, s'). Inr (gs, AList.update node s' ps)))"

definition numa_largest_free :: "('r, 'h) raw_ops \<Rightarrow> 'r numa_pools \<Rightarrow> numa_node \<Rightarrow> nat" where
  "numa_largest_free R ps node =
     (if is_unknown node then 0
      else case map_of ps node of None \<Rightarrow> 0 | Some s \<Rightarrow> sharded_largest_free R s)"

definition numa_total_usage :: "('r, 'h) raw_ops \<Rightarrow> 'r numa_pools \<Rightarrow> nat \<times> nat" where
  "numa_total_usage R ps =
     fold (\<lambda>(_, s) (u, t). let (u', t') = sharded_usage R s in (u + u', t + t')) ps (0, 0)"

definition numa_memory_regions :: "'r numa_pools \<Rightarrow> (nat \<times> nat) list" where
  "numa_memory_regions ps = concat (map (\<lambda>(_, s). sharded_memory_regions s) ps)"

section \<open>The allocator\<close>

definition allocator_allocate ::
  "('r, 'h) raw_ops \<Rightarrow> 'r pinned_allocator \<Rightarrow> nat \<Rightarrow> numa_node \<Rightarrow>
   pool_panic + ('h pool_allocation option \<times> 'r pinned_allocator)" where
  "allocator_allocate R al sz node =
     (case al of
        GlobalPool s \<Rightarrow> bind_res (sharded_allocate R s sz) (\<lambda>(g, s'). Inr (g, GlobalPool s'))
      | NumaPools ps \<Rightarrow> bind_res (numa_allocate R ps node sz) (\<lambda>(g, ps'). Inr (g, NumaPools ps')))"

definition allocator_allocate_many ::
  "('r, 'h) raw_ops \<Rightarrow> 'r pinned_allocator \<Rightarrow> nat \<Rightarrow> nat \<Rightarrow> numa_node \<Rightarrow>
   pool_panic + ('h pool_allocation list \<times> 'r pinned_allocator)" where
  "allocator_allocate_many R al sz count node =
     (case al of
        GlobalPool s \<Rightarrow> bind_res (sharded_allocate_many R s sz count) (\<lambda>(gs, s'). Inr (gs, GlobalPool s'))
      | NumaPools ps \<Rightarrow> bind_res (numa_allocate_many R ps node sz count) (\<lambda>(gs, ps'). Inr (gs, NumaPools ps')))"

definition allocator_usage :: "('r, 'h) raw_ops \<Rightarrow> 'r pinned_allocator \<Rightarrow> nat \<times> nat" where
  "allocator_usage R al = (case al of GlobalPool s \<Rightarrow> sharded_usage R s | NumaPools ps \<Rightarrow> numa_total_usage R ps)"

definition allocator_largest_free :: "('r, 'h) raw_ops \<Rightarrow> 'r pinned_allocator \<Rightarrow> numa_node \<Rightarrow> nat" where
  "allocator_largest_free R al node =
     (case al of GlobalPool s \<Rightarrow> sharded_largest_free R s | NumaPools ps \<Rightarrow> numa_largest_free R ps node)"

definition is_numa :: "'r pinned_allocator \<Rightarrow> bool" where
  "is_numa al = (case al of GlobalPool _ \<Rightarrow> False | NumaPools _ \<Rightarrow> True)"

definition memory_regions :: "'r pinned_allocator \<Rightarrow> (nat \<times> nat) list" where
  "memory_regions al = (case al of GlobalPool s \<Rightarrow> sharded_memory_regions s | NumaPools ps \<Rightarrow> numa_memory_regions ps)"

text \<open>Dropping a guard frees it to the pool it came from.\<close>

definition sharded_drop :: "('r, 'h) raw_ops \<Rightarrow> 'r sharded_pool \<Rightarrow> 'h pool_allocation \<Rightarrow> 'r sharded_pool" where
  "sharded_drop R s g =
     (let i = snd (pa_pool g)
      in s\<lparr>pool_shards := (pool_shards s)[i := free_internal R (pool_shards s ! i) (pa_allocation g)]\<rparr>)"

definition drop_allocation :: "('r, 'h) raw_ops \<Rightarrow> 'r pinned_allocator \<Rightarrow> 'h pool_allocation \<Rightarrow> 'r pinned_allocator" where
  "drop_allocation R al g =
     (case al of
        GlobalPool s \<Rightarrow> GlobalPool (sharded_drop R s g)
      | NumaPools ps \<Rightarrow>
          (case map_of ps (fst (pa_pool g)) of
             None \<Rightarrow> NumaPools ps
           | Some s \<Rightarrow> NumaPools (AList.update (fst (pa_pool g)) (sharded_drop R s g) ps)))"

section \<open>Creation\<close>

lemma compute_unit_size_fits:
  assumes "compute_unit_size n hint = Inr unit" and "hint \<noteq> Some 0"
  shows "0 < unit" "unit_alignment dvd unit" "n div unit < 2 ^ 32"
proof -
  define need :: nat where "need = div_ceil n (2 ^ 32 - 1)"
  define u where "u = max (case hint of Some h \<Rightarrow> h | None \<Rightarrow> unit_alignment) need"
  have unit: "unit = div_ceil u unit_alignment * unit_alignment"
    using assms(1) by (auto simp: compute_unit_size_def u_def need_def Let_def split: if_splits)
  then show "unit_alignment dvd unit" by simp
  have ge: "u \<le> unit" unfolding unit by (rule div_ceil_ge) (simp add: unit_alignment_def)
  have "0 < u" using assms(2) by (cases hint) (auto simp: u_def unit_alignment_def)
  then show "0 < unit" using ge by simp
  have "n \<le> need * (2 ^ 32 - 1)" unfolding need_def by (rule div_ceil_ge) simp
  also have "\<dots> \<le> unit * (2 ^ 32 - 1)" using ge by (intro mult_le_mono1) (simp add: u_def)
  finally have "n \<le> unit * (2 ^ 32 - 1)" .
  also have "\<dots> < unit * 2 ^ 32" using \<open>0 < unit\<close> by simp
  finally have "n < 2 ^ 32 * unit" by (simp only: mult.commute)
  then show "n div unit < 2 ^ 32" by (rule less_mult_imp_div_less)
qed

text \<open>What the operating system promises of a pinned region.\<close>

definition region_ok :: "backing_memory \<Rightarrow> bool" where
  "region_ok b \<longleftrightarrow> 0 < mem_ptr b \<and> 0 < mem_device_ptr b \<and>
     mem_ptr b + mem_size b < 2 ^ 64 \<and> mem_device_ptr b + mem_size b < 2 ^ 64"

definition memory_laws :: "memory_source \<Rightarrow> bool" where
  "memory_laws mem \<longleftrightarrow> (\<forall>kind n node i b. mem kind n node i = Some b \<longrightarrow> region_ok b)"

section \<open>Invariants\<close>

definition pool_inv ::
  "('r, 'h) raw_ops \<Rightarrow> ('r \<Rightarrow> nat \<Rightarrow> ('h \<times> nat) set \<Rightarrow> bool) \<Rightarrow> 'r pinned_memory_pool \<Rightarrow> 'h allocation set \<Rightarrow> bool" where
  "pool_inv R rep p A \<longleftrightarrow> scaled_inv R rep (pool_allocator p) A \<and> region_ok (pool_backing p) \<and>
     scaled_total_bytes (pool_allocator p) \<le> mem_size (pool_backing p)"

definition guard_of :: "'r pinned_memory_pool \<Rightarrow> 'h allocation \<Rightarrow> 'h pool_allocation" where
  "guard_of p a = \<lparr>pa_allocation = a, pa_ptr = mem_ptr (pool_backing p) + offset_bytes a,
     pa_device_ptr = mem_device_ptr (pool_backing p) + offset_bytes a, pa_pool = pool_id p\<rparr>"

lemma guard_of_simps [simp]:
  "pa_allocation (guard_of p a) = a" "pa_pool (guard_of p a) = pool_id p"
  by (simp_all add: guard_of_def)

lemma guard_of_cong: "pool_backing p = pool_backing q \<Longrightarrow> pool_id p = pool_id q \<Longrightarrow> guard_of p = guard_of q"
  by (rule ext) (simp add: guard_of_def)

lemma pool_over_inv:
  assumes "raw_laws R rep" and "region_ok b" and "pool_over R hint pid b = Inr p"
  shows "pool_inv R rep p {} \<and> pool_id p = pid"
proof -
  obtain unit where unit: "compute_unit_size (mem_size b) hint = Inr unit"
    using assms(3) by (auto simp: pool_over_def res_simps)
  obtain s where s: "new_with_unit_size_and_max_allocs R (mem_size b) unit max_allocs = Inr s"
    using assms(3) unit
    by (cases "new_with_unit_size_and_max_allocs R (mem_size b) unit max_allocs") (auto simp: pool_over_def)
  have "scaled_total_bytes s \<le> mem_size b"
    using new_scaled_inv[OF assms(1) s] by (simp add: scaled_total_bytes_def)
  then show ?thesis using new_scaled_inv[OF assms(1) s] assms(2,3) unit s by (auto simp: pool_inv_def pool_over_def)
qed

lemma pool_new_inv:
  assumes "raw_laws R rep" and "memory_laws mem" and "pool_new R mem hp ssd hint node n i = Inr p"
  shows "pool_inv R rep p {} \<and> pool_id p = (node, i)"
proof -
  have "\<exists>kind b. mem kind n node i = Some b \<and> pool_over R hint (node, i) b = Inr p"
    using assms(3) unfolding pool_new_def Let_def by (auto simp: res_simps split: if_splits)
  then obtain b where "region_ok b" "pool_over R hint (node, i) b = Inr p"
    using assms(2) unfolding memory_laws_def by blast
  then show ?thesis using pool_over_inv[OF assms(1)] by blast
qed

lemma pool_over_no_creation_panic:
  assumes "hint \<noteq> Some 0"
  shows "pool_over R hint pid b \<noteq> Inl (AllocatorCreation e)"
proof
  assume a: "pool_over R hint pid b = Inl (AllocatorCreation e)"
  show False
  proof (cases "compute_unit_size (mem_size b) hint")
    case (Inl x)
    then show False using a by (auto simp: pool_over_def compute_unit_size_def Let_def split: if_splits)
  next
    case (Inr unit)
    then show False using a compute_unit_size_fits[OF Inr assms]
      by (simp add: pool_over_def new_with_unit_size_and_max_allocs_def u32_try_from_def)
  qed
qed

section \<open>One pool\<close>

lemma allocate_locked_step:
  assumes "raw_laws R rep" and "scaled_inv R rep s A" and "0 < sz"
  shows "\<exists>oa s'. allocate_locked R s sz = Inr (oa, s') \<and>
    unit_size s' = unit_size s \<and> total_units s' = total_units s \<and>
    (case oa of None \<Rightarrow> s' = s
     | Some a \<Rightarrow> scaled_inv R rep s' (insert a A) \<and> a \<notin> A \<and> sz \<le> size_bytes a)"
proof -
  obtain res s' where r: "scaled_allocate R s sz = Inr (res, s')" "alloc_step R rep s A sz res s'"
    using scaled_allocate_step[OF assms] by blast
  show ?thesis
  proof (cases res)
    case (Inl e)
    then show ?thesis using r by (simp add: allocate_locked_def alloc_step_def)
  next
    case (Inr oa)
    then show ?thesis using r by (cases oa) (simp_all add: allocate_locked_def alloc_step_def)
  qed
qed

definition exhausted :: "('r, 'h) raw_ops \<Rightarrow> nat \<Rightarrow> 'r scaled_allocator \<Rightarrow> bool" where
  "exhausted R sz s \<longleftrightarrow> allocate_locked R s sz = Inr (None, s)"

lemma take_allocations_step:
  assumes "raw_laws R rep" and "0 < sz" and "scaled_inv R rep s A"
  shows "\<exists>as s'. take_allocations R sz n s = Inr (as, s') \<and>
    unit_size s' = unit_size s \<and> total_units s' = total_units s \<and>
    scaled_inv R rep s' (A \<union> set as) \<and> distinct as \<and> set as \<inter> A = {} \<and>
    (\<forall>a \<in> set as. sz \<le> size_bytes a) \<and> length as \<le> n \<and> (length as < n \<longrightarrow> exhausted R sz s')"
  using assms(3)
proof (induction n arbitrary: s A)
  case 0
  then show ?case by simp
next
  case (Suc n)
  obtain oa s1 where a: "allocate_locked R s sz = Inr (oa, s1)"
      "unit_size s1 = unit_size s" "total_units s1 = total_units s"
      "case oa of None \<Rightarrow> s1 = s | Some a \<Rightarrow> scaled_inv R rep s1 (insert a A) \<and> a \<notin> A \<and> sz \<le> size_bytes a"
    using allocate_locked_step[OF assms(1) Suc.prems assms(2)] by blast
  show ?case
  proof (cases oa)
    case None
    then show ?thesis using a Suc.prems by (simp add: exhausted_def)
  next
    case (Some x)
    then have x: "scaled_inv R rep s1 (insert x A)" "x \<notin> A" "sz \<le> size_bytes x" using a(4) by simp_all
    obtain as s2 where r: "take_allocations R sz n s1 = Inr (as, s2)"
        "unit_size s2 = unit_size s1" "total_units s2 = total_units s1"
        "scaled_inv R rep s2 (insert x A \<union> set as)" "distinct as" "set as \<inter> insert x A = {}"
        "\<forall>a \<in> set as. sz \<le> size_bytes a" "length as \<le> n" "length as < n \<longrightarrow> exhausted R sz s2"
      using Suc.IH[OF x(1)] by blast
    have "take_allocations R sz (Suc n) s = Inr (x # as, s2)" using a(1) Some r(1) by simp
    then show ?thesis using r x a(2,3) by (intro exI[of _ "x # as"] exI[of _ s2]) auto
  qed
qed

lemma pool_wrap_ok:
  assumes "raw_laws R rep" and "pool_inv R rep p A" and "a \<in> A"
  shows "pool_wrap p a = Inr (guard_of p a)"
proof -
  have inv: "scaled_inv R rep (pool_allocator p) A" and b: "region_ok (pool_backing p)"
    and tot: "scaled_total_bytes (pool_allocator p) \<le> mem_size (pool_backing p)"
    using assms(2) by (auto simp: pool_inv_def)
  have "offset_bytes a + size_bytes a \<le> mem_size (pool_backing p)"
    using scaled_regions(2)[OF assms(1) inv assms(3)] tot by simp
  then show ?thesis using b by (simp add: pool_wrap_def guard_of_def region_ok_def Let_def)
qed

lemma wrap_all_ok:
  assumes "raw_laws R rep" and "pool_inv R rep p A" and "set as \<subseteq> A"
  shows "wrap_all p as = Inr (map (guard_of p) as)"
  using assms(3)
proof (induction as)
  case (Cons a as)
  then show ?case using pool_wrap_ok[OF assms(1,2), of a] by simp
qed simp

text \<open>
  What an allocating call does to one pool: it hands out guards of fresh allocations \<open>as\<close>
  and otherwise keeps the pool.
\<close>

definition pool_step ::
  "('r, 'h) raw_ops \<Rightarrow> ('r \<Rightarrow> nat \<Rightarrow> ('h \<times> nat) set \<Rightarrow> bool) \<Rightarrow> nat \<Rightarrow> 'r pinned_memory_pool \<Rightarrow> 'h allocation set \<Rightarrow>
   'h allocation list \<Rightarrow> 'r pinned_memory_pool \<Rightarrow> bool" where
  "pool_step R rep sz p A as p' \<longleftrightarrow> pool_backing p' = pool_backing p \<and> pool_id p' = pool_id p \<and>
     pool_inv R rep p' (A \<union> set as) \<and> distinct as \<and> set as \<inter> A = {} \<and> (\<forall>a \<in> set as. sz \<le> size_bytes a)"

lemma pool_inv_update:
  assumes "pool_inv R rep p A" and "scaled_inv R rep s B"
    and "unit_size s = unit_size (pool_allocator p)" and "total_units s = total_units (pool_allocator p)"
  shows "pool_inv R rep (p\<lparr>pool_allocator := s\<rparr>) B"
  using assms by (simp add: pool_inv_def scaled_total_bytes_def)

lemma pool_allocate_many_step:
  assumes "raw_laws R rep" and "0 < sz" and "pool_inv R rep p A"
  shows "\<exists>as p'. pool_allocate_many R p sz n = Inr (map (guard_of p) as, p') \<and> pool_step R rep sz p A as p' \<and>
    length as \<le> n \<and> (length as < n \<longrightarrow> exhausted R sz (pool_allocator p'))"
proof -
  obtain as s where r: "take_allocations R sz n (pool_allocator p) = Inr (as, s)"
      "unit_size s = unit_size (pool_allocator p)" "total_units s = total_units (pool_allocator p)"
      "scaled_inv R rep s (A \<union> set as)" "distinct as" "set as \<inter> A = {}"
      "\<forall>a \<in> set as. sz \<le> size_bytes a" "length as \<le> n" "length as < n \<longrightarrow> exhausted R sz s"
    using take_allocations_step[OF assms(1,2), of "pool_allocator p" A n] assms(3) unfolding pool_inv_def by blast
  let ?p = "p\<lparr>pool_allocator := s\<rparr>"
  have inv: "pool_inv R rep ?p (A \<union> set as)" by (rule pool_inv_update[OF assms(3) r(4,2,3)])
  have "map (guard_of ?p) as = map (guard_of p) as" by (simp add: guard_of_def)
  then have "pool_allocate_many R p sz n = Inr (map (guard_of p) as, ?p)"
    using r(1) wrap_all_ok[OF assms(1) inv, of as] by (simp add: pool_allocate_many_def Let_def)
  moreover have "pool_step R rep sz p A as ?p" using inv r by (simp add: pool_step_def)
  ultimately show ?thesis using r(8,9) by auto
qed

lemma pool_allocate_as_many:
  assumes "raw_laws R rep" and "0 < sz" and "pool_inv R rep p A"
  shows "pool_allocate R p sz =
    (case pool_allocate_many R p sz 1 of Inl e \<Rightarrow> Inl e | Inr (gs, p') \<Rightarrow> Inr (if gs = [] then None else Some (hd gs), p'))"
proof -
  obtain oa s where "allocate_locked R (pool_allocator p) sz = Inr (oa, s)"
    using allocate_locked_step[OF assms(1) _ assms(2), of "pool_allocator p" A] assms(3) unfolding pool_inv_def by blast
  then show ?thesis
    by (cases "\<exists>a g. oa = Some a \<and> pool_wrap (p\<lparr>pool_allocator := s\<rparr>) a = Inr g"; cases oa;
        cases "pool_wrap (p\<lparr>pool_allocator := s\<rparr>) (the oa)")
      (auto simp: pool_allocate_def pool_allocate_many_def Let_def)
qed

lemma pool_free_inv:
  assumes "raw_laws R rep" and "pool_inv R rep p A" and "a \<in> A"
  shows "pool_inv R rep (free_internal R p a) (A - {a})"
  using scaled_free_inv[OF assms(1) _ assms(3)] assms(2)
  by (simp add: pool_inv_def free_internal_def scaled_total_bytes_def scaled_free_def)

lemma pool_allocate_succeeds:
  assumes "raw_laws R rep" and "0 < sz" and "pool_inv R rep p A" and "sz \<le> pool_largest_free R p"
  shows "\<not> exhausted R sz (pool_allocator p)"
  using scaled_allocate_succeeds[OF assms(1) _ assms(2)] assms(3,4)
  by (fastforce simp: pool_inv_def pool_largest_free_def exhausted_def allocate_locked_def)

section \<open>Shards\<close>

definition live_in :: "numa_node \<times> nat \<Rightarrow> 'h pool_allocation set \<Rightarrow> 'h allocation set" where
  "live_in pid L = pa_allocation ` {g \<in> L. pa_pool g = pid}"

definition sharded_inv ::
  "('r, 'h) raw_ops \<Rightarrow> ('r \<Rightarrow> nat \<Rightarrow> ('h \<times> nat) set \<Rightarrow> bool) \<Rightarrow> numa_node \<Rightarrow> 'r sharded_pool \<Rightarrow>
   'h pool_allocation set \<Rightarrow> bool" where
  "sharded_inv R rep node s L \<longleftrightarrow> pool_shards s \<noteq> [] \<and>
     (\<forall>i < length (pool_shards s). pool_id (pool_shards s ! i) = (node, i) \<and>
        pool_inv R rep (pool_shards s ! i) (live_in (node, i) L)) \<and>
     (\<forall>g \<in> L. fst (pa_pool g) = node \<longrightarrow> snd (pa_pool g) < length (pool_shards s) \<and>
        g = guard_of (pool_shards s ! snd (pa_pool g)) (pa_allocation g))"

definition sharded_step ::
  "('r, 'h) raw_ops \<Rightarrow> ('r \<Rightarrow> nat \<Rightarrow> ('h \<times> nat) set \<Rightarrow> bool) \<Rightarrow> nat \<Rightarrow> numa_node \<Rightarrow> 'r sharded_pool \<Rightarrow>
   'h pool_allocation set \<Rightarrow> 'h pool_allocation list \<Rightarrow> 'r sharded_pool \<Rightarrow> bool" where
  "sharded_step R rep sz node s L gs s' \<longleftrightarrow> length (pool_shards s') = length (pool_shards s) \<and>
     sharded_inv R rep node s' (L \<union> set gs) \<and> distinct gs \<and> set gs \<inter> L = {} \<and>
     (\<forall>g \<in> set gs. fst (pa_pool g) = node \<and> sz \<le> size_bytes (pa_allocation g))"

lemma sharded_step_refl: "sharded_inv R rep node s L \<Longrightarrow> sharded_step R rep sz node s L [] s"
  by (simp add: sharded_step_def)

lemma sharded_step_trans:
  assumes "sharded_step R rep sz node s L gs s1" and "sharded_step R rep sz node s1 (L \<union> set gs) gs' s2"
  shows "sharded_step R rep sz node s L (gs @ gs') s2"
  using assms by (auto simp: sharded_step_def Un_assoc)

lemma sharded_inv_shard:
  assumes "sharded_inv R rep node s L" and "i < length (pool_shards s)"
  shows "pool_id (pool_shards s ! i) = (node, i)" "pool_inv R rep (pool_shards s ! i) (live_in (node, i) L)"
  using assms by (auto simp: sharded_inv_def)

lemma sharded_inv_cursor [simp]: "sharded_inv R rep node (advance_cursor s) L = sharded_inv R rep node s L"
  by (simp add: sharded_inv_def advance_cursor_def)

lemma advance_cursor_shards [simp]: "pool_shards (advance_cursor s) = pool_shards s"
  by (simp add: advance_cursor_def)

lemma shard_update_step:
  assumes inv: "sharded_inv R rep node s L" and i: "i < length (pool_shards s)"
    and step: "pool_step R rep sz (pool_shards s ! i) (live_in (node, i) L) as p'"
  shows "sharded_step R rep sz node s L (map (guard_of (pool_shards s ! i)) as)
    (s\<lparr>pool_shards := (pool_shards s)[i := p']\<rparr>)"
proof -
  let ?p = "pool_shards s ! i" and ?s = "s\<lparr>pool_shards := (pool_shards s)[i := p']\<rparr>"
  let ?gs = "map (guard_of ?p) as"
  have id: "pool_id ?p = (node, i)" by (rule sharded_inv_shard(1)[OF inv i])
  have p': "pool_backing p' = pool_backing ?p" "pool_id p' = (node, i)"
      "pool_inv R rep p' (live_in (node, i) L \<union> set as)" "distinct as" "set as \<inter> live_in (node, i) L = {}"
      "\<forall>a \<in> set as. sz \<le> size_bytes a"
    using step id by (auto simp: pool_step_def)
  have live: "live_in (node, j) (L \<union> set ?gs) = (if j = i then live_in (node, i) L \<union> set as else live_in (node, j) L)" for j
  proof -
    have "{g \<in> set ?gs. pa_pool g = (node, j)} = (if j = i then set ?gs else {})" using id by auto
    moreover have "pa_allocation ` set ?gs = set as" by (simp add: image_image)
    ultimately show ?thesis unfolding live_in_def by (simp add: Collect_disj_eq conj_disj_distribR image_Un)
  qed
  have guards: "g = guard_of (pool_shards ?s ! snd (pa_pool g)) (pa_allocation g) \<and> snd (pa_pool g) < length (pool_shards ?s)"
    if g: "g \<in> L \<union> set ?gs" "fst (pa_pool g) = node" for g
  proof (cases "g \<in> set ?gs")
    case True
    then obtain a where a: "g = guard_of ?p a" by auto
    then show ?thesis using id i p'(1,2) by (simp add: guard_of_def)
  next
    case False
    then have old: "snd (pa_pool g) < length (pool_shards s)" "g = guard_of (pool_shards s ! snd (pa_pool g)) (pa_allocation g)"
      using inv g by (auto simp: sharded_inv_def)
    show ?thesis
    proof (cases "snd (pa_pool g) = i")
      case True
      then show ?thesis using old p'(1,2) id i by (simp add: guard_of_def)
    qed (use old in simp)
  qed
  have fresh: "set ?gs \<inter> L = {}"
  proof -
    have False if "g \<in> set ?gs" "g \<in> L" for g
    proof -
      have "pa_allocation g \<in> set as" "pa_pool g = (node, i)" using that(1) id by auto
      then have "pa_allocation g \<in> set as \<inter> live_in (node, i) L" using that(2) by (auto simp: live_in_def)
      then show False using p'(5) by simp
    qed
    then show ?thesis by blast
  qed
  have "pool_shards s \<noteq> []" using i by auto
  moreover have "pool_id (pool_shards ?s ! j) = (node, j) \<and>
      pool_inv R rep (pool_shards ?s ! j) (live_in (node, j) (L \<union> set ?gs))" if "j < length (pool_shards s)" for j
    unfolding live using sharded_inv_shard[OF inv that] p'(2,3) i by (cases "j = i") simp_all
  ultimately have "sharded_inv R rep node ?s (L \<union> set ?gs)"
    unfolding sharded_inv_def using guards by simp
  moreover have "distinct ?gs" using p'(4) by (auto simp: distinct_map inj_on_def guard_of_def)
  ultimately show ?thesis using fresh p'(6) id unfolding sharded_step_def by auto
qed

lemma sweep_shards_step:
  assumes laws: "raw_laws R rep" and sz: "0 < sz"
  shows "sharded_inv R rep node s L \<Longrightarrow> distinct is \<Longrightarrow> (\<forall>i \<in> set is. i < length (pool_shards s)) \<Longrightarrow>
    \<exists>gs s'. sweep_shards R sz missing is s = Inr (gs, s') \<and> sharded_step R rep sz node s L gs s' \<and>
      length gs \<le> missing \<and> (\<forall>j. j \<notin> set is \<longrightarrow> pool_shards s' ! j = pool_shards s ! j) \<and>
      (length gs < missing \<longrightarrow> (\<forall>i \<in> set is. exhausted R sz (pool_allocator (pool_shards s' ! i))))"
proof (induction "is" arbitrary: s L missing)
  case Nil
  then show ?case by (simp add: sharded_step_refl)
next
  case (Cons i "is")
  show ?case
  proof (cases "missing = 0")
    case True
    then show ?thesis using Cons.prems by (simp add: sharded_step_refl)
  next
    case False
    let ?p = "pool_shards s ! i"
    have i: "i < length (pool_shards s)" "i \<notin> set is" using Cons.prems by simp_all
    obtain as p' where m: "pool_allocate_many R ?p sz missing = Inr (map (guard_of ?p) as, p')"
        "pool_step R rep sz ?p (live_in (node, i) L) as p'" "length as \<le> missing"
        "length as < missing \<longrightarrow> exhausted R sz (pool_allocator p')"
      using pool_allocate_many_step[OF laws sz sharded_inv_shard(2)[OF Cons.prems(1) i(1)]] by blast
    let ?s = "s\<lparr>pool_shards := (pool_shards s)[i := p']\<rparr>" and ?gs = "map (guard_of ?p) as"
    have st: "sharded_step R rep sz node s L ?gs ?s" by (rule shard_update_step[OF Cons.prems(1) i(1) m(2)])
    then have inv: "sharded_inv R rep node ?s (L \<union> set ?gs)" by (simp add: sharded_step_def)
    have "\<forall>j \<in> set is. j < length (pool_shards ?s)" "distinct is" using Cons.prems by simp_all
    from Cons.IH[OF inv this(2,1), of "missing - length as"] obtain gs' s2 where
      r: "sweep_shards R sz (missing - length as) is ?s = Inr (gs', s2)"
        "sharded_step R rep sz node ?s (L \<union> set ?gs) gs' s2" "length gs' \<le> missing - length as"
        "\<forall>j. j \<notin> set is \<longrightarrow> pool_shards s2 ! j = pool_shards ?s ! j"
        "length gs' < missing - length as \<longrightarrow> (\<forall>i \<in> set is. exhausted R sz (pool_allocator (pool_shards s2 ! i)))"
      by blast
    have "sweep_shards R sz missing (i # is) s = Inr (?gs @ gs', s2)" using False m(1) r(1) by (simp add: Let_def)
    moreover have "sharded_step R rep sz node s L (?gs @ gs') s2" by (rule sharded_step_trans[OF st r(2)])
    moreover have "pool_shards s2 ! i = p'" using r(4) i by simp
    ultimately show ?thesis using m(3,4) r(3-5)
      by (intro exI[of _ "?gs @ gs'"] exI[of _ s2]) auto
  qed
qed

lemma sweep_order_rotate:
  assumes "pool_shards s \<noteq> []"
  shows "sweep_order s = rotate (pool_cursor s mod length (pool_shards s)) [0..<length (pool_shards s)]"
  using assms unfolding sweep_order_def Let_def by (intro nth_equalityI) (auto simp: nth_rotate add.commute)

lemma sweep_order_set:
  assumes "pool_shards s \<noteq> []"
  shows "set (sweep_order s) = {..<length (pool_shards s)}" "distinct (sweep_order s)"
  unfolding sweep_order_rotate[OF assms] by (auto simp: atLeast0LessThan)

definition all_exhausted :: "('r, 'h) raw_ops \<Rightarrow> nat \<Rightarrow> 'r sharded_pool \<Rightarrow> bool" where
  "all_exhausted R sz s \<longleftrightarrow> (\<forall>p \<in> set (pool_shards s). exhausted R sz (pool_allocator p))"

lemma sweep_all_step:
  assumes laws: "raw_laws R rep" and sz: "0 < sz" and inv: "sharded_inv R rep node s L"
  shows "\<exists>gs s'. sweep_shards R sz missing (sweep_order s) (advance_cursor s) = Inr (gs, s') \<and>
    sharded_step R rep sz node s L gs s' \<and> length gs \<le> missing \<and> (length gs < missing \<longrightarrow> all_exhausted R sz s')"
proof -
  have ne: "pool_shards s \<noteq> []" using inv by (simp add: sharded_inv_def)
  note o = sweep_order_set[OF ne]
  have "\<forall>i \<in> set (sweep_order s). i < length (pool_shards (advance_cursor s))" using o(1) by simp
  from sweep_shards_step[OF laws sz _ o(2) this, of node L missing] inv obtain gs s' where
    r: "sweep_shards R sz missing (sweep_order s) (advance_cursor s) = Inr (gs, s')"
      "sharded_step R rep sz node (advance_cursor s) L gs s'" "length gs \<le> missing"
      "length gs < missing \<longrightarrow> (\<forall>i \<in> set (sweep_order s). exhausted R sz (pool_allocator (pool_shards s' ! i)))"
    by auto
  have len: "length (pool_shards s') = length (pool_shards s)" using r(2) by (simp add: sharded_step_def)
  have "sharded_step R rep sz node s L gs s'" using r(2) by (simp add: sharded_step_def)
  moreover have "length gs < missing \<longrightarrow> all_exhausted R sz s'"
    using r(4) o(1) len by (auto simp: all_exhausted_def in_set_conv_nth)
  ultimately show ?thesis using r(1,3) by blast
qed

lemma try_shards_as_sweep:
  assumes laws: "raw_laws R rep" and sz: "0 < sz"
  shows "sharded_inv R rep node s L \<Longrightarrow> distinct is \<Longrightarrow> (\<forall>i \<in> set is. i < length (pool_shards s)) \<Longrightarrow>
    try_shards R sz is s = (case sweep_shards R sz 1 is s of Inl e \<Rightarrow> Inl e
      | Inr (gs, s') \<Rightarrow> Inr (if gs = [] then None else Some (hd gs), s'))"
proof (induction "is" arbitrary: s L)
  case (Cons i "is")
  let ?p = "pool_shards s ! i"
  have i: "i < length (pool_shards s)" using Cons.prems by simp
  note pinv = sharded_inv_shard(2)[OF Cons.prems(1) i]
  obtain as p' where m: "pool_allocate_many R ?p sz 1 = Inr (map (guard_of ?p) as, p')"
      "pool_step R rep sz ?p (live_in (node, i) L) as p'" "length as \<le> 1"
    using pool_allocate_many_step[OF laws sz pinv] by blast
  let ?s = "s\<lparr>pool_shards := (pool_shards s)[i := p']\<rparr>"
  have al: "pool_allocate R ?p sz = Inr (if as = [] then None else Some (guard_of ?p (hd as)), p')"
    using pool_allocate_as_many[OF laws sz pinv] m(1) by (cases as) simp_all
  show ?case
  proof (cases as)
    case Nil
    have inv: "sharded_inv R rep node ?s L"
      using shard_update_step[OF Cons.prems(1) i m(2)] Nil by (simp add: sharded_step_def)
    have "try_shards R sz is ?s = (case sweep_shards R sz 1 is ?s of Inl e \<Rightarrow> Inl e
      | Inr (gs, s') \<Rightarrow> Inr (if gs = [] then None else Some (hd gs), s'))"
      using Cons.IH[OF inv] Cons.prems(2,3) by simp
    then show ?thesis using Nil al m(1) by (auto simp: Let_def split: sum.splits)
  next
    case (Cons a as')
    have "sweep_shards R sz 0 is ?s = Inr ([], ?s)" by (cases "is") simp_all
    moreover have "as' = []" using m(3) Cons by simp
    ultimately show ?thesis using Cons al m(1) by (simp add: Let_def)
  qed
qed simp

lemma sharded_allocate_step:
  assumes laws: "raw_laws R rep" and sz: "0 < sz" and inv: "sharded_inv R rep node s L"
  shows "\<exists>g s'. sharded_allocate R s sz = Inr (g, s') \<and>
    sharded_step R rep sz node s L (case g of None \<Rightarrow> [] | Some x \<Rightarrow> [x]) s' \<and>
    (g = None \<longrightarrow> all_exhausted R sz s')"
proof -
  have ne: "pool_shards s \<noteq> []" using inv by (simp add: sharded_inv_def)
  obtain gs s' where r: "sweep_shards R sz 1 (sweep_order s) (advance_cursor s) = Inr (gs, s')"
      "sharded_step R rep sz node s L gs s'" "length gs \<le> 1" "length gs < 1 \<longrightarrow> all_exhausted R sz s'"
    using sweep_all_step[OF laws sz inv] by blast
  have "sharded_allocate R s sz = Inr (if gs = [] then None else Some (hd gs), s')"
    using try_shards_as_sweep[OF laws sz, of node "advance_cursor s" L "sweep_order s"] inv sweep_order_set[OF ne] ne r(1)
    by (simp add: sharded_allocate_def)
  then show ?thesis using r(2-4) by (cases gs) auto
qed

lemma batch_loop_step:
  assumes laws: "raw_laws R rep" and sz: "0 < sz"
  shows "sharded_inv R rep node s L \<Longrightarrow> length out \<le> count \<Longrightarrow>
    \<exists>gs s'. batch_loop R sz count per_batch out s = Inr (out @ gs, s') \<and> sharded_step R rep sz node s L gs s' \<and>
      length out + length gs \<le> count \<and> (length out + length gs < count \<longrightarrow> all_exhausted R sz s')"
proof (induction "count - length out" arbitrary: out s L rule: less_induct)
  case less
  have ne: "pool_shards s \<noteq> []" using less.prems(1) by (simp add: sharded_inv_def)
  let ?want = "min (max per_batch 1) (count - length out)"
  show ?case
  proof (cases "length out < count")
    case False
    then show ?thesis using less.prems by (simp add: batch_loop.simps sharded_step_refl)
  next
    case True
    obtain gs s1 where r: "sweep_shards R sz ?want (sweep_order s) (advance_cursor s) = Inr (gs, s1)"
        "sharded_step R rep sz node s L gs s1" "length gs \<le> ?want" "length gs < ?want \<longrightarrow> all_exhausted R sz s1"
      using sweep_all_step[OF laws sz less.prems(1)] by blast
    show ?thesis
    proof (cases "length gs < ?want")
      case short: True
      then have "batch_loop R sz count per_batch out s = Inr (out @ gs, s1)"
        using True ne r(1) by (simp add: batch_loop.simps)
      then show ?thesis using r short True by auto
    next
      case False
      then have len: "length gs = ?want" "0 < length gs" using r(3) True by auto
      have rec: "batch_loop R sz count per_batch out s = batch_loop R sz count per_batch (out @ gs) s1"
        using True ne r(1) False by (subst batch_loop.simps) (auto simp: Let_def)
      have inv: "sharded_inv R rep node s1 (L \<union> set gs)" using r(2) by (simp add: sharded_step_def)
      have "count - length (out @ gs) < count - length out" "length (out @ gs) \<le> count" using len True by auto
      from less.hyps[OF this(1) inv this(2)] obtain gs' s2 where
        t: "batch_loop R sz count per_batch (out @ gs) s1 = Inr ((out @ gs) @ gs', s2)"
          "sharded_step R rep sz node s1 (L \<union> set gs) gs' s2" "length (out @ gs) + length gs' \<le> count"
          "length (out @ gs) + length gs' < count \<longrightarrow> all_exhausted R sz s2"
        by blast
      have "sharded_step R rep sz node s L (gs @ gs') s2" by (rule sharded_step_trans[OF r(2) t(2)])
      then show ?thesis using rec t by (intro exI[of _ "gs @ gs'"] exI[of _ s2]) auto
    qed
  qed
qed

lemma sharded_allocate_many_step:
  assumes "raw_laws R rep" and "0 < sz" and "sharded_inv R rep node s L"
  shows "\<exists>gs s'. allocate_many_batched R s sz count batch_bytes = Inr (gs, s') \<and> sharded_step R rep sz node s L gs s' \<and>
    length gs \<le> count \<and> (length gs < count \<longrightarrow> all_exhausted R sz s')"
  using batch_loop_step[OF assms, of "[]" count] unfolding allocate_many_batched_def by fastforce

lemma sharded_drop_inv:
  assumes laws: "raw_laws R rep" and inv: "sharded_inv R rep node s L" and g: "g \<in> L" "fst (pa_pool g) = node"
  shows "sharded_inv R rep node (sharded_drop R s g) (L - {g})"
proof -
  define i where "i = snd (pa_pool g)"
  let ?p = "pool_shards s ! i" and ?s = "sharded_drop R s g"
  have i: "i < length (pool_shards s)" "g = guard_of ?p (pa_allocation g)" "pa_pool g = (node, i)"
    using inv g by (auto simp: sharded_inv_def i_def)
  have shards: "pool_shards ?s = (pool_shards s)[i := free_internal R ?p (pa_allocation g)]"
    by (simp add: sharded_drop_def i_def Let_def)
  have same: "pool_id (free_internal R ?p a) = pool_id ?p" "pool_backing (free_internal R ?p a) = pool_backing ?p" for a
    by (simp_all add: free_internal_def)
  have in_live: "pa_allocation g \<in> live_in (node, i) L" using g(1) i(3) by (auto simp: live_in_def)
  have uniq: "x = g" if "x \<in> L" "pa_pool x = (node, i)" "pa_allocation x = pa_allocation g" for x
    using inv that i by (auto simp: sharded_inv_def)
  have live: "live_in (node, j) (L - {g}) = (if j = i then live_in (node, i) L - {pa_allocation g} else live_in (node, j) L)" for j
    using uniq i(3) by (auto simp: live_in_def)
  have pools: "pool_id (pool_shards ?s ! j) = (node, j) \<and> pool_inv R rep (pool_shards ?s ! j) (live_in (node, j) (L - {g}))"
    if j: "j < length (pool_shards s)" for j
  proof (cases "j = i")
    case True
    then show ?thesis
      using pool_free_inv[OF laws sharded_inv_shard(2)[OF inv i(1)] in_live] sharded_inv_shard(1)[OF inv i(1)] i(1) same
      unfolding live shards by simp
  next
    case False
    then show ?thesis using sharded_inv_shard[OF inv j] unfolding live shards by simp
  qed
  have "x = guard_of (pool_shards ?s ! snd (pa_pool x)) (pa_allocation x) \<and> snd (pa_pool x) < length (pool_shards ?s)"
    if x: "x \<in> L - {g}" "fst (pa_pool x) = node" for x
  proof -
    have old: "snd (pa_pool x) < length (pool_shards s)" "x = guard_of (pool_shards s ! snd (pa_pool x)) (pa_allocation x)"
      using inv x by (auto simp: sharded_inv_def)
    then show ?thesis using same i(1) unfolding shards
      by (cases "snd (pa_pool x) = i") (simp_all add: guard_of_def)
  qed
  then show ?thesis unfolding sharded_inv_def using pools i(1) by (auto simp: shards)
qed

section \<open>The allocator\<close>

definition allocator_inv ::
  "('r, 'h) raw_ops \<Rightarrow> ('r \<Rightarrow> nat \<Rightarrow> ('h \<times> nat) set \<Rightarrow> bool) \<Rightarrow> 'r pinned_allocator \<Rightarrow> 'h pool_allocation set \<Rightarrow> bool" where
  "allocator_inv R rep al L \<longleftrightarrow>
     (case al of
        GlobalPool s \<Rightarrow> sharded_inv R rep numa_unknown s L \<and> (\<forall>g \<in> L. fst (pa_pool g) = numa_unknown)
      | NumaPools ps \<Rightarrow> distinct (map fst ps) \<and> (\<forall>node s. map_of ps node = Some s \<longrightarrow> sharded_inv R rep node s L) \<and>
          (\<forall>g \<in> L. map_of ps (fst (pa_pool g)) \<noteq> None))"

lemma sharded_inv_cong:
  assumes same: "\<And>g. fst (pa_pool g) = node \<Longrightarrow> g \<in> L \<longleftrightarrow> g \<in> L'"
  shows "sharded_inv R rep node s L = sharded_inv R rep node s L'"
proof -
  have "{g \<in> L. pa_pool g = (node, i)} = {g \<in> L'. pa_pool g = (node, i)}" for i using same by force
  then have "live_in (node, i) L = live_in (node, i) L'" for i by (simp add: live_in_def)
  moreover have "(\<forall>g \<in> L. fst (pa_pool g) = node \<longrightarrow> P g) = (\<forall>g \<in> L'. fst (pa_pool g) = node \<longrightarrow> P g)" for P
    using same by blast
  ultimately show ?thesis unfolding sharded_inv_def by presburger
qed

lemma new_shards_inv:
  assumes "raw_laws R rep" and "memory_laws mem"
    and "new_shards (pool_new R mem hp ssd hint node n) is = Inr ps"
  shows "length ps = length is \<and> (\<forall>j < length is. pool_inv R rep (ps ! j) {} \<and> pool_id (ps ! j) = (node, is ! j))"
  using assms(3)
proof (induction "is" arbitrary: ps)
  case (Cons i "is")
  then obtain p ps' where "pool_new R mem hp ssd hint node n i = Inr p"
      "new_shards (pool_new R mem hp ssd hint node n) is = Inr ps'" "ps = p # ps'"
    by (auto simp: res_simps)
  then show ?case using Cons.IH pool_new_inv[OF assms(1,2)] by (auto simp: less_Suc_eq_0_disj nth_Cons')
qed simp

lemma sharded_new_inv:
  assumes "raw_laws R rep" and "memory_laws mem" and "sharded_new R mem cap n hp ssd hint node = Inr s"
  shows "sharded_inv R rep node s {}"
proof -
  obtain ps where ps: "new_shards (pool_new R mem hp ssd hint node (cap div max n 1)) [0..<max n 1] = Inr ps"
      "pool_shards s = ps"
    using assms(3) unfolding sharded_new_def Let_def by (auto simp: res_simps)
  have "length ps = max n 1" "\<forall>j < max n 1. pool_inv R rep (ps ! j) {} \<and> pool_id (ps ! j) = (node, j)"
    using new_shards_inv[OF assms(1,2) ps(1)] by auto
  then show ?thesis using ps(2) by (auto simp: sharded_inv_def live_in_def)
qed

lemma numa_new_loop_inv:
  assumes "raw_laws R rep" and "memory_laws mem"
    and "numa_new_loop pin (sharded_new R mem cap n hp ssd hint) nodes ps = Inr ps'"
    and "allocator_inv R rep (NumaPools ps) {}"
  shows "allocator_inv R rep (NumaPools ps') {}"
  using assms(3,4)
proof (induction nodes arbitrary: ps)
  case (Cons node nodes)
  show ?case
  proof (cases "is_unknown node")
    case True
    then show ?thesis using Cons by simp
  next
    case False
    then obtain s where s: "sharded_new R mem cap n hp ssd hint node = Inr s"
        "numa_new_loop pin (sharded_new R mem cap n hp ssd hint) nodes (AList.update node s ps) = Inr ps'"
      using Cons.prems(1) by (auto simp: res_simps split: if_splits)
    have "allocator_inv R rep (NumaPools (AList.update node s ps)) {}"
      using Cons.prems(2) sharded_new_inv[OF assms(1,2) s(1)]
      by (auto simp: allocator_inv_def distinct_update update_conv' split: if_splits)
    then show ?thesis using Cons.IH s(2) by blast
  qed
qed simp

text \<open>An allocating call of the whole allocator hands out the fresh guards \<open>gs\<close>.\<close>

definition allocator_step ::
  "('r, 'h) raw_ops \<Rightarrow> ('r \<Rightarrow> nat \<Rightarrow> ('h \<times> nat) set \<Rightarrow> bool) \<Rightarrow> nat \<Rightarrow> 'h pool_allocation set \<Rightarrow>
   'h pool_allocation list \<Rightarrow> 'r pinned_allocator \<Rightarrow> bool" where
  "allocator_step R rep sz L gs al' \<longleftrightarrow> allocator_inv R rep al' (L \<union> set gs) \<and> distinct gs \<and> set gs \<inter> L = {} \<and>
     (\<forall>g \<in> set gs. sz \<le> size_bytes (pa_allocation g))"

lemma global_step:
  assumes "allocator_inv R rep (GlobalPool s) L" and "sharded_step R rep sz numa_unknown s L gs s'"
  shows "allocator_step R rep sz L gs (GlobalPool s')"
  using assms by (auto simp: allocator_inv_def allocator_step_def sharded_step_def)

lemma numa_step:
  assumes inv: "allocator_inv R rep (NumaPools ps) L" and s: "map_of ps node = Some s"
    and step: "sharded_step R rep sz node s L gs s'"
  shows "allocator_step R rep sz L gs (NumaPools (AList.update node s' ps))"
proof -
  have gs: "\<forall>g \<in> set gs. fst (pa_pool g) = node" using step by (simp add: sharded_step_def)
  have "sharded_inv R rep n t (L \<union> set gs)" if t: "map_of (AList.update node s' ps) n = Some t" for n t
  proof (cases "n = node")
    case True
    then show ?thesis using t step by (simp add: update_conv' sharded_step_def)
  next
    case False
    then have "sharded_inv R rep n t L" using t inv by (simp add: update_conv' allocator_inv_def)
    then show ?thesis using sharded_inv_cong[of n L "L \<union> set gs"] gs False by blast
  qed
  moreover have "map_of (AList.update node s' ps) (fst (pa_pool g)) \<noteq> None" if "g \<in> L \<union> set gs" for g
    using that gs inv by (auto simp: update_conv' allocator_inv_def)
  ultimately show ?thesis using inv step
    by (auto simp: allocator_inv_def allocator_step_def sharded_step_def distinct_update)
qed

lemma allocator_step_refl: "allocator_inv R rep al L \<Longrightarrow> allocator_step R rep sz L [] al"
  by (simp add: allocator_step_def)

text \<open>The sharded pool a request goes to.\<close>

definition target_pool :: "'r pinned_allocator \<Rightarrow> numa_node \<Rightarrow> 'r sharded_pool option" where
  "target_pool al node =
     (case al of GlobalPool s \<Rightarrow> Some s | NumaPools ps \<Rightarrow> if is_unknown node then None else map_of ps node)"

definition target_exhausted :: "('r, 'h) raw_ops \<Rightarrow> nat \<Rightarrow> 'r pinned_allocator \<Rightarrow> numa_node \<Rightarrow> bool" where
  "target_exhausted R sz al node \<longleftrightarrow> (\<forall>s. target_pool al node = Some s \<longrightarrow> all_exhausted R sz s)"

lemma allocator_allocate_step:
  assumes laws: "raw_laws R rep" and sz: "0 < sz" and inv: "allocator_inv R rep al L"
  shows "\<exists>g al'. allocator_allocate R al sz node = Inr (g, al') \<and>
    allocator_step R rep sz L (case g of None \<Rightarrow> [] | Some x \<Rightarrow> [x]) al' \<and> (g = None \<longrightarrow> target_exhausted R sz al' node)"
proof (cases al)
  case (GlobalPool s)
  then have "sharded_inv R rep numa_unknown s L" using inv by (simp add: allocator_inv_def)
  from sharded_allocate_step[OF laws sz this] obtain g s' where
    r: "sharded_allocate R s sz = Inr (g, s')"
      "sharded_step R rep sz numa_unknown s L (case g of None \<Rightarrow> [] | Some x \<Rightarrow> [x]) s'" "g = None \<longrightarrow> all_exhausted R sz s'"
    by blast
  then show ?thesis using global_step[OF inv[unfolded GlobalPool] r(2)] GlobalPool
    by (auto simp: allocator_allocate_def target_exhausted_def target_pool_def)
next
  case (NumaPools ps)
  show ?thesis
  proof (cases "\<not> is_unknown node \<and> map_of ps node \<noteq> None")
    case False
    then have "numa_allocate R ps node sz = Inr (None, ps)" by (auto simp: numa_allocate_def)
    then show ?thesis using NumaPools inv False allocator_step_refl[OF inv]
      by (auto simp: allocator_allocate_def target_exhausted_def target_pool_def)
  next
    case True
    then obtain s where s: "\<not> is_unknown node" "map_of ps node = Some s" by blast
    then have "sharded_inv R rep node s L" using inv NumaPools by (simp add: allocator_inv_def)
    from sharded_allocate_step[OF laws sz this] obtain g s' where
      r: "sharded_allocate R s sz = Inr (g, s')"
        "sharded_step R rep sz node s L (case g of None \<Rightarrow> [] | Some x \<Rightarrow> [x]) s'" "g = None \<longrightarrow> all_exhausted R sz s'"
      by blast
    then show ?thesis using numa_step[OF inv[unfolded NumaPools] s(2) r(2)] NumaPools s
      by (auto simp: allocator_allocate_def numa_allocate_def target_exhausted_def target_pool_def update_conv')
  qed
qed

lemma allocator_allocate_many_step:
  assumes laws: "raw_laws R rep" and sz: "0 < sz" and inv: "allocator_inv R rep al L"
  shows "\<exists>gs al'. allocator_allocate_many R al sz count node = Inr (gs, al') \<and> allocator_step R rep sz L gs al' \<and>
    length gs \<le> count \<and> (length gs < count \<longrightarrow> target_exhausted R sz al' node)"
proof (cases al)
  case (GlobalPool s)
  then have "sharded_inv R rep numa_unknown s L" using inv by (simp add: allocator_inv_def)
  from sharded_allocate_many_step[OF laws sz this] obtain gs s' where
    r: "sharded_allocate_many R s sz count = Inr (gs, s')" "sharded_step R rep sz numa_unknown s L gs s'"
      "length gs \<le> count" "length gs < count \<longrightarrow> all_exhausted R sz s'"
    unfolding sharded_allocate_many_def by blast
  then show ?thesis using global_step[OF inv[unfolded GlobalPool] r(2)] GlobalPool
    by (auto simp: allocator_allocate_many_def target_exhausted_def target_pool_def)
next
  case (NumaPools ps)
  show ?thesis
  proof (cases "\<not> is_unknown node \<and> map_of ps node \<noteq> None")
    case False
    then have "numa_allocate_many R ps node sz count = Inr ([], ps)" by (auto simp: numa_allocate_many_def)
    then show ?thesis using NumaPools inv False allocator_step_refl[OF inv]
      by (auto simp: allocator_allocate_many_def target_exhausted_def target_pool_def)
  next
    case True
    then obtain s where s: "\<not> is_unknown node" "map_of ps node = Some s" by blast
    then have "sharded_inv R rep node s L" using inv NumaPools by (simp add: allocator_inv_def)
    from sharded_allocate_many_step[OF laws sz this] obtain gs s' where
      r: "sharded_allocate_many R s sz count = Inr (gs, s')" "sharded_step R rep sz node s L gs s'"
        "length gs \<le> count" "length gs < count \<longrightarrow> all_exhausted R sz s'"
      unfolding sharded_allocate_many_def by blast
    then show ?thesis using numa_step[OF inv[unfolded NumaPools] s(2) r(2)] NumaPools s
      by (auto simp: allocator_allocate_many_def numa_allocate_many_def target_exhausted_def target_pool_def update_conv')
  qed
qed

lemma drop_allocation_inv:
  assumes laws: "raw_laws R rep" and inv: "allocator_inv R rep al L" and g: "g \<in> L"
  shows "allocator_inv R rep (drop_allocation R al g) (L - {g})"
proof (cases al)
  case (GlobalPool s)
  then have "sharded_inv R rep numa_unknown s L" "fst (pa_pool g) = numa_unknown"
    using inv g by (auto simp: allocator_inv_def)
  from sharded_drop_inv[OF laws this(1) g this(2)] show ?thesis
    using inv GlobalPool by (simp add: allocator_inv_def drop_allocation_def)
next
  case (NumaPools ps)
  let ?n = "fst (pa_pool g)"
  obtain s where s: "map_of ps ?n = Some s" using inv g NumaPools by (auto simp: allocator_inv_def)
  have si: "sharded_inv R rep ?n s L" using inv s NumaPools by (simp add: allocator_inv_def)
  have "sharded_inv R rep n t (L - {g})" if t: "map_of (AList.update ?n (sharded_drop R s g) ps) n = Some t" for n t
  proof (cases "n = ?n")
    case True
    then show ?thesis using t sharded_drop_inv[OF laws si g refl] by (simp add: update_conv')
  next
    case False
    then have "sharded_inv R rep n t L" using t inv NumaPools by (simp add: update_conv' allocator_inv_def)
    then show ?thesis using sharded_inv_cong[of n L "L - {g}"] False by blast
  qed
  moreover have "drop_allocation R al g = NumaPools (AList.update ?n (sharded_drop R s g) ps)"
    using s NumaPools by (simp add: drop_allocation_def)
  ultimately show ?thesis using inv NumaPools
    by (auto simp: allocator_inv_def distinct_update update_conv')
qed

section \<open>Reachable allocators\<close>

inductive alloc_reach ::
  "('r, 'h) raw_ops \<Rightarrow> memory_source \<Rightarrow> (numa_node \<Rightarrow> bool) \<Rightarrow> 'r pinned_allocator \<Rightarrow> 'h pool_allocation set \<Rightarrow> bool"
  for R mem pin where
  reach_new: "new_numa R mem pin cap nodes n hp ssd hint = Inr al \<Longrightarrow> alloc_reach R mem pin al {}"
| reach_alloc: "alloc_reach R mem pin al L \<Longrightarrow> 0 < sz \<Longrightarrow> allocator_allocate R al sz node = Inr (g, al') \<Longrightarrow>
    alloc_reach R mem pin al' (L \<union> set (case g of None \<Rightarrow> [] | Some x \<Rightarrow> [x]))"
| reach_many: "alloc_reach R mem pin al L \<Longrightarrow> 0 < sz \<Longrightarrow> allocator_allocate_many R al sz count node = Inr (gs, al') \<Longrightarrow>
    alloc_reach R mem pin al' (L \<union> set gs)"
| reach_drop: "alloc_reach R mem pin al L \<Longrightarrow> g \<in> L \<Longrightarrow> alloc_reach R mem pin (drop_allocation R al g) (L - {g})"

lemma alloc_reach_inv:
  assumes laws: "raw_laws R rep" and mem: "memory_laws mem" and reach: "alloc_reach R mem pin al L"
  shows "allocator_inv R rep al L"
  using reach
proof induction
  case (reach_new cap nodes n hp ssd hint al)
  show ?case
  proof (cases "nodes = []")
    case True
    then obtain s where "sharded_new R mem cap n hp ssd hint numa_unknown = Inr s" "al = GlobalPool s"
      using reach_new by (auto simp: new_numa_def new_global_def res_simps)
    then show ?thesis using sharded_new_inv[OF laws mem] by (simp add: allocator_inv_def)
  next
    case False
    then obtain ps where ps: "numa_new_loop pin (sharded_new R mem (cap div length nodes) n hp ssd hint) nodes [] = Inr ps"
        "al = NumaPools ps"
      using reach_new by (auto simp: new_numa_def numa_pools_new_def Let_def res_simps)
    then show ?thesis using numa_new_loop_inv[OF laws mem ps(1)] by (simp add: allocator_inv_def)
  qed
next
  case (reach_alloc al L sz node g al')
  then show ?case using allocator_allocate_step[OF laws reach_alloc.hyps(2) reach_alloc.IH, of node]
    by (auto simp: allocator_step_def)
next
  case (reach_many al L sz count node gs al')
  then show ?case using allocator_allocate_many_step[OF laws reach_many.hyps(2) reach_many.IH, of count node]
    by (auto simp: allocator_step_def)
next
  case (reach_drop al L g)
  then show ?case using drop_allocation_inv[OF laws] by blast
qed

text \<open>The pool a guard points to.\<close>

definition pool_at :: "'r pinned_allocator \<Rightarrow> numa_node \<times> nat \<Rightarrow> 'r pinned_memory_pool" where
  "pool_at al pid =
     (case al of GlobalPool s \<Rightarrow> pool_shards s ! snd pid
      | NumaPools ps \<Rightarrow> pool_shards (the (map_of ps (fst pid))) ! snd pid)"

lemma live_guard:
  assumes inv: "allocator_inv R rep al L" and g: "g \<in> L"
  shows "pool_memory_region (pool_at al (pa_pool g)) \<in> set (memory_regions al)"
    and "pool_inv R rep (pool_at al (pa_pool g)) (live_in (pa_pool g) L)"
    and "g = guard_of (pool_at al (pa_pool g)) (pa_allocation g)"
proof -
  obtain node i where pid: "pa_pool g = (node, i)" by (cases "pa_pool g")
  obtain s where s: "sharded_inv R rep node s L" "pool_at al (node, i) = pool_shards s ! i"
    and regions: "set (sharded_memory_regions s) \<subseteq> set (memory_regions al)"
  proof (cases al)
    case (GlobalPool s)
    then show thesis using that[of s] inv g pid by (auto simp: allocator_inv_def pool_at_def memory_regions_def)
  next
    case (NumaPools ps)
    then obtain s where s: "map_of ps node = Some s" using inv g pid by (auto simp: allocator_inv_def)
    then have "set (sharded_memory_regions s) \<subseteq> set (memory_regions al)"
      using NumaPools map_of_SomeD[OF s] by (auto simp: memory_regions_def numa_memory_regions_def)
    then show thesis using that[of s] s NumaPools inv by (auto simp: allocator_inv_def pool_at_def)
  qed
  have i: "i < length (pool_shards s)" "g = guard_of (pool_shards s ! i) (pa_allocation g)"
    using s(1) g pid by (auto simp: sharded_inv_def)
  show "pool_memory_region (pool_at al (pa_pool g)) \<in> set (memory_regions al)"
    using regions i(1) s(2) pid by (auto simp: sharded_memory_regions_def)
  show "pool_inv R rep (pool_at al (pa_pool g)) (live_in (pa_pool g) L)"
    using sharded_inv_shard(2)[OF s(1) i(1)] s(2) pid by simp
  show "g = guard_of (pool_at al (pa_pool g)) (pa_allocation g)" using i(2) s(2) pid by simp
qed

text \<open>
  C9. Pinned memory is never shared. In every allocator reached by allocating, batch
  allocating and dropping guards, each live guard is a non-empty range of bytes inside one
  of the pinned regions, and two live guards of one pool never overlap.
\<close>

theorem pinned_guards_disjoint:
  assumes "raw_laws R rep" and "memory_laws mem" and "alloc_reach R mem pin al L" and "g \<in> L"
  shows "0 < size_bytes (pa_allocation g) \<and>
    (\<exists>base len. (base, len) \<in> set (memory_regions al) \<and>
       base \<le> pa_ptr g \<and> pa_ptr g + size_bytes (pa_allocation g) \<le> base + len) \<and>
    (\<forall>h \<in> L. h \<noteq> g \<and> pa_pool h = pa_pool g \<longrightarrow>
       spans_apart (pa_ptr g, size_bytes (pa_allocation g)) (pa_ptr h, size_bytes (pa_allocation h)))"
proof -
  note inv = alloc_reach_inv[OF assms(1-3)]
  let ?p = "pool_at al (pa_pool g)"
  note lg = live_guard[OF inv assms(4)]
  have sinv: "scaled_inv R rep (pool_allocator ?p) (live_in (pa_pool g) L)"
    and tot: "scaled_total_bytes (pool_allocator ?p) \<le> mem_size (pool_backing ?p)"
    using lg(2) by (auto simp: pool_inv_def)
  have ptr: "pa_ptr g = mem_ptr (pool_backing ?p) + offset_bytes (pa_allocation g)"
    using lg(3) by (metis guard_of_def pool_allocation.select_convs(2))
  have mine: "pa_allocation g \<in> live_in (pa_pool g) L" using assms(4) by (auto simp: live_in_def)
  note reg = scaled_regions[OF assms(1) sinv mine]
  have "spans_apart (pa_ptr g, size_bytes (pa_allocation g)) (pa_ptr h, size_bytes (pa_allocation h))"
    if h: "h \<in> L" "h \<noteq> g" "pa_pool h = pa_pool g" for h
  proof -
    have hg: "h = guard_of ?p (pa_allocation h)" using live_guard(3)[OF inv h(1)] h(3) by simp
    then have "pa_allocation g \<noteq> pa_allocation h" using lg(3) h(2) by metis
    moreover have "pa_allocation h \<in> live_in (pa_pool g) L" using h by (auto simp: live_in_def)
    ultimately have "spans_apart (offset_bytes (pa_allocation g), size_bytes (pa_allocation g))
        (offset_bytes (pa_allocation h), size_bytes (pa_allocation h))" using reg(3) by blast
    moreover have "pa_ptr h = mem_ptr (pool_backing ?p) + offset_bytes (pa_allocation h)"
      using hg by (metis guard_of_def pool_allocation.select_convs(2))
    ultimately show ?thesis using ptr by (auto simp: spans_apart_def)
  qed
  moreover have "\<exists>base len. (base, len) \<in> set (memory_regions al) \<and>
       base \<le> pa_ptr g \<and> pa_ptr g + size_bytes (pa_allocation g) \<le> base + len"
    using lg(1) reg(2) tot ptr unfolding pool_memory_region_def
    by (intro exI[of _ "mem_ptr (pool_backing ?p)"] exI[of _ "mem_size (pool_backing ?p)"]) auto
  ultimately show ?thesis using reg(1) by blast
qed

lemma fold_max_reached: "0 < n \<Longrightarrow> n \<le> fold (\<lambda>p m. max m (f p)) ps a \<Longrightarrow> n \<le> a \<or> (\<exists>p \<in> set ps. n \<le> (f p :: nat))"
proof (induction ps arbitrary: a)
  case (Cons p ps)
  then show ?case using Cons.IH[of "max a (f p)"] by (auto simp: le_max_iff_disj)
qed simp

lemma exhausted_largest_free:
  assumes laws: "raw_laws R rep" and sz: "0 < sz" and inv: "allocator_inv R rep al L" and ex: "target_exhausted R sz al node"
  shows "allocator_largest_free R al node < sz"
proof (rule ccontr)
  assume "\<not> ?thesis"
  then have big: "sz \<le> allocator_largest_free R al node" by simp
  obtain n s where s: "target_pool al node = Some s" "sharded_inv R rep n s L" "sz \<le> sharded_largest_free R s"
  proof (cases al)
    case (GlobalPool s)
    then show thesis using that[of s numa_unknown] big inv
      by (simp add: allocator_largest_free_def target_pool_def allocator_inv_def)
  next
    case (NumaPools ps)
    then show thesis using that[of _ node] big inv sz
      by (auto simp: allocator_largest_free_def numa_largest_free_def target_pool_def allocator_inv_def
          split: if_splits option.splits)
  qed
  obtain p where p: "p \<in> set (pool_shards s)" "sz \<le> pool_largest_free R p"
    using fold_max_reached[OF sz, of "pool_largest_free R" "pool_shards s" 0] s(3) sz
    by (auto simp: sharded_largest_free_def)
  obtain A where "pool_inv R rep p A" using p(1) s(2) by (auto simp: sharded_inv_def in_set_conv_nth)
  then have "\<not> exhausted R sz (pool_allocator p)" using pool_allocate_succeeds[OF laws sz _ p(2)] by blast
  then show False using ex s(1) p(1) by (auto simp: target_exhausted_def all_exhausted_def)
qed

text \<open>
  Allocation never panics and fails only on a full target. On a reachable allocator,
  allocating one region or a batch of them returns; the regions are new and as large as
  requested; and a missing region means that no shard of the target reports a free region
  of the requested size any more. The batch loop terminates for every request.
\<close>

theorem allocation_contract:
  assumes "raw_laws R rep" and "memory_laws mem" and "alloc_reach R mem pin al L" and "0 < sz"
  shows "(\<exists>g al'. allocator_allocate R al sz node = Inr (g, al') \<and>
      (case g of None \<Rightarrow> allocator_largest_free R al' node < sz | Some x \<Rightarrow> x \<notin> L \<and> sz \<le> size_bytes (pa_allocation x))) \<and>
    (\<exists>gs al'. allocator_allocate_many R al sz count node = Inr (gs, al') \<and> distinct gs \<and> set gs \<inter> L = {} \<and>
      (\<forall>x \<in> set gs. sz \<le> size_bytes (pa_allocation x)) \<and> length gs \<le> count \<and>
      (length gs < count \<longrightarrow> allocator_largest_free R al' node < sz))"
proof -
  note inv = alloc_reach_inv[OF assms(1-3)]
  obtain g al1 where a: "allocator_allocate R al sz node = Inr (g, al1)"
      "allocator_step R rep sz L (case g of None \<Rightarrow> [] | Some x \<Rightarrow> [x]) al1" "g = None \<longrightarrow> target_exhausted R sz al1 node"
    using allocator_allocate_step[OF assms(1,4) inv] by blast
  obtain gs al2 where m: "allocator_allocate_many R al sz count node = Inr (gs, al2)" "allocator_step R rep sz L gs al2"
      "length gs \<le> count" "length gs < count \<longrightarrow> target_exhausted R sz al2 node"
    using allocator_allocate_many_step[OF assms(1,4) inv] by blast
  have "case g of None \<Rightarrow> allocator_largest_free R al1 node < sz | Some x \<Rightarrow> x \<notin> L \<and> sz \<le> size_bytes (pa_allocation x)"
    using a(2,3) exhausted_largest_free[OF assms(1,4), of al1 _ node] by (cases g) (auto simp: allocator_step_def)
  moreover have "length gs < count \<longrightarrow> allocator_largest_free R al2 node < sz"
    using m(2,4) exhausted_largest_free[OF assms(1,4), of al2 _ node] by (auto simp: allocator_step_def)
  ultimately show ?thesis using a(1) m by (auto simp: allocator_step_def)
qed

section \<open>A lawful unit allocator\<close>

text \<open>
  A bump allocator that starts over once nothing is live satisfies \<open>raw_laws\<close>, so the laws
  can hold. A handle is the offset and size of its region.
\<close>

record bump_heap =
  bump_total :: nat
  bump_top :: nat
  bump_live :: "(nat \<times> nat) list"

definition class_floor :: "nat \<Rightarrow> nat" where
  "class_floor n = n div 2 ^ (floorlog 2 n - 4) * 2 ^ (floorlog 2 n - 4)"

definition bump_ops :: "(bump_heap, nat \<times> nat) raw_ops" where
  "bump_ops = \<lparr>raw_with_max_allocs = (\<lambda>tot _. \<lparr>bump_total = tot, bump_top = 0, bump_live = []\<rparr>),
     raw_allocate = (\<lambda>r n. if n \<le> bump_total r - bump_top r
       then (Some (bump_top r, n), r\<lparr>bump_top := bump_top r + n, bump_live := (bump_top r, n) # bump_live r\<rparr>)
       else (None, r)),
     raw_allocation_size = (\<lambda>_ h. snd h),
     raw_free = (\<lambda>r h. let l = removeAll h (bump_live r)
       in r\<lparr>bump_live := l, bump_top := (if l = [] then 0 else bump_top r)\<rparr>),
     raw_offset = fst,
     raw_total_free_space = (\<lambda>r. bump_total r - bump_top r),
     raw_largest_free_region = (\<lambda>r. class_floor (bump_total r - bump_top r))\<rparr>"

definition bump_rep :: "bump_heap \<Rightarrow> nat \<Rightarrow> ((nat \<times> nat) \<times> nat) set \<Rightarrow> bool" where
  "bump_rep r tot H \<longleftrightarrow> bump_total r = tot \<and> bump_top r \<le> tot \<and> H = (\<lambda>h. (h, snd h)) ` set (bump_live r) \<and>
     distinct (bump_live r) \<and> sum_list (map snd (bump_live r)) \<le> bump_top r \<and>
     (\<forall>h \<in> set (bump_live r). 0 < snd h \<and> fst h + snd h \<le> bump_top r) \<and>
     (\<forall>h \<in> set (bump_live r). \<forall>h' \<in> set (bump_live r). h \<noteq> h' \<longrightarrow> spans_apart h h')"

lemma class_floor_le: "class_floor n \<le> n"
  by (simp add: class_floor_def)

lemma class_floor_boundary: "class_boundary (class_floor n)"
proof (cases "n < 16")
  case True
  then show ?thesis unfolding class_floor_def class_boundary_def small_shift[OF True]
    by (intro exI[of _ n] exI[of _ 0]) simp
next
  case False
  have "n div 2 ^ (floorlog 2 n - 4) < 16" using octave(2)[of n] False by (simp add: less_mult_imp_div_less)
  then show ?thesis unfolding class_floor_def class_boundary_def by blast
qed

lemma bump_laws: "raw_laws bump_ops bump_rep"
proof -
  have alloc: "bump_rep r' tot (insert (h, snd h) H) \<and> n \<le> snd h \<and> h \<notin> fst ` H"
    if r: "bump_rep r tot H" "0 < n" "raw_allocate bump_ops r n = (Some h, r')" for r tot H n h r'
  proof -
    have h: "h = (bump_top r, n)" "n \<le> tot - bump_top r"
        "r' = r\<lparr>bump_top := bump_top r + n, bump_live := (bump_top r, n) # bump_live r\<rparr>"
      using r by (auto simp: bump_ops_def bump_rep_def split: if_splits)
    have fresh: "h \<notin> set (bump_live r)" using r(1,2) h(1) by (force simp: bump_rep_def)
    show ?thesis using r(1,2) h fresh by (force simp: bump_rep_def spans_apart_def)
  qed
  have sums: "sum_list (map snd (removeAll h xs)) \<le> sum_list (map snd (xs :: (nat \<times> nat) list))" for h xs
    by (induction xs) auto
  have free: "bump_rep (raw_free bump_ops r h) tot (H - {(h, n)})" if r: "bump_rep r tot H" "(h, n) \<in> H" for r tot H h n
  proof -
    have "H - {(h, n)} = (\<lambda>h. (h, snd h)) ` (set (bump_live r) - {h})" using r by (auto simp: bump_rep_def)
    moreover have "set (bump_live r) - {h} = {}" if "removeAll h (bump_live r) = []"
      using that by (metis empty_set set_removeAll)
    ultimately show ?thesis using r(1) order_trans[OF sums[of h "bump_live r"]]
      by (cases "removeAll h (bump_live r) = []") (auto simp: bump_rep_def bump_ops_def Let_def distinct_removeAll)
  qed
  have inv: "regions_apart bump_ops tot H \<and> raw_total_free_space bump_ops r + (\<Sum>(h, n) \<in> H. n) \<le> tot"
    if r: "bump_rep r tot H" for r tot H
  proof -
    have H: "H = (\<lambda>h. (h, snd h)) ` set (bump_live r)" "distinct (bump_live r)" using r by (auto simp: bump_rep_def)
    have "(\<Sum>(h, n) \<in> H. n) = sum_list (map snd (bump_live r))"
      unfolding H(1) by (subst sum.reindex) (auto simp: inj_on_def sum_list_distinct_conv_sum_set[OF H(2)])
    then show ?thesis using r H by (force simp: regions_apart_def bump_rep_def bump_ops_def)
  qed
  show ?thesis unfolding raw_laws_def
  proof (intro conjI allI impI; (elim conjE)?)
    fix r tot H n h r' assume "bump_rep r tot H" "0 < n" "raw_allocate bump_ops r n = (Some h, r')"
    from alloc[OF this] show "bump_rep r' tot (insert (h, raw_allocation_size bump_ops r' h) H)"
      "n \<le> raw_allocation_size bump_ops r' h" "h \<notin> fst ` H" by (simp_all add: bump_ops_def)
  next
    fix r tot H h n assume "bump_rep r tot H" "(h, n) \<in> H"
    then show "bump_rep (raw_free bump_ops r h) tot (H - {(h, n)})" by (rule free)
  next
    fix r tot H assume "bump_rep r tot H"
    from inv[OF this] show "regions_apart bump_ops tot H"
      "raw_total_free_space bump_ops r + (\<Sum>(h, n) \<in> H. n) \<le> tot" by simp_all
  qed (auto simp: bump_ops_def bump_rep_def class_floor_boundary split: if_splits
      intro: class_floor_le dest: order_trans[OF _ class_floor_le])
qed

section \<open>Witnesses\<close>

definition wmem :: memory_source where
  "wmem kind n node i = (if n < 2 ^ 40 then Some \<lparr>mem_ptr = 4096, mem_device_ptr = 8192, mem_size = n\<rparr> else None)"

definition wpool :: "nat \<Rightarrow> (nat \<times> nat) list \<Rightarrow> nat \<Rightarrow> bump_heap pinned_allocator" where
  "wpool tp live cur = GlobalPool \<lparr>pool_shards = [\<lparr>pool_backing = \<lparr>mem_ptr = 4096, mem_device_ptr = 8192, mem_size = 4096\<rparr>,
      pool_allocator = \<lparr>unit_size = 512, total_units = 8,
        inner = \<lparr>bump_total = 8, bump_top = tp, bump_live = live\<rparr>\<rparr>,
      allocatable_bytes = 4096, pool_id = (numa_unknown, 0)\<rparr>], pool_cursor = cur\<rparr>"

definition wguard :: "nat \<Rightarrow> nat \<Rightarrow> (nat \<times> nat) pool_allocation" where
  "wguard off n = \<lparr>pa_allocation = \<lparr>offset_bytes = off * 512, size_bytes = n * 512, raw_handle = (off, n)\<rparr>,
     pa_ptr = 4096 + off * 512, pa_device_ptr = 8192 + off * 512, pa_pool = (numa_unknown, 0)\<rparr>"

lemma wmem_laws: "memory_laws wmem"
  by (auto simp: memory_laws_def wmem_def region_ok_def split: if_splits)

lemma wpool_new: "new_numa bump_ops wmem (\<lambda>_. True) 4096 [] 1 False False None = Inr (wpool 0 [] 0)"
  by (simp add: new_numa_def new_global_def sharded_new_def pool_new_def pool_over_def compute_unit_size_def wmem_def
      div_ceil_def unit_alignment_def new_with_unit_size_and_max_allocs_def u32_try_from_def bump_ops_def wpool_def)

lemmas wpool_eval = allocator_allocate_def sharded_allocate_def sweep_order_def advance_cursor_def pool_allocate_def
  allocate_locked_def scaled_allocate_def div_ceil_def u32_try_from_def size_class_small bump_ops_def pool_wrap_def
  wpool_def wguard_def Let_def

lemma wpool_first: "allocator_allocate bump_ops (wpool 0 [] 0) 600 0 = Inr (Some (wguard 0 2), wpool 2 [(0, 2)] 1)"
  by (simp add: wpool_eval)

lemma wpool_second:
  "allocator_allocate bump_ops (wpool 2 [(0, 2)] 1) 100 0 = Inr (Some (wguard 2 1), wpool 3 [(2, 1), (0, 2)] 2)"
  by (simp add: wpool_eval)

lemma wpool_reach: "alloc_reach bump_ops wmem (\<lambda>_. True) (wpool 3 [(2, 1), (0, 2)] 2) {wguard 0 2, wguard 2 1}"
  using reach_alloc[OF reach_alloc[OF reach_new[OF wpool_new] _ wpool_first] _ wpool_second] by (simp add: insert_commute)

theorem pinned_guards_disjoint_witness:
  "wguard 0 2 \<noteq> wguard 2 1 \<and> spans_apart (4096, 1024) (5120, 512) \<and>
   (\<exists>base len. (base, len) \<in> set (memory_regions (wpool 3 [(2, 1), (0, 2)] 2)) \<and> base \<le> 4096 \<and> 4096 + 1024 \<le> base + len)"
proof -
  have ne: "wguard 2 1 \<noteq> wguard 0 2" by (simp add: wguard_def)
  from pinned_guards_disjoint[OF bump_laws wmem_laws wpool_reach, of "wguard 0 2"]
  have "spans_apart (pa_ptr (wguard 0 2), size_bytes (pa_allocation (wguard 0 2)))
      (pa_ptr (wguard 2 1), size_bytes (pa_allocation (wguard 2 1)))"
    "\<exists>base len. (base, len) \<in> set (memory_regions (wpool 3 [(2, 1), (0, 2)] 2)) \<and> base \<le> pa_ptr (wguard 0 2) \<and>
       pa_ptr (wguard 0 2) + size_bytes (pa_allocation (wguard 0 2)) \<le> base + len"
    using ne by (auto simp: wguard_def)
  then show ?thesis using ne by (simp add: wguard_def)
qed

theorem allocation_contract_witness:
  "\<exists>gs al'. allocator_allocate_many bump_ops (wpool 3 [(2, 1), (0, 2)] 2) 512 9 0 = Inr (gs, al') \<and> distinct gs \<and>
     set gs \<inter> {wguard 0 2, wguard 2 1} = {} \<and> length gs \<le> 9"
  using allocation_contract[OF bump_laws wmem_laws wpool_reach, of 512 0 9] by fastforce

end
