(* ===== verification/Storage_Engine.thy ===== *)
theory Storage_Engine
  imports Meta_Client Transfer_Lock Pinned_Pool
begin

text \<open>
  The storage engine (\<open>pegaflow-core/src/storage/mod.rs\<close>): pinned memory on demand with
  eviction of cached blocks, cache clean-up, and the serving side of transfers between nodes.
  It composes the allocator (\<open>Pinned_Pool\<close>), the read cache (\<open>Read_Cache\<close>), the transfer
  locks (\<open>Transfer_Lock\<close>) and the queue and backup state of the MetaServer client
  (\<open>Meta_Client\<close>).

  Reference counts are Rust's: \<open>n_strong\<close> is the number of owners of a block,
  \<open>n_guards\<close> the pinned allocations a block holds, and \<open>n_shared\<close> tells whether anything
  outside the cache holds an allocation. Dropping evicted blocks frees the allocations that
  nothing else holds. A reclaiming loop may run any number of rounds, so it is a partial
  function: \<open>None\<close> is the loop that never ends.
\<close>

section \<open>State\<close>

definition reclaim_batch_size :: nat where "reclaim_batch_size = 512"

record ('r, 'h, 'l, 'm) engine_env =
  n_raw :: "('r, 'h) raw_ops"
  n_lru :: "'l block_lru"
  n_meta :: "'m meta_lru"
  n_cfg :: cache_config
  n_strong :: "nat \<Rightarrow> nat"
  n_guards :: "arc_block \<Rightarrow> 'h pool_allocation list"
  n_shared :: "'h pool_allocation \<Rightarrow> bool"
  n_order :: "(string \<times> block_hash list) list \<Rightarrow> (string \<times> block_hash list) list"

record ('r, 'l, 'm) storage_engine =
  en_allocator :: "'r pinned_allocator"
  en_cache :: "('l, 'm) read_cache"
  en_client :: "(command_queue \<times> backup_state) option"
  en_locks :: transfer_locks

datatype engine_panic = PoolPanic pool_panic | CachePanic cache_panic

record cleanup_stats =
  evicted_blocks :: nat
  evicted_bytes :: u64
  reclaimed_bytes :: nat
  still_referenced_blocks :: nat

section \<open>Dropping blocks\<close>

text \<open>The allocations that die with the dropped blocks: nothing outside the cache and no block left in it holds them.\<close>

definition dead_guards ::
  "('r, 'h, 'l, 'm) engine_env \<Rightarrow> (block_key \<times> arc_block) list \<Rightarrow> ('l, 'm) read_cache \<Rightarrow> 'h pool_allocation list" where
  "dead_guards E dropped c =
     filter (\<lambda>g. \<not> n_shared E g \<and> g \<notin> set (concat (map (n_guards E \<circ> snd) (lru_iter (n_lru E) (cache_lru (rc_cache c))))))
       (remdups (concat (map (n_guards E \<circ> snd) dropped)))"

definition drop_guards :: "('r, 'h) raw_ops \<Rightarrow> 'h pool_allocation list \<Rightarrow> 'r pinned_allocator \<Rightarrow> 'r pinned_allocator" where
  "drop_guards R gs al = fold (\<lambda>g a. drop_allocation R a g) gs al"

definition drop_evicted ::
  "('r, 'h, 'l, 'm) engine_env \<Rightarrow> (block_key \<times> arc_block) list \<Rightarrow> ('r, 'l, 'm) storage_engine \<Rightarrow> ('r, 'l, 'm) storage_engine" where
  "drop_evicted E evicted st =
     st\<lparr>en_allocator := drop_guards (n_raw E)
          (dead_guards E (filter (\<lambda>(_, b). n_strong E (arc_id b) = 1) evicted) (en_cache st)) (en_allocator st)\<rparr>"

definition notify_evicted ::
  "('r, 'h, 'l, 'm) engine_env \<Rightarrow> (block_key \<times> arc_block) list \<Rightarrow> ('r, 'l, 'm) storage_engine \<Rightarrow> ('r, 'l, 'm) storage_engine" where
  "notify_evicted E evicted st =
     st\<lparr>en_client := map_option (\<lambda>(q, b). (try_unregister (n_order E) (map (\<lambda>(k, _). (namespace k, hash k)) evicted) q, b))
          (en_client st)\<rparr>"

definition footprint_sum :: "(block_key \<times> arc_block) list \<Rightarrow> u64" where
  "footprint_sum evicted = fold (\<lambda>(_, b) n. saturating_add n (sealed_footprint (arc_inner b))) evicted 0"

section \<open>Allocation\<close>

partial_function (option) reclaim_loop ::
  "('r, 'h, 'l, 'm) engine_env \<Rightarrow> nat \<Rightarrow> numa_node \<Rightarrow> ('r, 'l, 'm) storage_engine \<Rightarrow> nat \<Rightarrow> u64 \<Rightarrow> nat \<Rightarrow>
   (engine_panic + ('r, 'l, 'm) storage_engine \<times> nat \<times> u64 \<times> nat) option" where
  "reclaim_loop E required node st freed_blocks freed_bytes largest_free =
     (if \<not> largest_free < required then Some (Inr (st, freed_blocks, freed_bytes, largest_free))
      else case remove_lru_batch (n_lru E) (n_meta E) (n_strong E) reclaim_batch_size (en_cache st) of
             Inl e \<Rightarrow> Some (Inl (CachePanic e))
           | Inr (c, evicted) \<Rightarrow>
               if evicted = [] then Some (Inr (st\<lparr>en_cache := c\<rparr>, freed_blocks, freed_bytes, largest_free))
               else let st = drop_evicted E evicted (notify_evicted E evicted (st\<lparr>en_cache := c\<rparr>))
                    in reclaim_loop E required node st (freed_blocks + length evicted)
                         (saturating_add freed_bytes (footprint_sum evicted))
                         (allocator_largest_free (n_raw E) (en_allocator st) node))"

text \<open>The first pressure eviction asks for an early backup report.\<close>

definition report_pressure ::
  "('r, 'h, 'l, 'm) engine_env \<Rightarrow> ('r, 'l, 'm) storage_engine \<Rightarrow> ('r, 'l, 'm) storage_engine" where
  "report_pressure E st =
     (case en_client st of
        None \<Rightarrow> st
      | Some (q, b) \<Rightarrow>
          if backup_report_idle b \<and> backup_report_budget (n_cfg E) (en_cache st) > 0
          then st\<lparr>en_client := Some (q, request_backup_report b)\<rparr> else st)"

definition reclaim_until_allocator_can_allocate ::
  "('r, 'h, 'l, 'm) engine_env \<Rightarrow> nat \<Rightarrow> numa_node \<Rightarrow> ('r, 'l, 'm) storage_engine \<Rightarrow>
   (engine_panic + ('r, 'l, 'm) storage_engine \<times> nat \<times> u64 \<times> nat) option" where
  "reclaim_until_allocator_can_allocate E required node st =
     (let largest_free = allocator_largest_free (n_raw E) (en_allocator st) node in
      if required = 0 then Some (Inr (st, 0, 0, largest_free))
      else Option.bind (reclaim_loop E required node st 0 0 largest_free) (\<lambda>r.
        Some (bind_res r (\<lambda>(st', freed_blocks, freed_bytes, lf).
          Inr (if freed_blocks > 0 then report_pressure E st' else st', freed_blocks, freed_bytes, lf)))))"

definition pool_allocate_step ::
  "('r, 'h, 'l, 'm) engine_env \<Rightarrow> nat \<Rightarrow> numa_node \<Rightarrow> ('r, 'l, 'm) storage_engine \<Rightarrow>
   engine_panic + 'h pool_allocation option \<times> ('r, 'l, 'm) storage_engine" where
  "pool_allocate_step E sz node st =
     (case allocator_allocate (n_raw E) (en_allocator st) sz node of
        Inl e \<Rightarrow> Inl (PoolPanic e)
      | Inr (g, al) \<Rightarrow> Inr (g, st\<lparr>en_allocator := al\<rparr>))"

partial_function (option) allocate_loop ::
  "('r, 'h, 'l, 'm) engine_env \<Rightarrow> nat \<Rightarrow> numa_node \<Rightarrow> ('r, 'l, 'm) storage_engine \<Rightarrow>
   (engine_panic + 'h pool_allocation option \<times> ('r, 'l, 'm) storage_engine) option" where
  "allocate_loop E sz node st =
     (case pool_allocate_step E sz node st of
        Inl e \<Rightarrow> Some (Inl e)
      | Inr (Some g, st1) \<Rightarrow> Some (Inr (Some g, st1))
      | Inr (None, st1) \<Rightarrow>
          Option.bind (reclaim_until_allocator_can_allocate E sz node st1) (\<lambda>r.
            case r of
              Inl e \<Rightarrow> Some (Inl e)
            | Inr (st2, freed_blocks, _, largest_free) \<Rightarrow>
                if freed_blocks = 0 \<and> largest_free < sz then Some (pool_allocate_step E sz node st2)
                else allocate_loop E sz node st2))"

definition engine_allocate ::
  "('r, 'h, 'l, 'm) engine_env \<Rightarrow> nat \<Rightarrow> numa_node option \<Rightarrow> ('r, 'l, 'm) storage_engine \<Rightarrow>
   (engine_panic + 'h pool_allocation option \<times> ('r, 'l, 'm) storage_engine) option" where
  "engine_allocate E sz numa st = allocate_loop E sz (case numa of None \<Rightarrow> numa_unknown | Some m \<Rightarrow> m) st"

definition pool_allocate_many_step ::
  "('r, 'h, 'l, 'm) engine_env \<Rightarrow> nat \<Rightarrow> nat \<Rightarrow> numa_node \<Rightarrow> ('r, 'l, 'm) storage_engine \<Rightarrow>
   engine_panic + 'h pool_allocation list \<times> ('r, 'l, 'm) storage_engine" where
  "pool_allocate_many_step E sz n node st =
     (case allocator_allocate_many (n_raw E) (en_allocator st) sz n node of
        Inl e \<Rightarrow> Inl (PoolPanic e)
      | Inr (gs, al) \<Rightarrow> Inr (gs, st\<lparr>en_allocator := al\<rparr>))"

text \<open>
  The loop of \<open>allocate_many\<close>. The partial batch \<open>out\<close> holds its allocations while more are
  sought; giving up drops it.
\<close>

function many_loop ::
  "('r, 'h, 'l, 'm) engine_env \<Rightarrow> nat \<Rightarrow> nat \<Rightarrow> numa_node option \<Rightarrow> 'h pool_allocation list \<Rightarrow> ('r, 'l, 'm) storage_engine \<Rightarrow>
   (engine_panic + 'h pool_allocation list option \<times> ('r, 'l, 'm) storage_engine) option" where
  "many_loop E sz n numa out st =
     (if \<not> length out < n then Some (Inr (Some out, st))
      else case engine_allocate (E\<lparr>n_shared := \<lambda>g. g \<in> set out \<or> n_shared E g\<rparr>) sz numa st of
             None \<Rightarrow> None
           | Some (Inl e) \<Rightarrow> Some (Inl e)
           | Some (Inr (None, st1)) \<Rightarrow>
               Some (Inr (None, st1\<lparr>en_allocator := drop_guards (n_raw E) out (en_allocator st1)\<rparr>))
           | Some (Inr (Some g, st1)) \<Rightarrow>
               (case pool_allocate_many_step E sz (n - length (out @ [g]))
                       (case numa of None \<Rightarrow> numa_unknown | Some m \<Rightarrow> m) st1 of
                  Inl e \<Rightarrow> Some (Inl e)
                | Inr (rest, st2) \<Rightarrow> many_loop E sz n numa ((out @ [g]) @ rest) st2))"
  by pat_completeness auto
termination by (relation "measure (\<lambda>(E, sz, n, numa, out, st). n - length out)") auto

declare many_loop.simps [simp del]

definition engine_allocate_many ::
  "('r, 'h, 'l, 'm) engine_env \<Rightarrow> nat \<Rightarrow> nat \<Rightarrow> numa_node option \<Rightarrow> ('r, 'l, 'm) storage_engine \<Rightarrow>
   (engine_panic + 'h pool_allocation list option \<times> ('r, 'l, 'm) storage_engine) option" where
  "engine_allocate_many E sz n numa st =
     (case pool_allocate_many_step E sz n (case numa of None \<Rightarrow> numa_unknown | Some m \<Rightarrow> m) st of
        Inl e \<Rightarrow> Some (Inl e)
      | Inr (out, st1) \<Rightarrow> many_loop E sz n numa out st1)"

section \<open>Cache operations\<close>

definition filter_hashes_not_in_cache ::
  "('r, 'h, 'l, 'm) engine_env \<Rightarrow> ('r, 'l, 'm) storage_engine \<Rightarrow> string \<Rightarrow> block_hash list \<Rightarrow> block_hash list" where
  "filter_hashes_not_in_cache E st ns hashes =
     fold (\<lambda>(h, present) hs. if present then filter (\<lambda>x. x \<noteq> h) hs else hs)
       (zip hashes (contains_keys (n_lru E) (en_cache st) (map (\<lambda>h. \<lparr>namespace = ns, hash = h\<rparr>) hashes))) hashes"

definition get_membership ::
  "('r, 'h, 'l, 'm) engine_env \<Rightarrow> string \<Rightarrow> block_hash list \<Rightarrow> ('r, 'l, 'm) storage_engine \<Rightarrow>
   arc_block option list \<times> ('r, 'l, 'm) storage_engine" where
  "get_membership E ns hashes st =
     (case get_blocks_aligned (n_lru E) (n_meta E) (en_cache st) (map (\<lambda>h. \<lparr>namespace = ns, hash = h\<rparr>) hashes) of
        (bs, c) \<Rightarrow> (bs, st\<lparr>en_cache := c\<rparr>))"

definition cleanup_memory_cache ::
  "('r, 'h, 'l, 'm) engine_env \<Rightarrow> ('r, 'l, 'm) storage_engine \<Rightarrow> cleanup_stats \<times> ('r, 'l, 'm) storage_engine" where
  "cleanup_memory_cache E st =
     (let used_before = fst (allocator_usage (n_raw E) (en_allocator st));
          (evicted, c) = remove_all (n_lru E) (n_meta E) (en_cache st);
          st = st\<lparr>en_cache := c\<rparr>
      in if evicted = []
         then (\<lparr>evicted_blocks = 0, evicted_bytes = 0, reclaimed_bytes = 0, still_referenced_blocks = 0\<rparr>, st)
         else let st = drop_evicted E evicted (notify_evicted E evicted st)
              in (\<lparr>evicted_blocks = length evicted, evicted_bytes = footprint_sum evicted,
                   reclaimed_bytes = used_before - fst (allocator_usage (n_raw E) (en_allocator st)),
                   still_referenced_blocks = length (filter (\<lambda>(_, b). n_strong E (arc_id b) > 1) evicted)\<rparr>, st))"

section \<open>Serving transfers\<close>

definition get_blocks_for_transfer ::
  "('r, 'h, 'l, 'm) engine_env \<Rightarrow> block_key list \<Rightarrow> bool \<Rightarrow> ('r, 'l, 'm) storage_engine \<Rightarrow>
   (block_key \<times> arc_block) list \<times> ('r, 'l, 'm) storage_engine" where
  "get_blocks_for_transfer E ks prefix_only st =
     (if \<not> prefix_only
      then (case get_blocks (n_lru E) (n_meta E) (en_cache st) ks of (bs, c) \<Rightarrow> (bs, st\<lparr>en_cache := c\<rparr>))
      else (case get_prefix_blocks (n_lru E) (n_meta E) (en_cache st) ks of
              ((_, bs), c) \<Rightarrow> (zip ks bs, st\<lparr>en_cache := c\<rparr>)))"

definition lock_blocks_for_transfer ::
  "string \<Rightarrow> nat \<Rightarrow> string \<Rightarrow> (block_key \<times> arc_block) list \<Rightarrow> ('r, 'l, 'm) storage_engine \<Rightarrow> ('r, 'l, 'm) storage_engine" where
  "lock_blocks_for_transfer sid now requester bs st = st\<lparr>en_locks := lock_blocks sid now requester bs (en_locks st)\<rparr>"

definition release_transfer_lock ::
  "('r, 'h, 'l, 'm) engine_env \<Rightarrow> string \<Rightarrow> bool \<Rightarrow> ('r, 'l, 'm) storage_engine \<Rightarrow> nat \<times> ('r, 'l, 'm) storage_engine" where
  "release_transfer_lock E sid transferred st =
     (let (locks, ks) = lock_release sid (en_locks st); st = st\<lparr>en_locks := locks\<rparr> in
      if \<not> transferred \<or> ks = [] then (length ks, st)
      else if (case en_client st of None \<Rightarrow> False | Some (_, b) \<Rightarrow> is_backup_target b) then (length ks, st)
      else let (demoted, c) = mark_reclaimable_keys (n_lru E) (n_meta E) (en_cache st) ks
           in (length ks, st\<lparr>en_cache := c, en_client := map_option (\<lambda>(q, b). (q, record_demotions (of_nat demoted) b)) (en_client st)\<rparr>))"

definition engine_set_has_instance :: "bool \<Rightarrow> ('r, 'l, 'm) storage_engine \<Rightarrow> ('r, 'l, 'm) storage_engine" where
  "engine_set_has_instance has st = st\<lparr>en_client := map_option (\<lambda>(q, b). (q, set_has_instance has b)) (en_client st)\<rparr>"

definition gc_expired_transfer_locks :: "nat \<Rightarrow> ('r, 'l, 'm) storage_engine \<Rightarrow> nat \<times> ('r, 'l, 'm) storage_engine" where
  "gc_expired_transfer_locks now st = (case lock_gc_expired now (en_locks st) of (t, n) \<Rightarrow> (n, st\<lparr>en_locks := t\<rparr>))"

definition pinned_memory_regions :: "('r, 'l, 'm) storage_engine \<Rightarrow> (nat \<times> nat) list" where
  "pinned_memory_regions st = memory_regions (en_allocator st)"

section \<open>Invariant\<close>

text \<open>
  \<open>engine_ok\<close>: the allocator hands out exactly the guards \<open>G\<close>, the cache is well formed and
  the allocations of the cached blocks are among them.
\<close>

definition cached :: "('r, 'h, 'l, 'm) engine_env \<Rightarrow> ('r, 'l, 'm) storage_engine \<Rightarrow> block_key \<rightharpoonup> arc_block" where
  "cached E st = resident (n_lru E) (rc_cache (en_cache st))"

definition cached_in :: "('r, 'h, 'l, 'm) engine_env \<Rightarrow> ('r, 'l, 'm) storage_engine \<Rightarrow> 'h pool_allocation set \<Rightarrow> bool" where
  "cached_in E st G \<longleftrightarrow> (\<forall>k b. cached E st k = Some b \<longrightarrow> set (n_guards E b) \<subseteq> G)"

definition engine_ok ::
  "('r, 'h, 'l, 'm) engine_env \<Rightarrow> ('r \<Rightarrow> nat \<Rightarrow> ('h \<times> nat) set \<Rightarrow> bool) \<Rightarrow> ('r, 'l, 'm) storage_engine \<Rightarrow>
   'h pool_allocation set \<Rightarrow> bool" where
  "engine_ok E rep st G \<longleftrightarrow> allocator_inv (n_raw E) rep (en_allocator st) G \<and> rc_inv (n_lru E) (n_meta E) (en_cache st) \<and>
     (\<forall>k b. cached E st k = Some b \<longrightarrow> set (n_guards E b) \<subseteq> G)"

text \<open>
  \<open>shed E st G st' G'\<close>: between the states the cache only lost blocks that nothing else owns,
  and memory was freed only with them.
\<close>

definition shed ::
  "('r, 'h, 'l, 'm) engine_env \<Rightarrow> ('r, 'l, 'm) storage_engine \<Rightarrow> 'h pool_allocation set \<Rightarrow>
   ('r, 'l, 'm) storage_engine \<Rightarrow> 'h pool_allocation set \<Rightarrow> bool" where
  "shed E st G st' G' \<longleftrightarrow> cached E st' \<subseteq>\<^sub>m cached E st \<and>
     (\<forall>k b. cached E st k = Some b \<and> n_strong E (arc_id b) \<noteq> 1 \<longrightarrow> cached E st' k = Some b) \<and>
     G' \<subseteq> G \<and> (\<forall>g \<in> G. n_shared E g \<longrightarrow> g \<in> G') \<and> en_locks st' = en_locks st"

lemma shed_refl: "shed E st G st G"
  by (simp add: shed_def)

lemma shed_trans: "shed E st G st1 G1 \<Longrightarrow> shed E st1 G1 st2 G2 \<Longrightarrow> shed E st G st2 G2"
  by (auto simp: shed_def intro: map_le_trans)

lemma shed_cong:
  "en_cache st' = en_cache st \<Longrightarrow> en_locks st' = en_locks st \<Longrightarrow> shed E st G st' G"
  by (simp add: shed_def cached_def)

lemma drop_guards_inv:
  assumes "raw_laws R rep"
  shows "allocator_inv R rep al G \<Longrightarrow> set gs \<subseteq> G \<Longrightarrow> distinct gs \<Longrightarrow> allocator_inv R rep (drop_guards R gs al) (G - set gs)"
proof (induction gs arbitrary: al G)
  case (Cons g gs)
  have "allocator_inv R rep (drop_allocation R al g) (G - {g})"
    using drop_allocation_inv[OF assms Cons.prems(1)] Cons.prems(2) by simp
  from Cons.IH[OF this] Cons.prems have "allocator_inv R rep (drop_guards R (g # gs) al) (G - {g} - set gs)"
    by (auto simp: drop_guards_def)
  moreover have "G - {g} - set gs = G - set (g # gs)" by auto
  ultimately show ?case by simp
qed (simp add: drop_guards_def)

lemma cached_blocks:
  assumes "lru_laws (n_lru E)"
  shows "x \<in> set (lru_iter (n_lru E) (cache_lru (rc_cache (en_cache st)))) \<longleftrightarrow> cached E st (fst x) = Some (snd x)"
  using lru_lawsD(2)[OF assms] by (cases x) (simp add: cached_def resident_def)

lemma finite_cached: "finite (dom (cached E st))"
  by (simp add: cached_def resident_def finite_dom_map_of)

lemma drop_evicted_ok:
  assumes laws: "raw_laws (n_raw E) rep" "lru_laws (n_lru E)"
    and ok: "allocator_inv (n_raw E) rep (en_allocator st) G" "rc_inv (n_lru E) (n_meta E) (en_cache st)"
    and live: "\<forall>k b. (k, b) \<in> set ev \<or> cached E st k = Some b \<longrightarrow> set (n_guards E b) \<subseteq> G"
  shows "\<exists>G'. engine_ok E rep (drop_evicted E ev st) G' \<and> G' \<subseteq> G \<and> (\<forall>g \<in> G. n_shared E g \<longrightarrow> g \<in> G')"
proof -
  define ds where "ds = dead_guards E (filter (\<lambda>(_, b). n_strong E (arc_id b) = 1) ev) (en_cache st)"
  have d: "distinct ds" by (simp add: ds_def dead_guards_def)
  have s: "set ds \<subseteq> G" using live by (fastforce simp: ds_def dead_guards_def)
  have keep: "set (n_guards E b) \<subseteq> G - set ds" if "cached E st k = Some b" for k b
  proof -
    have "(k, b) \<in> set (lru_iter (n_lru E) (cache_lru (rc_cache (en_cache st))))"
      using that cached_blocks[OF laws(2), of "(k, b)" st] by simp
    then show ?thesis using live that by (force simp: ds_def dead_guards_def)
  qed
  have "allocator_inv (n_raw E) rep (drop_guards (n_raw E) ds (en_allocator st)) (G - set ds)"
    by (rule drop_guards_inv[OF laws(1) ok(1) s d])
  then have "engine_ok E rep (drop_evicted E ev st) (G - set ds)"
    using ok(2) keep by (auto simp: engine_ok_def drop_evicted_def cached_def ds_def)
  moreover have "\<forall>g \<in> G. n_shared E g \<longrightarrow> g \<in> G - set ds" by (auto simp: ds_def dead_guards_def)
  ultimately show ?thesis by blast
qed

lemma evict_round:
  assumes laws: "raw_laws (n_raw E) rep" "lru_laws (n_lru E)" "lru_laws (n_meta E)" and ok: "engine_ok E rep st G"
  shows "\<exists>c ev. remove_lru_batch (n_lru E) (n_meta E) (n_strong E) reclaim_batch_size (en_cache st) = Inr (c, ev) \<and>
    (let st' = drop_evicted E ev (notify_evicted E ev (st\<lparr>en_cache := c\<rparr>)) in
     \<exists>G'. engine_ok E rep st' G' \<and> shed E st G st' G' \<and>
       (ev \<noteq> [] \<longrightarrow> card (dom (cached E st')) < card (dom (cached E st)))) \<and>
    (ev = [] \<longrightarrow> engine_ok E rep (st\<lparr>en_cache := c\<rparr>) G \<and> shed E st G (st\<lparr>en_cache := c\<rparr>) G \<and>
       (\<forall>k b. cached E (st\<lparr>en_cache := c\<rparr>) k = Some b \<longrightarrow> n_strong E (arc_id b) \<noteq> 1))"
proof -
  define C where "C = cached E st"
  have inv: "rc_inv (n_lru E) (n_meta E) (en_cache st)" using ok by (simp add: engine_ok_def)
  obtain c A1 A2 B1 B2 where sh: "batch_evicted (n_lru E) (n_meta E) (n_strong E) reclaim_batch_size (en_cache st) c A1 A2 B1 B2"
    and rm: "remove_lru_batch (n_lru E) (n_meta E) (n_strong E) reclaim_batch_size (en_cache st) =
      Inr (c, victims C (filter (unpinned (n_strong E) C) (A1 @ B1)))"
    using remove_lru_batch_shape[OF laws(2,3) inv] unfolding C_def cached_def by blast
  define free where "free = filter (unpinned (n_strong E) C) (A1 @ B1)"
  define ev where "ev = victims C free"
  define K where "K = fst ` set free"
  define st1 where "st1 = st\<lparr>en_cache := c\<rparr>"
  have rm: "remove_lru_batch (n_lru E) (n_meta E) (n_strong E) reclaim_batch_size (en_cache st) = Inr (c, ev)"
    using rm by (simp add: ev_def free_def)
  have e: "class_items (n_meta E) (en_cache st) Reclaimable = A1 @ A2" "class_items (n_meta E) (en_cache st) Retained = B1 @ B2"
      "cached E st1 = C |` (- K)" "rc_inv (n_lru E) (n_meta E) c" "A2 @ B2 = [] \<or> length free = reclaim_batch_size"
    using sh[unfolded batch_evicted_def Let_def] unfolding C_def cached_def K_def free_def st1_def by simp_all
  have un: "\<exists>b. C k = Some b \<and> n_strong E (arc_id b) = 1" if "k \<in> K" for k
    using that by (auto simp: K_def free_def unpinned_def)
  have pin: "cached E st1 k = Some b" if "C k = Some b" "n_strong E (arc_id b) \<noteq> 1" for k b
    using that un[of k] by (auto simp: e(3) restrict_map_def)
  have le: "C k = Some b" if "cached E st1 k = Some b" for k b
    using that by (simp add: e(3) restrict_map_def split: if_splits)
  have ev: "C k = Some b" if "(k, b) \<in> set ev" for k b
  proof -
    have "k \<in> K" "b = the (C k)" using that by (force simp: ev_def victims_def K_def)+
    then show ?thesis using un[of k] by auto
  qed
  define st2 where "st2 = notify_evicted E ev st1"
  have n: "en_cache st2 = c" "en_allocator st2 = en_allocator st" "en_locks st2 = en_locks st" "cached E st2 = cached E st1"
    by (simp_all add: st2_def st1_def notify_evicted_def cached_def)
  have live: "\<forall>k b. (k, b) \<in> set ev \<or> cached E st2 k = Some b \<longrightarrow> set (n_guards E b) \<subseteq> G"
    using ev le ok unfolding n(4) engine_ok_def C_def by blast
  have al2: "allocator_inv (n_raw E) rep (en_allocator st2) G" "rc_inv (n_lru E) (n_meta E) (en_cache st2)"
    using ok e(4) by (simp_all add: n engine_ok_def)
  obtain G' where G': "engine_ok E rep (drop_evicted E ev st2) G'" "G' \<subseteq> G" "\<forall>g \<in> G. n_shared E g \<longrightarrow> g \<in> G'"
    using drop_evicted_ok[OF laws(1,2) al2 live] by blast
  have cd: "cached E (drop_evicted E ev st2) = cached E st1" "en_locks (drop_evicted E ev st2) = en_locks st"
    by (simp_all add: cached_def drop_evicted_def n) (simp add: n(1) st1_def)
  have sd: "shed E st G (drop_evicted E ev st2) G'"
    unfolding shed_def cd
  proof (intro conjI)
    show "cached E st1 \<subseteq>\<^sub>m cached E st" using le by (auto simp: map_le_def C_def)
    show "\<forall>k b. cached E st k = Some b \<and> n_strong E (arc_id b) \<noteq> 1 \<longrightarrow> cached E st1 k = Some b"
      using pin by (simp add: C_def)
  qed (use G'(2,3) in simp_all)
  have small: "card (dom (cached E st1)) < card (dom C)" if ne: "ev \<noteq> []"
  proof (rule psubset_card_mono)
    show "finite (dom C)" by (simp add: C_def finite_cached)
    obtain k where "k \<in> K" using ne by (cases free) (auto simp: ev_def victims_def K_def)
    with un[of k] show "dom (cached E st1) \<subset> dom C" by (auto simp: e(3))
  qed
  have emp: "free = []" if "ev = []" using that by (simp add: ev_def victims_def)
  have none: "n_strong E (arc_id b) \<noteq> 1" if "ev = []" "cached E st1 k = Some b" for k b
  proof -
    have z: "A2 @ B2 = []" using e(5) emp[OF that(1)] by (auto simp: reclaim_batch_size_def)
    have k: "C k = Some b" by (rule le[OF that(2)])
    have "resident (n_lru E) (rc_cache (en_cache st)) k = Some b" using k by (simp add: C_def cached_def)
    from resident_class_items[OF inv this] obtain x where x: "x \<in> set (A1 @ B1)" "fst x = k"
      using e(1,2) z by force
    then show ?thesis using emp[OF that(1)] k unfolding free_def filter_empty_conv unpinned_def by blast
  qed
  have same: "cached E st1 = C" if "ev = []" using emp[OF that] by (simp add: e(3) K_def)
  have ok1: "engine_ok E rep st1 G" if "ev = []"
    using ok e(4) same[OF that] unfolding engine_ok_def C_def by (simp add: st1_def)
  have sd1: "shed E st G st1 G" if "ev = []"
    using same[OF that] by (simp add: shed_def C_def st1_def)
  show ?thesis
    unfolding Let_def
  proof (intro exI[of _ c] exI[of _ ev] conjI impI)
    show "\<exists>G'. engine_ok E rep (drop_evicted E ev (notify_evicted E ev (st\<lparr>en_cache := c\<rparr>))) G' \<and>
        shed E st G (drop_evicted E ev (notify_evicted E ev (st\<lparr>en_cache := c\<rparr>))) G' \<and>
        (ev \<noteq> [] \<longrightarrow> card (dom (cached E (drop_evicted E ev (notify_evicted E ev (st\<lparr>en_cache := c\<rparr>))))) < card (dom (cached E st)))"
      using G'(1) sd small cd(1) unfolding st2_def st1_def C_def by (intro exI[of _ G']) simp
  qed (use rm ok1 sd1 none in \<open>auto simp: st1_def\<close>)
qed

section \<open>Reclaiming terminates\<close>

definition all_pinned :: "('r, 'h, 'l, 'm) engine_env \<Rightarrow> ('r, 'l, 'm) storage_engine \<Rightarrow> bool" where
  "all_pinned E st \<longleftrightarrow> (\<forall>k b. cached E st k = Some b \<longrightarrow> n_strong E (arc_id b) \<noteq> 1)"

definition env_laws :: "('r, 'h, 'l, 'm) engine_env \<Rightarrow> ('r \<Rightarrow> nat \<Rightarrow> ('h \<times> nat) set \<Rightarrow> bool) \<Rightarrow> bool" where
  "env_laws E rep \<longleftrightarrow> raw_laws (n_raw E) rep \<and> lru_laws (n_lru E) \<and> lru_laws (n_meta E)"

abbreviation free_now :: "('r, 'h, 'l, 'm) engine_env \<Rightarrow> numa_node \<Rightarrow> ('r, 'l, 'm) storage_engine \<Rightarrow> nat" where
  "free_now E node st \<equiv> allocator_largest_free (n_raw E) (en_allocator st) node"

lemma reclaim_loop_spec:
  assumes laws: "env_laws E rep"
  shows "engine_ok E rep st G \<Longrightarrow>
    \<exists>st' G' n tb. reclaim_loop E required node st fb fby (free_now E node st) = Some (Inr (st', fb + n, tb, free_now E node st')) \<and>
      engine_ok E rep st' G' \<and> shed E st G st' G' \<and>
      (n = 0 \<longrightarrow> en_allocator st' = en_allocator st) \<and>
      (0 < n \<longrightarrow> card (dom (cached E st')) < card (dom (cached E st))) \<and>
      (free_now E node st' < required \<longrightarrow> all_pinned E st')"
proof (induction "card (dom (cached E st))" arbitrary: st G fb fby rule: less_induct)
  case less
  note l = laws[unfolded env_laws_def]
  obtain c ev where r: "remove_lru_batch (n_lru E) (n_meta E) (n_strong E) reclaim_batch_size (en_cache st) = Inr (c, ev)"
    and more: "\<exists>G'. engine_ok E rep (drop_evicted E ev (notify_evicted E ev (st\<lparr>en_cache := c\<rparr>))) G' \<and>
        shed E st G (drop_evicted E ev (notify_evicted E ev (st\<lparr>en_cache := c\<rparr>))) G' \<and>
        (ev \<noteq> [] \<longrightarrow> card (dom (cached E (drop_evicted E ev (notify_evicted E ev (st\<lparr>en_cache := c\<rparr>))))) < card (dom (cached E st)))"
    and stop: "ev = [] \<longrightarrow> engine_ok E rep (st\<lparr>en_cache := c\<rparr>) G \<and> shed E st G (st\<lparr>en_cache := c\<rparr>) G \<and>
       (\<forall>k b. cached E (st\<lparr>en_cache := c\<rparr>) k = Some b \<longrightarrow> n_strong E (arc_id b) \<noteq> 1)"
    using evict_round[OF _ _ _ less.prems] l unfolding Let_def by blast
  show ?case
  proof (cases "free_now E node st < required")
    case False
    then show ?thesis using less.prems
      by (intro exI[of _ st] exI[of _ G] exI[of _ 0] exI[of _ fby]) (simp add: reclaim_loop.simps shed_refl)
  next
    case True
    show ?thesis
    proof (cases "ev = []")
      case e: True
      let ?s = "st\<lparr>en_cache := c\<rparr>"
      have "reclaim_loop E required node st fb fby (free_now E node st) = Some (Inr (?s, fb, fby, free_now E node st))"
        using True r e by (simp add: reclaim_loop.simps)
      then show ?thesis using stop e
        by (intro exI[of _ ?s] exI[of _ G] exI[of _ 0] exI[of _ fby]) (simp add: all_pinned_def)
    next
      case e: False
      define s where "s = drop_evicted E ev (notify_evicted E ev (st\<lparr>en_cache := c\<rparr>))"
      obtain G1 where g: "engine_ok E rep s G1" "shed E st G s G1" "card (dom (cached E s)) < card (dom (cached E st))"
        using more e unfolding s_def by blast
      have step: "reclaim_loop E required node st fb fby (free_now E node st) =
          reclaim_loop E required node s (fb + length ev) (saturating_add fby (footprint_sum ev)) (free_now E node s)"
        using True r e by (simp add: reclaim_loop.simps[of E required node st] Let_def s_def)
      obtain st' G' n tb where f: "reclaim_loop E required node s (fb + length ev) (saturating_add fby (footprint_sum ev))
            (free_now E node s) = Some (Inr (st', fb + length ev + n, tb, free_now E node st'))"
          "engine_ok E rep st' G'" "shed E s G1 st' G'" "n = 0 \<longrightarrow> en_allocator st' = en_allocator s"
          "0 < n \<longrightarrow> card (dom (cached E st')) < card (dom (cached E s))" "free_now E node st' < required \<longrightarrow> all_pinned E st'"
        using less.hyps[OF g(3) g(1)] by blast
      have "card (dom (cached E st')) \<le> card (dom (cached E s))"
        using f(3) by (intro card_mono finite_cached) (auto simp: shed_def dest: map_le_implies_dom_le)
      with g f step e shed_trans[OF g(2) f(3)] show ?thesis
        by (intro exI[of _ st'] exI[of _ G'] exI[of _ "length ev + n"] exI[of _ tb]) (simp add: add.assoc)
    qed
  qed
qed

lemma report_pressure_keeps:
  "en_allocator (report_pressure E st) = en_allocator st" "en_cache (report_pressure E st) = en_cache st"
  "en_locks (report_pressure E st) = en_locks st"
  by (simp_all add: report_pressure_def split: option.split prod.split)

lemma same_parts:
  assumes "en_allocator st' = en_allocator st" "en_cache st' = en_cache st" "en_locks st' = en_locks st"
  shows "engine_ok E rep st' G = engine_ok E rep st G" "cached E st' = cached E st" "shed E st0 G0 st' G = shed E st0 G0 st G"
    "all_pinned E st' = all_pinned E st"
  using assms by (simp_all add: engine_ok_def cached_def shed_def all_pinned_def)

lemma reclaim_spec:
  assumes laws: "env_laws E rep" and ok: "engine_ok E rep st G" and sz: "0 < required"
  shows "\<exists>st' G' n tb. reclaim_until_allocator_can_allocate E required node st = Some (Inr (st', n, tb, free_now E node st')) \<and>
      engine_ok E rep st' G' \<and> shed E st G st' G' \<and>
      (n = 0 \<longrightarrow> en_allocator st' = en_allocator st) \<and>
      (0 < n \<longrightarrow> card (dom (cached E st')) < card (dom (cached E st))) \<and>
      (free_now E node st' < required \<longrightarrow> all_pinned E st')"
proof -
  obtain st1 G' n tb where r: "reclaim_loop E required node st 0 0 (free_now E node st) = Some (Inr (st1, 0 + n, tb, free_now E node st1))"
      "engine_ok E rep st1 G'" "shed E st G st1 G'" "n = 0 \<longrightarrow> en_allocator st1 = en_allocator st"
      "0 < n \<longrightarrow> card (dom (cached E st1)) < card (dom (cached E st))" "free_now E node st1 < required \<longrightarrow> all_pinned E st1"
    using reclaim_loop_spec[OF laws ok] by blast
  define st' where "st' = (if 0 < n then report_pressure E st1 else st1)"
  have p: "en_allocator st' = en_allocator st1" "en_cache st' = en_cache st1" "en_locks st' = en_locks st1"
    by (simp_all add: st'_def report_pressure_keeps)
  have "reclaim_until_allocator_can_allocate E required node st = Some (Inr (st', n, tb, free_now E node st'))"
    using r(1) sz by (simp add: reclaim_until_allocator_can_allocate_def Let_def st'_def report_pressure_keeps)
  then show ?thesis using r(2-6) by (intro exI[of _ st'] exI[of _ G'] exI[of _ n] exI[of _ tb]) (simp add: same_parts[OF p] p(1))
qed

lemma pool_allocate_step_spec:
  assumes laws: "env_laws E rep" and ok: "engine_ok E rep st G" and sz: "0 < sz"
  shows "\<exists>g st'. pool_allocate_step E sz node st = Inr (g, st') \<and> en_cache st' = en_cache st \<and> en_locks st' = en_locks st \<and>
    (case g of None \<Rightarrow> engine_ok E rep st' G \<and> free_now E node st' < sz
     | Some x \<Rightarrow> engine_ok E rep st' (insert x G) \<and> cached_in E st' G \<and> x \<notin> G \<and> sz \<le> size_bytes (pa_allocation x))"
proof -
  have l: "raw_laws (n_raw E) rep" using laws by (simp add: env_laws_def)
  have inv: "allocator_inv (n_raw E) rep (en_allocator st) G" using ok by (simp add: engine_ok_def)
  obtain g al' where g: "allocator_allocate (n_raw E) (en_allocator st) sz node = Inr (g, al')"
      "allocator_step (n_raw E) rep sz G (case g of None \<Rightarrow> [] | Some x \<Rightarrow> [x]) al'"
      "g = None \<longrightarrow> target_exhausted (n_raw E) sz al' node"
    using allocator_allocate_step[OF l sz inv] by blast
  let ?st' = "st\<lparr>en_allocator := al'\<rparr>"
  have c: "cached E ?st' = cached E st" by (simp add: cached_def)
  show ?thesis
  proof (cases g)
    case None
    then have "allocator_inv (n_raw E) rep al' G" using g(2) by (simp add: allocator_step_def)
    with None g(3) exhausted_largest_free[OF l sz] have "free_now E node ?st' < sz" by simp
    with None g(1) ok \<open>allocator_inv (n_raw E) rep al' G\<close> show ?thesis
      by (intro exI[of _ None] exI[of _ ?st']) (simp add: pool_allocate_step_def engine_ok_def c)
  next
    case (Some x)
    then have "allocator_inv (n_raw E) rep al' (insert x G)" "x \<notin> G" "sz \<le> size_bytes (pa_allocation x)"
      using g(2) by (simp_all add: allocator_step_def)
    with Some g(1) ok show ?thesis
      by (intro exI[of _ "Some x"] exI[of _ ?st']) (auto simp: pool_allocate_step_def engine_ok_def cached_in_def c)
  qed
qed

text \<open>What an allocation leaves: memory from \<open>G'\<close>, a fresh guard or nothing evictable.\<close>

definition allocated ::
  "('r, 'h, 'l, 'm) engine_env \<Rightarrow> ('r \<Rightarrow> nat \<Rightarrow> ('h \<times> nat) set \<Rightarrow> bool) \<Rightarrow> nat \<Rightarrow> numa_node \<Rightarrow>
   'h pool_allocation option \<Rightarrow> ('r, 'l, 'm) storage_engine \<Rightarrow> 'h pool_allocation set \<Rightarrow> bool" where
  "allocated E rep sz node g st' G' \<longleftrightarrow>
     (case g of None \<Rightarrow> engine_ok E rep st' G' \<and> free_now E node st' < sz \<and> all_pinned E st'
      | Some x \<Rightarrow> engine_ok E rep st' (insert x G') \<and> cached_in E st' G' \<and> x \<notin> G' \<and> sz \<le> size_bytes (pa_allocation x))"

lemma allocate_loop_spec:
  assumes laws: "env_laws E rep" and sz: "0 < sz"
  shows "engine_ok E rep st G \<Longrightarrow> \<exists>g st' G'. allocate_loop E sz node st = Some (Inr (g, st')) \<and> shed E st G st' G' \<and>
    allocated E rep sz node g st' G'"
proof (induction "card (dom (cached E st))" arbitrary: st G rule: less_induct)
  case less
  obtain g st1 where a: "pool_allocate_step E sz node st = Inr (g, st1)" "en_cache st1 = en_cache st" "en_locks st1 = en_locks st"
      "case g of None \<Rightarrow> engine_ok E rep st1 G \<and> free_now E node st1 < sz
       | Some x \<Rightarrow> engine_ok E rep st1 (insert x G) \<and> cached_in E st1 G \<and> x \<notin> G \<and> sz \<le> size_bytes (pa_allocation x)"
    using pool_allocate_step_spec[OF laws less.prems sz] by blast
  have sh: "shed E st G st1 G" using a(2,3) by (rule shed_cong)
  show ?case
  proof (cases g)
    case (Some x)
    with a sh show ?thesis
      by (intro exI[of _ "Some x"] exI[of _ st1] exI[of _ G]) (simp add: allocate_loop.simps allocated_def)
  next
    case None
    with a(4) have ok1: "engine_ok E rep st1 G" "free_now E node st1 < sz" by simp_all
    obtain st2 G2 n tb where r: "reclaim_until_allocator_can_allocate E sz node st1 = Some (Inr (st2, n, tb, free_now E node st2))"
        "engine_ok E rep st2 G2" "shed E st1 G st2 G2" "n = 0 \<longrightarrow> en_allocator st2 = en_allocator st1"
        "0 < n \<longrightarrow> card (dom (cached E st2)) < card (dom (cached E st1))" "free_now E node st2 < sz \<longrightarrow> all_pinned E st2"
      using reclaim_spec[OF laws ok1(1) sz] by blast
    have sh2: "shed E st G st2 G2" by (rule shed_trans[OF sh r(3)])
    show ?thesis
    proof (cases "n = 0")
      case True
      with r(4) ok1(2) have f: "free_now E node st2 < sz" by simp
      obtain g3 st3 where t: "pool_allocate_step E sz node st2 = Inr (g3, st3)" "en_cache st3 = en_cache st2"
          "en_locks st3 = en_locks st2"
          "case g3 of None \<Rightarrow> engine_ok E rep st3 G2 \<and> free_now E node st3 < sz
           | Some x \<Rightarrow> engine_ok E rep st3 (insert x G2) \<and> cached_in E st3 G2 \<and> x \<notin> G2 \<and> sz \<le> size_bytes (pa_allocation x)"
        using pool_allocate_step_spec[OF laws r(2) sz] by blast
      have "all_pinned E st3" using r(6) f t(2) by (simp add: all_pinned_def cached_def)
      then have "allocated E rep sz node g3 st3 G2" using t(4) by (auto simp: allocated_def split: option.splits)
      moreover have "allocate_loop E sz node st = Some (Inr (g3, st3))"
        using a(1) None r(1) True f t(1) by (simp add: allocate_loop.simps)
      ultimately show ?thesis using shed_trans[OF sh2 shed_cong[OF t(2,3)]] by blast
    next
      case False
      then have "card (dom (cached E st2)) < card (dom (cached E st))" using r(5) a(2) by (simp add: cached_def)
      from less.hyps[OF this r(2)] obtain g3 st3 G3 where t: "allocate_loop E sz node st2 = Some (Inr (g3, st3))"
          "shed E st2 G2 st3 G3" "allocated E rep sz node g3 st3 G3" by blast
      have "allocate_loop E sz node st = Some (Inr (g3, st3))"
        using a(1) None r(1) False t(1) by (simp add: allocate_loop.simps[of E sz node st])
      with t(2,3) shed_trans[OF sh2] show ?thesis by blast
    qed
  qed
qed

lemma pool_allocate_many_step_spec:
  assumes laws: "env_laws E rep" and ok: "engine_ok E rep st G" and sz: "0 < sz"
  shows "\<exists>gs st'. pool_allocate_many_step E sz n node st = Inr (gs, st') \<and> en_cache st' = en_cache st \<and>
    en_locks st' = en_locks st \<and> engine_ok E rep st' (G \<union> set gs) \<and> distinct gs \<and> set gs \<inter> G = {} \<and> length gs \<le> n \<and>
    (\<forall>g \<in> set gs. sz \<le> size_bytes (pa_allocation g))"
proof -
  have l: "raw_laws (n_raw E) rep" using laws by (simp add: env_laws_def)
  have inv: "allocator_inv (n_raw E) rep (en_allocator st) G" using ok by (simp add: engine_ok_def)
  obtain gs al' where g: "allocator_allocate_many (n_raw E) (en_allocator st) sz n node = Inr (gs, al')"
      "allocator_step (n_raw E) rep sz G gs al'" "length gs \<le> n"
    using allocator_allocate_many_step[OF l sz inv] by blast
  have c: "cached E (st\<lparr>en_allocator := al'\<rparr>) = cached E st" by (simp add: cached_def)
  from g ok show ?thesis
    by (intro exI[of _ gs] exI[of _ "st\<lparr>en_allocator := al'\<rparr>"])
      (fastforce simp: pool_allocate_many_step_def allocator_step_def engine_ok_def c)
qed

text \<open>A batch under construction: its guards are live, distinct, large enough and no cached block uses them.\<close>

definition batch_ok ::
  "('r, 'h, 'l, 'm) engine_env \<Rightarrow> ('r \<Rightarrow> nat \<Rightarrow> ('h \<times> nat) set \<Rightarrow> bool) \<Rightarrow> nat \<Rightarrow> 'h pool_allocation list \<Rightarrow>
   ('r, 'l, 'm) storage_engine \<Rightarrow> 'h pool_allocation set \<Rightarrow> bool" where
  "batch_ok E rep sz out st G \<longleftrightarrow> engine_ok E rep st G \<and> set out \<subseteq> G \<and> distinct out \<and>
     (\<forall>g \<in> set out. sz \<le> size_bytes (pa_allocation g)) \<and>
     (\<forall>k b. cached E st k = Some b \<longrightarrow> set (n_guards E b) \<inter> set out = {})"

lemma batch_ok_extend:
  assumes "batch_ok E rep sz out st G" and "en_cache st' = en_cache st" and "engine_ok E rep st' (G \<union> set gs)"
    and "distinct gs" "set gs \<inter> G = {}" "\<forall>g \<in> set gs. sz \<le> size_bytes (pa_allocation g)"
  shows "batch_ok E rep sz (out @ gs) st' (G \<union> set gs)"
proof -
  have c: "cached E st' = cached E st" using assms(2) by (simp add: cached_def)
  have "set (n_guards E b) \<inter> set (out @ gs) = {}" if "cached E st k = Some b" for k b
  proof -
    have "set (n_guards E b) \<subseteq> G" "set (n_guards E b) \<inter> set out = {}"
      using assms(1) that by (auto simp: batch_ok_def engine_ok_def)
    then show ?thesis using assms(5) by auto
  qed
  then show ?thesis using assms unfolding batch_ok_def c by auto
qed

lemma batch_dropped:
  assumes "env_laws E rep" and "batch_ok E rep sz out st G"
  shows "engine_ok E rep (st\<lparr>en_allocator := drop_guards (n_raw E) out (en_allocator st)\<rparr>) (G - set out)"
proof -
  have "allocator_inv (n_raw E) rep (drop_guards (n_raw E) out (en_allocator st)) (G - set out)"
    using assms drop_guards_inv[of "n_raw E" rep "en_allocator st" G out]
    by (simp add: env_laws_def batch_ok_def engine_ok_def)
  moreover have "set (n_guards E b) \<subseteq> G - set out" if "cached E st k = Some b" for k b
    using assms(2) that unfolding batch_ok_def engine_ok_def by blast
  ultimately show ?thesis using assms(2) by (simp add: batch_ok_def engine_ok_def cached_def)
qed

lemma shared_env:
  "env_laws (E\<lparr>n_shared := f\<rparr>) rep = env_laws E rep" "engine_ok (E\<lparr>n_shared := f\<rparr>) rep st G = engine_ok E rep st G"
  "all_pinned (E\<lparr>n_shared := f\<rparr>) st = all_pinned E st" "cached (E\<lparr>n_shared := f\<rparr>) = cached E"
proof -
  show c: "cached (E\<lparr>n_shared := f\<rparr>) = cached E" by (simp add: cached_def fun_eq_iff)
  show "env_laws (E\<lparr>n_shared := f\<rparr>) rep = env_laws E rep" "engine_ok (E\<lparr>n_shared := f\<rparr>) rep st G = engine_ok E rep st G"
    "all_pinned (E\<lparr>n_shared := f\<rparr>) st = all_pinned E st"
    by (simp_all add: env_laws_def engine_ok_def all_pinned_def c)
qed

lemma many_loop_spec:
  assumes laws: "env_laws E rep" and sz: "0 < sz"
  defines "node numa \<equiv> (case numa of None \<Rightarrow> numa_unknown | Some m \<Rightarrow> m)"
  shows "batch_ok E rep sz out st G \<Longrightarrow> length out \<le> n \<Longrightarrow>
    \<exists>r st' G'. many_loop E sz n numa out st = Some (Inr (r, st')) \<and>
      (case r of
         Some gs \<Rightarrow> length gs = n \<and> batch_ok E rep sz gs st' G' \<and> shed E st (G - set out) st' (G' - set gs)
       | None \<Rightarrow> engine_ok E rep st' G' \<and> shed E st (G - set out) st' G' \<and> all_pinned E st')"
proof (induction "n - length out" arbitrary: out st G rule: less_induct)
  case less
  show ?case
  proof (cases "length out < n")
    case False
    with less.prems show ?thesis
      by (intro exI[of _ "Some out"] exI[of _ st] exI[of _ G]) (simp add: many_loop.simps shed_refl)
  next
    case True
    let ?E = "E\<lparr>n_shared := \<lambda>g. g \<in> set out \<or> n_shared E g\<rparr>"
    have ok: "engine_ok ?E rep st G" using less.prems(1) by (simp add: shared_env batch_ok_def)
    obtain g st1 G1 where a: "allocate_loop ?E sz (node numa) st = Some (Inr (g, st1))" "shed ?E st G st1 G1"
        "allocated ?E rep sz (node numa) g st1 G1"
      using allocate_loop_spec[OF _ sz ok, of "node numa"] laws unfolding shared_env by blast
    then have e: "engine_allocate ?E sz numa st = Some (Inr (g, st1))" by (simp add: engine_allocate_def node_def)
    have sub: "set out \<subseteq> G1" "cached E st1 \<subseteq>\<^sub>m cached E st"
      using a(2) less.prems(1) by (auto simp: shed_def shared_env batch_ok_def)
    have out: "set (n_guards E b) \<inter> set out = {}" if "cached E st1 k = Some b" for k b
    proof -
      have "cached E st k = Some b" using sub(2) that by (force simp: map_le_def dom_def)
      then show ?thesis using less.prems(1) by (simp add: batch_ok_def)
    qed
    have sh: "shed E st (G - set out) st1 (G1 - set out)"
      using a(2) by (auto simp: shed_def shared_env)
    have b1: "batch_ok E rep sz out st1 G1" if "engine_ok E rep st1 G1"
      using that sub(1) less.prems(1) out by (simp add: batch_ok_def)
    show ?thesis
    proof (cases g)
      case None
      with a(3) have n: "engine_ok E rep st1 G1" "all_pinned E st1" by (simp_all add: allocated_def shared_env)
      let ?st' = "st1\<lparr>en_allocator := drop_guards (n_raw E) out (en_allocator st1)\<rparr>"
      have "many_loop E sz n numa out st = Some (Inr (None, ?st'))"
        using True e None by (simp add: many_loop.simps)
      moreover have "shed E st (G - set out) ?st' (G1 - set out)" using sh by (simp add: shed_def cached_def)
      moreover have "all_pinned E ?st'" using n(2) by (simp add: all_pinned_def cached_def)
      ultimately show ?thesis using batch_dropped[OF laws b1[OF n(1)]]
        by (intro exI[of _ None] exI[of _ ?st'] exI[of _ "G1 - set out"]) simp
    next
      case (Some x)
      with a(3) have x: "engine_ok E rep st1 (insert x G1)" "x \<notin> G1" "sz \<le> size_bytes (pa_allocation x)"
        by (simp_all add: allocated_def shared_env)
      have c1: "cached_in E st1 G1" using a(3) Some by (simp add: allocated_def cached_in_def shared_env)
      let ?out = "out @ [x]" and ?G = "insert x G1"
      have b2: "batch_ok E rep sz ?out st1 ?G"
      proof -
        have "set (n_guards E b) \<inter> set ?out = {}" if "cached E st1 k = Some b" for k b
        proof -
          have "set (n_guards E b) \<subseteq> G1" using c1 that by (simp add: cached_in_def)
          then show ?thesis using x(2) out[OF that] by auto
        qed
        moreover have "distinct ?out" using x(2) sub(1) less.prems(1) by (auto simp: batch_ok_def)
        moreover have "set ?out \<subseteq> ?G" using sub(1) by auto
        moreover have "\<forall>g \<in> set ?out. sz \<le> size_bytes (pa_allocation g)" using x(3) less.prems(1) by (simp add: batch_ok_def)
        ultimately show ?thesis using x(1) unfolding batch_ok_def by blast
      qed
      obtain gs st2 where m: "pool_allocate_many_step E sz (n - length ?out) (node numa) st1 = Inr (gs, st2)"
          "en_cache st2 = en_cache st1" "en_locks st2 = en_locks st1" "engine_ok E rep st2 (?G \<union> set gs)" "distinct gs"
          "set gs \<inter> ?G = {}" "length gs \<le> n - length ?out" "\<forall>g \<in> set gs. sz \<le> size_bytes (pa_allocation g)"
        using pool_allocate_many_step_spec[OF laws x(1) sz] by blast
      have b3: "batch_ok E rep sz (?out @ gs) st2 (?G \<union> set gs)" by (rule batch_ok_extend[OF b2 m(2,4,5,6,8)])
      have d: "?G \<union> set gs - set (?out @ gs) = G1 - set out" using m(6) x(2) by auto
      have sh2: "shed E st (G - set out) st2 (?G \<union> set gs - set (?out @ gs))"
        unfolding d using shed_trans[OF sh shed_cong[OF m(2,3)]] .
      have step: "many_loop E sz n numa out st = many_loop E sz n numa (?out @ gs) st2"
        using True e Some m(1) by (simp add: many_loop.simps[of E sz n numa out st] node_def)
      have "n - length (?out @ gs) < n - length out" "length (?out @ gs) \<le> n" using True m(7) by simp_all
      from less.hyps[OF this(1) b3 this(2)] obtain r st' G' where t: "many_loop E sz n numa (?out @ gs) st2 = Some (Inr (r, st'))"
          "case r of
             Some hs \<Rightarrow> length hs = n \<and> batch_ok E rep sz hs st' G' \<and> shed E st2 (?G \<union> set gs - set (?out @ gs)) st' (G' - set hs)
           | None \<Rightarrow> engine_ok E rep st' G' \<and> shed E st2 (?G \<union> set gs - set (?out @ gs)) st' G' \<and> all_pinned E st'" by blast
      show ?thesis unfolding step using t shed_trans[OF sh2]
        by (intro exI[of _ r] exI[of _ st'] exI[of _ G']) (auto split: option.splits)
    qed
  qed
qed

section \<open>Properties\<close>

lemma reachable_engine_ok:
  assumes "raw_laws (n_raw E) rep" and "memory_laws mem" and "lru_laws (n_lru E)" and "lru_laws (n_meta E)"
    and "alloc_reach (n_raw E) mem pin (en_allocator st) G" and "rc_reach (n_lru E) (n_meta E) (en_cache st)" and "cached_in E st G"
  shows "env_laws E rep" "engine_ok E rep st G"
  using assms alloc_reach_inv[OF assms(1,2,5)] rc_reach_inv[OF assms(3,4,6)]
  by (simp_all add: env_laws_def engine_ok_def cached_in_def)

lemma shedD:
  assumes "shed E st G st' G'"
  shows "cached E st' k = Some b \<Longrightarrow> cached E st k = Some b"
    and "cached E st k = Some b \<Longrightarrow> n_strong E (arc_id b) \<noteq> 1 \<Longrightarrow> cached E st' k = Some b"
    and "g \<in> G \<Longrightarrow> n_shared E g \<Longrightarrow> g \<in> G'" and "en_locks st' = en_locks st" and "G' \<subseteq> G"
proof -
  have le: "cached E st' \<subseteq>\<^sub>m cached E st" using assms by (simp add: shed_def)
  show "cached E st k = Some b" if "cached E st' k = Some b"
    using le that by (force simp: map_le_def dom_def)
  show "cached E st' k = Some b" if "cached E st k = Some b" "n_strong E (arc_id b) \<noteq> 1"
    using assms that unfolding shed_def by blast
  show "g \<in> G'" if "g \<in> G" "n_shared E g" using assms that unfolding shed_def by blast
  show "en_locks st' = en_locks st" "G' \<subseteq> G" using assms by (simp_all add: shed_def)
qed

text \<open>
  C4. Allocation always ends, without panic, and evicts only what it may. On a reachable
  allocator and cache, \<open>allocate\<close> evicts only blocks nothing else owns and gives either a
  region of at least the requested size, whose memory neither a cached block nor any other
  holder uses, or nothing; nothing only when the target reports no free region that large and
  every block left in the cache is in use.
\<close>

theorem allocation_reclaims:
  assumes "raw_laws (n_raw E) rep" and "memory_laws mem" and "lru_laws (n_lru E)" and "lru_laws (n_meta E)"
    and "alloc_reach (n_raw E) mem pin (en_allocator st) G" and "rc_reach (n_lru E) (n_meta E) (en_cache st)"
    and "cached_in E st G" and "0 < sz"
  shows "\<exists>g st'. engine_allocate E sz numa st = Some (Inr (g, st')) \<and>
    (\<forall>k b. cached E st' k = Some b \<longrightarrow> cached E st k = Some b) \<and>
    (\<forall>k b. cached E st k = Some b \<and> n_strong E (arc_id b) \<noteq> 1 \<longrightarrow> cached E st' k = Some b) \<and>
    (case g of
       Some x \<Rightarrow> sz \<le> size_bytes (pa_allocation x) \<and> (x \<in> G \<longrightarrow> \<not> n_shared E x) \<and>
         (\<forall>k b. cached E st' k = Some b \<longrightarrow> x \<notin> set (n_guards E b))
     | None \<Rightarrow> allocator_largest_free (n_raw E) (en_allocator st') (case numa of None \<Rightarrow> numa_unknown | Some m \<Rightarrow> m) < sz \<and>
         (\<forall>k b. cached E st' k = Some b \<longrightarrow> n_strong E (arc_id b) \<noteq> 1))"
proof -
  note ok = reachable_engine_ok[OF assms(1-7)]
  let ?node = "case numa of None \<Rightarrow> numa_unknown | Some m \<Rightarrow> m"
  obtain g st' G' where a: "allocate_loop E sz ?node st = Some (Inr (g, st'))" "shed E st G st' G'"
      "allocated E rep sz ?node g st' G'"
    using allocate_loop_spec[OF ok(1) assms(8) ok(2)] by blast
  note sh = shedD[OF a(2)]
  show ?thesis
  proof (intro exI[of _ g] exI[of _ st'] conjI)
    show "engine_allocate E sz numa st = Some (Inr (g, st'))" using a(1) by (simp add: engine_allocate_def)
    show "\<forall>k b. cached E st' k = Some b \<longrightarrow> cached E st k = Some b" using sh(1) by blast
    show "\<forall>k b. cached E st k = Some b \<and> n_strong E (arc_id b) \<noteq> 1 \<longrightarrow> cached E st' k = Some b" using sh(2) by blast
    show "case g of
       Some x \<Rightarrow> sz \<le> size_bytes (pa_allocation x) \<and> (x \<in> G \<longrightarrow> \<not> n_shared E x) \<and>
         (\<forall>k b. cached E st' k = Some b \<longrightarrow> x \<notin> set (n_guards E b))
     | None \<Rightarrow> free_now E ?node st' < sz \<and> (\<forall>k b. cached E st' k = Some b \<longrightarrow> n_strong E (arc_id b) \<noteq> 1)"
      using a(3) sh(3) unfolding allocated_def cached_in_def all_pinned_def by (cases g) auto
  qed
qed


section \<open>Example\<close>

definition wengine_env ::
  "(bump_heap, nat \<times> nat, (block_key \<times> arc_block) list, (block_key \<times> resident_metadata) list) engine_env" where
  "wengine_env = \<lparr>n_raw = bump_ops, n_lru = list_lru, n_meta = list_lru, n_cfg = \<lparr>capacity_bytes = 4096, backup_reclaimable_percent = 10\<rparr>,
     n_strong = wowners, n_guards = \<lambda>_. [wguard 0 2], n_shared = \<lambda>_. False, n_order = id\<rparr>"

definition wengine ::
  "(bump_heap, (block_key \<times> arc_block) list, (block_key \<times> resident_metadata) list) storage_engine" where
  "wengine = \<lparr>en_allocator = wpool 3 [(2, 1), (0, 2)] 2, en_cache = wcache, en_client = None, en_locks = transfer_locks_new 10\<rparr>"

lemma wengine_parts:
  "raw_laws (n_raw wengine_env) bump_rep" "lru_laws (n_lru wengine_env)" "lru_laws (n_meta wengine_env)"
  "alloc_reach (n_raw wengine_env) wmem (\<lambda>_. True) (en_allocator wengine) {wguard 0 2, wguard 2 1}"
  "rc_reach (n_lru wengine_env) (n_meta wengine_env) (en_cache wengine)"
  "cached_in wengine_env wengine {wguard 0 2, wguard 2 1}"
  using bump_laws list_lru_laws wpool_reach wcache_reach
  by (simp_all add: wengine_env_def wengine_def cached_in_def)

theorem allocation_reclaims_witness:
  "\<exists>g st'. engine_allocate wengine_env 512 None wengine = Some (Inr (g, st'))"
  using allocation_reclaims[OF wengine_parts(1) wmem_laws wengine_parts(2-6), of 512 None] by fastforce


end
