(* ===== verification/Spec2Isabelle.thy ===== *)
theory Spec2Isabelle
  imports Kv_Layout Ssd_Prefetch Write_Path Pd_Wire Hll Meta_Registration Storage_Engine
begin

text \<open>
  \<^bold>\<open>Pegaflow: a verification of its storage, metadata and wire layers.\<close>

  \<^bold>\<open>The program.\<close> Pegaflow keeps KV-cache blocks of inference servers outside the GPU. A storage
  node (\<open>pegaflow-core\<close>) copies blocks between GPU buffers and pinned host memory, keeps sealed
  blocks in a read cache, spills them to an SSD ring and serves them to other nodes. A MetaServer
  (\<open>pegaflow-metaserver\<close>) records which node owns which block hash, answers prefix queries with
  fetch plans and plans backups from prefill nodes to decode nodes. Prefill and decode workers
  agree on a push of blocks by a handshake (\<open>pegaflow-pd-wire\<close>). A block's life runs through the
  parts in this order: its bytes are located by the layout, placed in memory from the pinned
  pools, assembled and sealed by the save path, published to the read cache, the SSD ring and the
  MetaServer, found again by prefix lookups, held by leases and transfer locks while it is read,
  and evicted when an allocation needs its memory.

  \<^bold>\<open>Theories and sources\<close> (paths under \<open>src/\<close>; operations keep the names of the source, with a
  prefix where a name is taken).
  \<^item> \<open>Pega_Prelude\<close>: machine integers as words, the checked and saturating operations of the Rust
    standard library, results as sums, and the locale \<open>prefix_index\<close> for longest-prefix lookups.
  \<^item> \<open>Kv_Layout\<close> (\<open>pegaflow-core/src/layout.rs\<close>): the record \<open>kv_layout\<close>, its constructors
    and \<open>block_copies\<close>. Accepted layouts are well-formed; every copy is inside the registered region
    and no two copies overlap.
  \<^item> \<open>Block_Model\<close> (\<open>pegaflow-common/src/block.rs\<close>, \<open>pegaflow-core/src/block.rs\<close>,
    \<open>seal_offload.rs\<close>): keys, raw, inflight and sealed blocks, I/O vectors and reconstruction.
  \<^item> \<open>Ssd_Ring\<close>, \<open>Ssd_Prefetch\<close> (\<open>backing/ssd_cache.rs\<close>, \<open>backing/ssd.rs\<close>): the sharded ring
    with its index and FIFO, batch preparation, commit and prefix submission; the dispatcher's chunks,
    tasks and completions. Readable entries never overlap, a read that validates was not overwritten,
    and a rebuilt block is the recorded one.
  \<^item> \<open>Tiny_Lfu\<close> (\<open>cache.rs\<close>), \<open>Read_Cache\<close> (\<open>storage/read_cache.rs\<close>): the admission sketch and
    the two-class cache with generations, demotion, eviction and backup candidates.
  \<^item> \<open>Write_Path\<close> (\<open>offload.rs\<close>, \<open>storage/write_path.rs\<close>): regrouping of saved batches and the
    insert worker.
  \<^item> \<open>Query_Lease\<close> (\<open>lease.rs\<close>), \<open>Transfer_Lock\<close> (\<open>storage/transfer_lock.rs\<close>): the holders of
    blocks, as histories of operations.
  \<^item> \<open>Scaled_Alloc\<close> (\<open>allocator.rs\<close>), \<open>Pinned_Pool\<close> (\<open>pinned_pool.rs\<close>, \<open>pinned_mem.rs\<close>): byte
    allocation over a unit allocator, pools, shards and NUMA nodes. Live guards are disjoint.
  \<^item> \<open>Storage_Engine\<close> (\<open>storage/mod.rs\<close>): allocation that evicts under pressure, batch allocation,
    clean-up and the serving side of transfers, over the pools, the cache, the locks and the client.
  \<^item> \<open>Meta_Store\<close>, \<open>Meta_Queries\<close> (\<open>pegaflow-metaserver/src/store.rs\<close>): sessions and ownership
    with each guarded section of the code as one step, so that lemmas speak of every interleaving.
  \<^item> \<open>Backup_Plan\<close> (\<open>backup.rs\<close>), \<open>Meta_Service\<close> (\<open>service.rs\<close>): the pairing and the planner, and
    the RPC handlers with their validation.
  \<^item> \<open>Meta_Client\<close>, \<open>Meta_Heartbeat\<close>, \<open>Meta_Registration\<close> (\<open>internode/metaserver_client.rs\<close>): the
    client's queue, netting, chunked requests, heartbeats and registration loop. The locale
    \<open>ownership_server\<close> is what the client expects of the server; it is interpreted on the handlers
    of \<open>Meta_Service\<close> behind a transport that may fail before or after the call.
  \<^item> \<open>Pd_Wire\<close> (\<open>pegaflow-pd-wire/src/lib.rs\<close>): the handshake, its validation and its immediates.
  \<^item> \<open>Hll\<close> (\<open>pegaflow-common/src/hll.rs\<close>): sketches and the sliding windows over them, refining
    windows of sets.

  \<^bold>\<open>State, errors, loops.\<close> A struct is a record, an enum a datatype; an operation takes and returns
  the record. Panics, early returns and error statuses are the left side of a sum. Counters that may
  wrap are words; where a source counter is a natural number the overflow panic is written out.
  Loops are structural recursion or a function with a measure; the two loops of the allocation path
  that the code does not bound (\<open>reclaim_loop\<close>, \<open>allocate_loop\<close>) are partial functions whose value
  is \<open>None\<close> when they do not return, and \<open>allocation_reclaims\<close> shows that they do. There is no
  fuel in the development. Concurrency is modelled where the code relies on it: the store's clients
  interleave at the guarded sections, sweeps occur anywhere in a history of leases and locks, and a
  reference count is an argument that can change between steps.

  \<^bold>\<open>Code outside the repository\<close> is an argument with the laws it documents: the hash-linked LRU map
  (\<open>lru_laws\<close>), the concurrent map (\<open>map_laws\<close>), the offset allocator (\<open>raw_laws\<close>), mapped and
  pinned memory (\<open>memory_laws\<close>), the JSON printer and parser, the gRPC transport, the clock, hash
  iteration order, standard hashers and floating-point results. Each law is met by an instance
  that the witnesses use.

  \<^bold>\<open>Across components\<close>, this theory shows that memory held by a transfer session or a lease is
  never given out again by an allocation.

  \<^bold>\<open>Findings.\<close> Five observations are recorded beside the theorems: an expired SSD entry blocks a
  rewrite of its block until the ring wraps, a commit can publish another pending write of the same
  key, a rejected heartbeat never backs off, a comment on the layout differs from the code, and the
  leading-zero count of the sketch overflows on a hash of sufficiently many zero bytes.

  \<^bold>\<open>Not modelled.\<close> Device and kernel I/O: io_uring, CUDA copies and kernels, RDMA queue pairs
  (\<open>pegaflow-transfer\<close>) and the block fetch that drives them. Task scheduling over tokio channels:
  the select loops of the dispatcher and the prefetch scheduler, and the backup executor. Front ends
  that convert arguments: the engine and MetaServer processes, the router, the peer-to-peer
  adapter and the Python bindings. Plugins written against vLLM, torch and NIXL. Metrics,
  logging, generated message types, benchmarks and examples.
\<close>

section \<open>Held blocks survive allocation\<close>

text \<open>
  The owners of a cached block: the cache itself, the transfer sessions that locked it, the
  query leases that hold it and \<open>others\<close>.
\<close>

definition session_refs :: "transfer_locks \<Rightarrow> nat \<Rightarrow> nat" where
  "session_refs t i = sum_list (map (\<lambda>(_, s). length (filter (\<lambda>(_, b). arc_id b = i) (ts_blocks s))) (tl_sessions t))"

definition lease_refs :: "query_lease list \<Rightarrow> nat \<Rightarrow> nat" where
  "lease_refs ls i = sum_list (map (\<lambda>l. length (filter (\<lambda>b. arc_id b = i) (lease_blocks l))) ls)"

definition block_owners :: "transfer_locks \<Rightarrow> query_lease list \<Rightarrow> (nat \<Rightarrow> nat) \<Rightarrow> nat \<Rightarrow> nat" where
  "block_owners t ls others i = 1 + session_refs t i + lease_refs ls i + others i"

text \<open>A block is held when a live transfer session or a live lease contains it.\<close>

definition held :: "transfer_locks \<Rightarrow> query_lease list \<Rightarrow> arc_block \<Rightarrow> bool" where
  "held t ls b \<longleftrightarrow> (\<exists>s \<in> set (tl_sessions t). b \<in> snd ` set (ts_blocks (snd s))) \<or> (\<exists>l \<in> set ls. b \<in> set (lease_blocks l))"

lemma sum_list_member_pos: "x \<in> set xs \<Longrightarrow> 0 < f x \<Longrightarrow> 0 < sum_list (map f xs)" for f :: "'a \<Rightarrow> nat"
  by (induction xs) auto

lemma held_owners:
  assumes "held t ls b"
  shows "block_owners t ls others (arc_id b) \<noteq> 1"
proof -
  have "0 < session_refs t (arc_id b)" if s: "s \<in> set (tl_sessions t)" "b \<in> snd ` set (ts_blocks (snd s))" for s
  proof -
    have "filter (\<lambda>(_, b'). arc_id b' = arc_id b) (ts_blocks (snd s)) \<noteq> []" using s(2) by (force simp: filter_empty_conv)
    then show ?thesis unfolding session_refs_def using s(1) by (intro sum_list_member_pos[of s]) (auto simp: case_prod_beta)
  qed
  moreover have "0 < lease_refs ls (arc_id b)" if l: "l \<in> set ls" "b \<in> set (lease_blocks l)" for l
  proof -
    have "filter (\<lambda>b'. arc_id b' = arc_id b) (lease_blocks l) \<noteq> []" using l(2) by (force simp: filter_empty_conv)
    then show ?thesis unfolding lease_refs_def using l(1) by (intro sum_list_member_pos[of l]) auto
  qed
  ultimately have "0 < session_refs t (arc_id b) + lease_refs ls (arc_id b)"
    using assms unfolding held_def by (metis add_gr_0)
  then show ?thesis by (auto simp: block_owners_def)
qed

text \<open>
  C3. Memory promised to a transfer or to a lease is not reused. While a block that a transfer
  session or a query lease holds is in the cache, an allocation, however much it has to evict,
  leaves the block in the cache, gives out none of the block's memory and leaves the sessions
  alone.
\<close>

theorem held_memory_not_reused:
  assumes "raw_laws (n_raw E) rep" and "memory_laws mem" and "lru_laws (n_lru E)" and "lru_laws (n_meta E)"
    and "alloc_reach (n_raw E) mem pin (en_allocator st) G" and "rc_reach (n_lru E) (n_meta E) (en_cache st)"
    and "cached_in E st G" and "0 < sz"
    and "n_strong E = block_owners (en_locks st) ls others" and "held (en_locks st) ls b" and "cached E st k = Some b"
    and "engine_allocate E sz numa st = Some (Inr (g, st'))"
  shows "cached E st' k = Some b \<and> (\<forall>x. g = Some x \<longrightarrow> x \<notin> set (n_guards E b)) \<and> en_locks st' = en_locks st"
proof -
  note ok = reachable_engine_ok[OF assms(1-7)]
  let ?node = "case numa of None \<Rightarrow> numa_unknown | Some m \<Rightarrow> m"
  have "allocate_loop E sz ?node st = Some (Inr (g, st'))" using assms(12) by (simp add: engine_allocate_def)
  then obtain G' where a: "shed E st G st' G'" "allocated E rep sz ?node g st' G'"
    using allocate_loop_spec[OF ok(1) assms(8) ok(2), of ?node] by auto
  have "n_strong E (arc_id b) \<noteq> 1" using held_owners[OF assms(10)] assms(9) by simp
  then have c: "cached E st' k = Some b" using shedD(2)[OF a(1) assms(11)] by blast
  have "x \<notin> set (n_guards E b)" if "g = Some x" for x
  proof -
    have "cached_in E st' G'" "x \<notin> G'" using a(2) that by (simp_all add: allocated_def)
    then show ?thesis using c unfolding cached_in_def by blast
  qed
  with c shedD(4)[OF a(1)] show ?thesis by blast
qed

definition wlocked :: "(bump_heap, (block_key \<times> arc_block) list, (block_key \<times> resident_metadata) list) storage_engine" where
  "wlocked = lock_blocks_for_transfer ''s'' 3 ''n'' [(wkey 1, warc 1 8)] wengine"

definition wlocked_env ::
  "(bump_heap, nat \<times> nat, (block_key \<times> arc_block) list, (block_key \<times> resident_metadata) list) engine_env" where
  "wlocked_env = wengine_env\<lparr>n_strong := block_owners (en_locks wlocked) [] (\<lambda>_. 0)\<rparr>"

theorem held_memory_not_reused_witness:
  "\<exists>g st'. engine_allocate wlocked_env 4096 None wlocked = Some (Inr (g, st')) \<and> cached wlocked_env st' (wkey 1) = Some (warc 1 8)"
proof -
  have p: "raw_laws (n_raw wlocked_env) bump_rep" "lru_laws (n_lru wlocked_env)" "lru_laws (n_meta wlocked_env)"
    "alloc_reach (n_raw wlocked_env) wmem (\<lambda>_. True) (en_allocator wlocked) {wguard 0 2, wguard 2 1}"
    "rc_reach (n_lru wlocked_env) (n_meta wlocked_env) (en_cache wlocked)"
    "cached_in wlocked_env wlocked {wguard 0 2, wguard 2 1}"
    using wengine_parts
    by (simp_all add: wlocked_env_def wlocked_def lock_blocks_for_transfer_def cached_in_def cached_def)
  note ok = reachable_engine_ok[OF p(1) wmem_laws p(2-6)]
  obtain g st' where a: "engine_allocate wlocked_env 4096 None wlocked = Some (Inr (g, st'))"
    using allocate_loop_spec[OF ok(1) _ ok(2), of 4096 numa_unknown] by (auto simp: engine_allocate_def)
  have h: "held (en_locks wlocked) [] (warc 1 8)"
    by (simp add: held_def wlocked_def lock_blocks_for_transfer_def lock_blocks_def wengine_def transfer_locks_new_def)
  have c: "cached wlocked_env wlocked (wkey 1) = Some (warc 1 8)"
    by (simp add: cached_def wlocked_def lock_blocks_for_transfer_def wlocked_env_def wengine_env_def wengine_def wcache_views)
  have s: "n_strong wlocked_env = block_owners (en_locks wlocked) [] (\<lambda>_. 0)" by (simp add: wlocked_env_def)
  from held_memory_not_reused[OF p(1) wmem_laws p(2-6) _ s h c a] a show ?thesis by simp
qed

end
